(* ===== verification/Prelude.thy ===== *)
theory Prelude
  imports Main "HOL-Library.Word" "HOL-Library.Multiset" "HOL-Library.Char_ord"
    "HOL-Library.List_Lexorder" "HOL-Library.Product_Lexorder" "HOL-Library.AList"
begin

text \<open>
  Shared vocabulary of the development: the identifiers of the control plane, Go's
  fixed-width integers, Go's \<open>sort.Slice\<close> as an insertion sort over a \<open>less\<close> function
  with its contract as a locale, and the lemma collections the component theories use.
\<close>

section \<open>Identifiers and Go scalars\<close>

text \<open>\<open>model.EdgeID\<close> is a Go string; the empty string means "no edge".\<close>

type_synonym edge_id = string
type_synonym pool_id = nat
type_synonym coverer_id = string

text \<open>\<open>time.Time\<close> and \<open>time.Duration\<close> are nanosecond counts; the zero \<open>time.Time\<close> is \<open>None\<close>.\<close>

type_synonym gtime = int
type_synonym duration = int

type_synonym u64 = "64 word"
type_synonym i64 = "64 word"

abbreviation seconds :: "int \<Rightarrow> duration" where
  "seconds n \<equiv> n * 1000000000"

named_theorems go_defs \<open>unfolding rules of small Go helpers\<close>
named_theorems inv_intros \<open>preservation of component invariants\<close>

section \<open>Signed 64-bit arithmetic\<close>

text \<open>Go's \<open>int64(x) * a / b\<close>: the product wraps, the quotient truncates towards zero.\<close>

definition go_div :: "int \<Rightarrow> int \<Rightarrow> int" where
  "go_div a b = (if b = 0 then 0 else sgn a * sgn b * (\<bar>a\<bar> div \<bar>b\<bar>))"

definition go_rem :: "int \<Rightarrow> int \<Rightarrow> int" where
  "go_rem a b = a - b * go_div a b"

definition wrap64 :: "int \<Rightarrow> int" where
  "wrap64 x = (x + 2 ^ 63) mod 2 ^ 64 - 2 ^ 63"

lemma wrap64_id: "- (2 ^ 63) \<le> x \<Longrightarrow> x < 2 ^ 63 \<Longrightarrow> wrap64 x = x"
  by (simp add: wrap64_def mod_pos_pos_trivial)

lemma wrap64_range: "- (2 ^ 63) \<le> wrap64 x \<and> wrap64 x < 2 ^ 63"
proof -
  have "0 \<le> (x + 2 ^ 63) mod 2 ^ 64" "(x + 2 ^ 63) mod 2 ^ 64 < (2::int) ^ 64"
    by (rule pos_mod_sign, simp) (rule pos_mod_bound, simp)
  then show ?thesis by (simp add: wrap64_def)
qed

lemma wrap64_add_left: "wrap64 (wrap64 a + b) = wrap64 (a + b)"
proof -
  have "(wrap64 a + b + 2 ^ 63) mod 2 ^ 64 = ((a + 2 ^ 63) mod 2 ^ 64 + b) mod (2::int) ^ 64"
    by (simp add: wrap64_def)
  also have "\<dots> = (a + b + 2 ^ 63) mod 2 ^ 64"
    by (subst mod_add_left_eq) (simp only: ac_simps)
  finally show ?thesis by (simp add: wrap64_def)
qed

lemma go_div_pos: "0 \<le> a \<Longrightarrow> 0 < b \<Longrightarrow> go_div a b = a div b"
  by (cases "a = 0") (auto simp: go_div_def sgn_if)

lemma go_div_rem: "b * go_div a b + go_rem a b = a"
  by (simp add: go_rem_def)

section \<open>sort.Slice\<close>

text \<open>
  \<open>sort.Slice(xs, less)\<close> and \<open>sort.SliceStable\<close>: a stable insertion sort over the
  comparison the source passes. \<open>sort.Slice\<close> leaves the order of equivalent elements open;
  every call of the source either compares by a key that is unique in the slice or depends on
  the sorted order only up to equivalent elements.
\<close>

fun ins_by :: "('a \<Rightarrow> 'a \<Rightarrow> bool) \<Rightarrow> 'a \<Rightarrow> 'a list \<Rightarrow> 'a list" where
  "ins_by lt x [] = [x]"
| "ins_by lt x (y # ys) = (if lt y x then y # ins_by lt x ys else x # y # ys)"

fun sort_by :: "('a \<Rightarrow> 'a \<Rightarrow> bool) \<Rightarrow> 'a list \<Rightarrow> 'a list" where
  "sort_by lt [] = []"
| "sort_by lt (x # xs) = ins_by lt x (sort_by lt xs)"

lemma mset_ins_by [simp]: "mset (ins_by lt x xs) = add_mset x (mset xs)"
  by (induction xs) auto

lemma mset_sort_by [simp]: "mset (sort_by lt xs) = mset xs"
  by (induction xs) auto

lemma set_sort_by [simp]: "set (sort_by lt xs) = set xs"
  by (metis mset_sort_by set_mset_mset)

lemma length_sort_by [simp]: "length (sort_by lt xs) = length xs"
  by (metis mset_sort_by size_mset)

lemma distinct_sort_by [simp]: "distinct (sort_by lt xs) = distinct xs"
  by (metis mset_sort_by mset_eq_imp_distinct_iff)

lemma distinct_map_sort_by [simp]: "distinct (map f (sort_by lt xs)) = distinct (map f xs)"
proof -
  have "mset (map f (sort_by lt xs)) = mset (map f xs)" by simp
  then show ?thesis by (rule mset_eq_imp_distinct_iff)
qed

lemma set_ins_by [simp]: "set (ins_by lt x xs) = insert x (set xs)"
  by (induction xs) auto

text \<open>The contract \<open>sort.Slice\<close> asks of its comparison: a strict weak order.\<close>

locale strict_weak =
  fixes lt :: "'a \<Rightarrow> 'a \<Rightarrow> bool"
  assumes irrefl: "\<not> lt x x"
    and trans: "lt x y \<Longrightarrow> lt y z \<Longrightarrow> lt x z"
    and neg_trans: "lt x z \<Longrightarrow> lt x y \<or> lt y z"
begin

lemma asym: "lt x y \<Longrightarrow> \<not> lt y x"
  using irrefl trans by blast

lemma sorted_ins_by:
  "sorted_wrt (\<lambda>a b. \<not> lt b a) xs \<Longrightarrow> sorted_wrt (\<lambda>a b. \<not> lt b a) (ins_by lt x xs)"
proof (induction xs)
  case (Cons y ys)
  then show ?case
    using asym neg_trans by (auto dest: asym) blast+
qed simp

lemma sorted_sort_by: "sorted_wrt (\<lambda>a b. \<not> lt b a) (sort_by lt xs)"
  by (induction xs) (auto intro: sorted_ins_by)

lemma sorted_unique:
  assumes "\<And>x y. x \<in> set xs \<Longrightarrow> y \<in> set xs \<Longrightarrow> \<not> lt x y \<Longrightarrow> \<not> lt y x \<Longrightarrow> x = y"
    and "mset xs = mset ys"
    and "sorted_wrt (\<lambda>a b. \<not> lt b a) xs" "sorted_wrt (\<lambda>a b. \<not> lt b a) ys"
  shows "xs = ys"
  using assms
proof (induction xs arbitrary: ys)
  case (Cons x xs)
  then obtain y ys' where ys: "ys = y # ys'" by (cases ys) auto
  have "set ys = set (x # xs)" using Cons.prems(2) by (metis set_mset_mset)
  then have "x \<in> set ys" "y \<in> set (x # xs)" using ys by auto
  then have "x = y"
    using Cons.prems(1)[of x y] Cons.prems(3,4) ys irrefl by auto
  then show ?case using Cons ys by auto
qed simp

lemma sort_by_perm:
  assumes "\<And>x y. x \<in> set xs \<Longrightarrow> y \<in> set xs \<Longrightarrow> \<not> lt x y \<Longrightarrow> \<not> lt y x \<Longrightarrow> x = y"
    and "mset xs = mset ys"
  shows "sort_by lt xs = sort_by lt ys"
  using assms by (intro sorted_unique) (simp_all add: sorted_sort_by)

lemma sort_by_id: "sorted_wrt (\<lambda>a b. \<not> lt b a) xs \<Longrightarrow> sort_by lt xs = xs"
proof (induction xs)
  case (Cons x xs)
  then have "sort_by lt xs = xs" by simp
  moreover have "ins_by lt x xs = x # xs"
    using Cons.prems by (cases xs) auto
  ultimately show ?case by simp
qed simp

lemma sort_by_filter:
  "filter P (sort_by lt xs) = sort_by lt (filter P xs)"
proof (induction xs)
  case (Cons x xs)
  have "filter P (ins_by lt x ys) = (if P x then ins_by lt x (filter P ys) else filter P ys)"
    if "sorted_wrt (\<lambda>a b. \<not> lt b a) ys" for ys
    using that
  proof (induction ys)
    case (Cons y ys)
    have keep: "ins_by lt x (filter P ys) = x # filter P ys" if "\<not> lt y x"
    proof (cases "filter P ys")
      case (Cons z zs)
      then have "z \<in> set ys" by (metis filter_eq_ConsD in_set_conv_decomp)
      then have "\<not> lt z y" using Cons.prems by auto
      then have "\<not> lt z x" using neg_trans that by blast
      then show ?thesis using Cons by simp
    qed simp
    show ?case using Cons keep by auto
  qed simp
  then show ?case using Cons.IH sorted_sort_by by simp
qed simp

end

text \<open>The comparisons that compare one key of a linearly ordered type.\<close>

definition less_key :: "('a \<Rightarrow> 'b::linorder) \<Rightarrow> 'a \<Rightarrow> 'a \<Rightarrow> bool" where
  "less_key f x y \<longleftrightarrow> f x < f y"

interpretation key: strict_weak "less_key f" for f :: "'a \<Rightarrow> 'b::linorder"
  by unfold_locales (auto simp: less_key_def)

lemma sort_by_key_perm:
  assumes "inj_on f (set xs)" "mset xs = mset ys"
  shows "sort_by (less_key f) xs = sort_by (less_key f) ys"
  using assms by (intro key.sort_by_perm) (auto simp: less_key_def inj_on_def)

section \<open>Lists and maps\<close>

lemma take_filter_prefix:
  "(\<And>x. x \<in> set (take k xs) \<Longrightarrow> P x) \<Longrightarrow> take k (filter P xs) = take k xs"
  by (induction xs arbitrary: k) (auto simp: take_Cons' split: if_splits)

lemma sum_list_map_add:
  "sum_list (map (\<lambda>x. f x + g x) xs) = sum_list (map f xs) + (sum_list (map g xs) :: 'a::comm_monoid_add)"
  by (induction xs) (auto simp: algebra_simps)

section \<open>Go maps as association lists\<close>

text \<open>A map the code iterates over is an association list with distinct keys.\<close>

abbreviation map_ok :: "('k \<times> 'v) list \<Rightarrow> bool" where
  "map_ok al \<equiv> distinct (map fst al)"

text \<open>Reading a map that may be nil.\<close>

definition get_map :: "('k \<times> 'v list) list \<Rightarrow> 'k \<Rightarrow> 'v list" where
  "get_map al k = (case map_of al k of None \<Rightarrow> [] | Some v \<Rightarrow> v)"

lemma get_map_update: "get_map (AList.update k v al) k' = (if k' = k then v else get_map al k')"
  by (simp add: get_map_def update_conv')

lemma get_map_delete: "get_map (AList.delete k al) k' = (if k' = k then [] else get_map al k')"
  by (simp add: get_map_def delete_conv')

lemma get_map_Nil [simp]: "get_map [] k = []"
  by (simp add: get_map_def)

lemma keys_get_map: "\<forall>(k, v) \<in> set al. map_ok v \<Longrightarrow> map_ok (get_map al k)"
  by (auto simp: get_map_def split: option.splits dest: map_of_SomeD)

lemma in_update: "x \<in> set (AList.update k v al) \<Longrightarrow> x = (k, v) \<or> x \<in> set al"
  by (induction al) (auto split: if_splits)

lemma in_delete: "x \<in> set (AList.delete k al) \<Longrightarrow> x \<in> set al"
  by (auto simp: AList.delete_eq)

lemma get_map_Cons: "get_map ((k, v) # al) k' = (if k' = k then v else get_map al k')"
  by (simp add: get_map_def)

lemma get_map_fresh: "k \<notin> fst ` set al \<Longrightarrow> get_map al k = []"
  by (simp add: get_map_def map_of_eq_None_iff [symmetric] split: option.splits)

section \<open>Fallible code\<close>

text \<open>
  A Go function that returns \<open>(T, error)\<close> is a function into \<open>'e + 'a\<close>, \<open>Inl\<close> the error.
  \<open>bindE\<close> is "\<open>if err != nil { return err }\<close>"; \<open>foldE\<close> is a \<open>for\<close> loop whose body may
  return early with an error.
\<close>

definition bindE :: "'e + 'a \<Rightarrow> ('a \<Rightarrow> 'e + 'b) \<Rightarrow> 'e + 'b" where
  "bindE m f = (case m of Inl e \<Rightarrow> Inl e | Inr x \<Rightarrow> f x)"

fun foldE :: "('s \<Rightarrow> 'a \<Rightarrow> 'e + 's) \<Rightarrow> 's \<Rightarrow> 'a list \<Rightarrow> 'e + 's" where
  "foldE f s [] = Inr s"
| "foldE f s (x # xs) = bindE (f s x) (\<lambda>s'. foldE f s' xs)"

lemma bindE_simps [simp]: "bindE (Inl e) f = Inl e" "bindE (Inr x) f = f x"
  by (simp_all add: bindE_def)

lemma bindE_Inr_iff: "bindE m f = Inr y \<longleftrightarrow> (\<exists>x. m = Inr x \<and> f x = Inr y)"
  by (cases m) auto

lemma bindE_Inl_iff: "bindE m f = Inl e \<longleftrightarrow> m = Inl e \<or> (\<exists>x. m = Inr x \<and> f x = Inl e)"
  by (cases m) auto

lemma bindE_assoc: "bindE (bindE m f) g = bindE m (\<lambda>x. bindE (f x) g)"
  by (cases m) auto

lemma foldE_append: "foldE f s (xs @ ys) = bindE (foldE f s xs) (\<lambda>s'. foldE f s' ys)"
  by (induction xs arbitrary: s) (auto simp: bindE_assoc)

lemma foldE_invariant:
  assumes "foldE f s xs = Inr s'" "I s"
    and "\<And>s x s'. x \<in> set xs \<Longrightarrow> I s \<Longrightarrow> f s x = Inr s' \<Longrightarrow> I s'"
  shows "I s'"
  using assms by (induction xs arbitrary: s) (auto simp: bindE_Inr_iff)

fun mapE :: "('a \<Rightarrow> 'e + 'b) \<Rightarrow> 'a list \<Rightarrow> 'e + 'b list" where
  "mapE f [] = Inr []"
| "mapE f (x # xs) = bindE (f x) (\<lambda>y. bindE (mapE f xs) (\<lambda>ys. Inr (y # ys)))"

lemma mapE_append: "mapE f (xs @ ys) = bindE (mapE f xs) (\<lambda>as. bindE (mapE f ys) (\<lambda>bs. Inr (as @ bs)))"
  by (induction xs) (auto simp: bindE_assoc bindE_def split: sum.splits)

lemma mapE_map: "mapE f (map g xs) = mapE (\<lambda>x. f (g x)) xs"
  by (induction xs) auto

lemma mapE_Inr_iff: "mapE f xs = Inr ys \<longleftrightarrow> map f xs = map Inr ys"
  by (induction xs arbitrary: ys) (auto simp: bindE_Inr_iff)

end
