(* ===== verification/Liveness.thy ===== *)
theory Liveness
  imports Prelude
begin

text \<open>
  The failover trigger (\<open>internal/liveness/monitor.go\<close>): per-edge signal state, the three death
  rules and \<open>Tick\<close>. Every operation takes the clock reading \<open>now\<close> and returns the new monitor
  with the callbacks it fires, in order; \<open>Tick\<close> takes the order in which Go's map iteration
  visits the edges. Runs of operations are lists, so the lemmas speak about arbitrary
  interleavings of signals and ticks.
\<close>

section \<open>State\<close>

datatype faultKind = FaultNone | FaultVPPGone | FaultLinkDown | FaultForwardingBroken | FaultOther

record lstate =
  lastSeen :: gtime
  hardVotes :: "coverer_id set"
  canaryDown :: bool
  healthDead :: bool
  faultKind :: faultKind
  softSince :: "gtime option"
  hardSince :: "gtime option"
  failed :: bool
  everReported :: bool

text \<open>The \<open>is_\<close> fields say whether the optional callback is set.\<close>

record monitor =
  grace :: duration
  softDebounce :: duration
  hardDebounce :: duration
  restartGrace :: duration
  startupGrace :: duration
  readyAt :: gtime
  quorum :: int
  selfID :: string
  edges :: "edge_id \<rightharpoonup> lstate"
  onRevive_set :: bool
  reporting :: "(edge_id \<Rightarrow> bool) option"
  meteringStale_set :: bool
  onDeath_set :: bool

datatype detection = HardQuorum | SoftDeath | HeartbeatStale

datatype live_event =
    OnRevive edge_id
  | MeteringStale edge_id bool
  | OnDeath edge_id detection
  | OnFailover edge_id

section \<open>Predicates\<close>

definition ready :: "monitor \<Rightarrow> gtime \<Rightarrow> bool" where
  "ready m now \<longleftrightarrow> \<not> now < readyAt m"

definition hardDead :: "monitor \<Rightarrow> gtime \<Rightarrow> lstate \<Rightarrow> bool" where
  "hardDead m now s \<longleftrightarrow> ready m now \<and> int (card (hardVotes s)) \<ge> quorum m"

definition softDead :: "lstate \<Rightarrow> bool" where
  "softDead s \<longleftrightarrow> canaryDown s \<and> healthDead s"

definition dataDead :: "lstate \<Rightarrow> bool" where
  "dataDead s = (case faultKind s of
      FaultVPPGone \<Rightarrow> healthDead s
    | FaultLinkDown \<Rightarrow> healthDead s
    | FaultForwardingBroken \<Rightarrow> healthDead s
    | _ \<Rightarrow> softDead s)"

definition debounceFor :: "monitor \<Rightarrow> faultKind \<Rightarrow> duration" where
  "debounceFor m f = (case f of
      FaultLinkDown \<Rightarrow> 0
    | FaultForwardingBroken \<Rightarrow> 0
    | FaultVPPGone \<Rightarrow> restartGrace m
    | _ \<Rightarrow> softDebounce m)"

section \<open>Construction\<close>

text \<open>\<open>New\<close>: \<open>m0\<close> holds what the options set, zero values elsewhere.\<close>

definition New :: "duration \<Rightarrow> monitor \<Rightarrow> gtime \<Rightarrow> monitor" where
  "New g m0 now =
     (let m = m0\<lparr>grace := g, edges := Map.empty\<rparr>;
          m = (if softDebounce m = 0
               then m\<lparr>softDebounce := (if g > 0 then g else seconds 5)\<rparr> else m);
          m = (if restartGrace m = 0 then m\<lparr>restartGrace := seconds 5\<rparr> else m);
          m = (if quorum m < 1 then m\<lparr>quorum := 1\<rparr> else m)
      in m\<lparr>readyAt := now + startupGrace m\<rparr>)"

section \<open>Signals\<close>

definition localVoteKey :: "monitor \<Rightarrow> coverer_id" where
  "localVoteKey m = (if selfID m \<noteq> [] then selfID m else ''local'')"

definition fresh_state :: "gtime \<Rightarrow> lstate" where
  "fresh_state now = \<lparr>lastSeen = now, hardVotes = {}, canaryDown = False, healthDead = False,
     faultKind = FaultNone, softSince = None, hardSince = None, failed = False,
     everReported = False\<rparr>"

definition get :: "monitor \<Rightarrow> gtime \<Rightarrow> edge_id \<Rightarrow> lstate" where
  "get m now edge = (case edges m edge of Some s \<Rightarrow> s | None \<Rightarrow> fresh_state now)"

definition put :: "monitor \<Rightarrow> edge_id \<Rightarrow> lstate \<Rightarrow> monitor" where
  "put m edge s = m\<lparr>edges := (edges m)(edge \<mapsto> s)\<rparr>"

definition Alive :: "monitor \<Rightarrow> gtime \<Rightarrow> edge_id \<Rightarrow> monitor \<times> live_event list" where
  "Alive m now edge =
     (let s = get m now edge;
          revived = failed s
      in (put m edge (s\<lparr>lastSeen := now, hardVotes := {}, canaryDown := False,
            healthDead := False, faultKind := FaultNone, softSince := None, failed := False\<rparr>),
          if revived \<and> onRevive_set m then [OnRevive edge] else []))"

definition Heartbeat :: "monitor \<Rightarrow> gtime \<Rightarrow> edge_id \<Rightarrow> monitor \<times> live_event list" where
  "Heartbeat m now edge =
     (let s = (get m now edge)\<lparr>lastSeen := now, everReported := True\<rparr>;
          revived = failed s \<and> \<not> hardDead m now s \<and> \<not> dataDead s
      in (put m edge (if revived then s\<lparr>failed := False\<rparr> else s),
          if revived \<and> onRevive_set m then [OnRevive edge] else []))"

definition Health :: "monitor \<Rightarrow> gtime \<Rightarrow> edge_id \<Rightarrow> bool \<Rightarrow> faultKind \<Rightarrow> monitor" where
  "Health m now edge soft fault =
     (let s = (get m now edge)\<lparr>healthDead := soft, faultKind := fault\<rparr>
      in put m edge (if \<not> dataDead s then s\<lparr>softSince := None\<rparr> else s))"

definition HardDown :: "monitor \<Rightarrow> gtime \<Rightarrow> edge_id \<Rightarrow> monitor" where
  "HardDown m now edge =
     (let s = get m now edge
      in put m edge (s\<lparr>hardVotes := insert (localVoteKey m) (hardVotes s)\<rparr>))"

definition HardUp :: "monitor \<Rightarrow> gtime \<Rightarrow> edge_id \<Rightarrow> monitor" where
  "HardUp m now edge =
     (let s = get m now edge
      in put m edge (s\<lparr>hardVotes := hardVotes s - {localVoteKey m}\<rparr>))"

definition Vote :: "monitor \<Rightarrow> gtime \<Rightarrow> edge_id \<Rightarrow> coverer_id \<Rightarrow> bool \<Rightarrow> monitor" where
  "Vote m now edge coverer down =
     (if coverer = [] \<or> coverer = localVoteKey m then m
      else
        let s = get m now edge
        in put m edge (if down then s\<lparr>hardVotes := insert coverer (hardVotes s)\<rparr>
                       else s\<lparr>hardVotes := hardVotes s - {coverer}\<rparr>))"

definition CanaryDown :: "monitor \<Rightarrow> gtime \<Rightarrow> edge_id \<Rightarrow> monitor" where
  "CanaryDown m now edge = put m edge ((get m now edge)\<lparr>canaryDown := True\<rparr>)"

definition CanaryUp :: "monitor \<Rightarrow> gtime \<Rightarrow> edge_id \<Rightarrow> monitor" where
  "CanaryUp m now edge = put m edge ((get m now edge)\<lparr>canaryDown := False, softSince := None\<rparr>)"

definition IsDead :: "monitor \<Rightarrow> gtime \<Rightarrow> edge_id \<Rightarrow> bool" where
  "IsDead m now edge = (case edges m edge of None \<Rightarrow> False
     | Some s \<Rightarrow> hardDead m now s \<or> failed s)"

definition Forget :: "monitor \<Rightarrow> edge_id \<Rightarrow> monitor" where
  "Forget m edge = m\<lparr>edges := (edges m)(edge := None)\<rparr>"

section \<open>Tick\<close>

definition stale_now :: "monitor \<Rightarrow> gtime \<Rightarrow> edge_id \<Rightarrow> lstate \<Rightarrow> bool" where
  "stale_now m now edge s \<longleftrightarrow>
     grace m > 0 \<and> now - lastSeen s > grace m \<and>
     (case reporting m of None \<Rightarrow> True | Some f \<Rightarrow> f edge)"

text \<open>A hold-down: not running, running since, or expired (the rule fires).\<close>

definition hold_down :: "gtime \<Rightarrow> duration \<Rightarrow> bool \<Rightarrow> gtime option \<Rightarrow> gtime option \<times> bool" where
  "hold_down now d dead since =
     (if dead then
        (if d \<le> 0 then (since, True)
         else case since of
           None \<Rightarrow> (Some now, False)
         | Some t \<Rightarrow> (Some t, now - t \<ge> d))
      else (None, False))"

text \<open>The loop body for one edge that has not failed: its new state and the rule that fired.\<close>

definition tick_edge :: "monitor \<Rightarrow> gtime \<Rightarrow> edge_id \<Rightarrow> lstate \<Rightarrow> lstate \<times> detection option" where
  "tick_edge m now edge s =
     (let stale = stale_now m now edge s;
          (ss, softFired) = hold_down now (debounceFor m (faultKind s)) (dataDead s) (softSince s);
          staleEligible = (stale \<and> everReported s);
          (hs, hardFired) = hold_down now (hardDebounce m) (hardDead m now s) (hardSince s);
          s = s\<lparr>softSince := ss, hardSince := hs\<rparr>
      in if hardFired \<or> staleEligible \<or> softFired
         then (s\<lparr>failed := True\<rparr>,
               Some (if hardFired then HardQuorum
                     else if softFired then SoftDeath else HeartbeatStale))
         else (s, None))"

definition tick_state :: "monitor \<Rightarrow> gtime \<Rightarrow> edge_id \<Rightarrow> lstate \<Rightarrow> lstate" where
  "tick_state m now edge s = (if failed s then s else fst (tick_edge m now edge s))"

definition verdict :: "monitor \<Rightarrow> gtime \<Rightarrow> edge_id \<Rightarrow> detection option" where
  "verdict m now edge = (case edges m edge of None \<Rightarrow> None
     | Some s \<Rightarrow> if failed s then None else snd (tick_edge m now edge s))"

text \<open>
  \<open>order\<close> and \<open>sorder\<close> are the map iteration orders of the main loop and of the notification
  loop. Each edge is judged on its own state, so the loop is a pointwise update.
\<close>

definition Tick ::
  "monitor \<Rightarrow> gtime \<Rightarrow> edge_id list \<Rightarrow> edge_id list \<Rightarrow> monitor \<times> edge_id list \<times> live_event list"
where
  "Tick m now order sorder =
     (let dead = filter (\<lambda>e. verdict m now e \<noteq> None) order;
          m' = m\<lparr>edges := (\<lambda>e. map_option (tick_state m now e) (edges m e))\<rparr>;
          stales = (if meteringStale_set m
                    then map (\<lambda>e. MeteringStale e (stale_now m now e (the (edges m e))))
                           (filter (\<lambda>e. case edges m e of None \<Rightarrow> False | Some s \<Rightarrow> \<not> failed s) sorder)
                    else []);
          deaths = concat (map (\<lambda>e.
             (if onDeath_set m then [OnDeath e (the (verdict m now e))] else []) @ [OnFailover e]) dead)
      in (m', dead, stales @ deaths))"

section \<open>Runs\<close>

datatype live_op =
    OAlive edge_id
  | OHeartbeat edge_id
  | OHealth edge_id bool faultKind
  | OHardDown edge_id
  | OHardUp edge_id
  | OVote edge_id coverer_id bool
  | OCanaryDown edge_id
  | OCanaryUp edge_id
  | OForget edge_id
  | OTick "edge_id list" "edge_id list"

definition exec :: "monitor \<Rightarrow> gtime \<Rightarrow> live_op \<Rightarrow> monitor \<times> live_event list" where
  "exec m now op = (case op of
      OAlive e \<Rightarrow> Alive m now e
    | OHeartbeat e \<Rightarrow> Heartbeat m now e
    | OHealth e d f \<Rightarrow> (Health m now e d f, [])
    | OHardDown e \<Rightarrow> (HardDown m now e, [])
    | OHardUp e \<Rightarrow> (HardUp m now e, [])
    | OVote e c d \<Rightarrow> (Vote m now e c d, [])
    | OCanaryDown e \<Rightarrow> (CanaryDown m now e, [])
    | OCanaryUp e \<Rightarrow> (CanaryUp m now e, [])
    | OForget e \<Rightarrow> (Forget m e, [])
    | OTick order sorder \<Rightarrow> (case Tick m now order sorder of (m', dead, ev) \<Rightarrow> (m', ev)))"

fun run :: "monitor \<Rightarrow> (gtime \<times> live_op) list \<Rightarrow> monitor \<times> live_event list" where
  "run m [] = (m, [])"
| "run m ((now, op) # ops) =
     (case exec m now op of (m1, ev1) \<Rightarrow> case run m1 ops of (m2, ev2) \<Rightarrow> (m2, ev1 @ ev2))"

section \<open>What a tick decides\<close>

lemma edges_put [simp]: "edges (put m e s) = (edges m)(e \<mapsto> s)"
  by (simp add: put_def)

text \<open>The rule's condition has held long enough for it to fire.\<close>

definition held :: "gtime \<Rightarrow> duration \<Rightarrow> gtime option \<Rightarrow> bool" where
  "held now d since \<longleftrightarrow> d \<le> 0 \<or> (\<exists>t. since = Some t \<and> d \<le> now - t)"

lemma hold_down_fires: "snd (hold_down now d dead since) \<longleftrightarrow> dead \<and> held now d since"
  by (auto simp: hold_down_def held_def split: option.splits)

definition hard_fires :: "monitor \<Rightarrow> gtime \<Rightarrow> lstate \<Rightarrow> bool" where
  "hard_fires m now s \<longleftrightarrow> hardDead m now s \<and> held now (hardDebounce m) (hardSince s)"

definition soft_fires :: "monitor \<Rightarrow> gtime \<Rightarrow> lstate \<Rightarrow> bool" where
  "soft_fires m now s \<longleftrightarrow> dataDead s \<and> held now (debounceFor m (faultKind s)) (softSince s)"

definition stale_fires :: "monitor \<Rightarrow> gtime \<Rightarrow> edge_id \<Rightarrow> lstate \<Rightarrow> bool" where
  "stale_fires m now e s \<longleftrightarrow> stale_now m now e s \<and> everReported s"

lemma tick_edge_split:
  fixes m now e s
  defines "h1 \<equiv> hold_down now (debounceFor m (faultKind s)) (dataDead s) (softSince s)"
    and "h2 \<equiv> hold_down now (hardDebounce m) (hardDead m now s) (hardSince s)"
  shows "snd (tick_edge m now e s) =
      (if snd h2 then Some HardQuorum else if snd h1 then Some SoftDeath
       else if stale_now m now e s \<and> everReported s then Some HeartbeatStale else None)"
    and "fst (tick_edge m now e s) = s\<lparr>softSince := fst h1, hardSince := fst h2,
       failed := (failed s \<or> snd (tick_edge m now e s) \<noteq> None)\<rparr>"
proof -
  obtain a b c d where h: "h1 = (a, b)" "h2 = (c, d)" by (cases h1, cases h2)
  show "snd (tick_edge m now e s) =
      (if snd h2 then Some HardQuorum else if snd h1 then Some SoftDeath
       else if stale_now m now e s \<and> everReported s then Some HeartbeatStale else None)"
    "fst (tick_edge m now e s) = s\<lparr>softSince := fst h1, hardSince := fst h2,
       failed := (failed s \<or> snd (tick_edge m now e s) \<noteq> None)\<rparr>"
    using h unfolding tick_edge_def Let_def h1_def h2_def
    by (cases b; cases d; cases "stale_now m now e s"; cases "everReported s"; simp)+
qed

lemma tick_edge_verdict:
  "snd (tick_edge m now e s) =
     (if hard_fires m now s then Some HardQuorum
      else if soft_fires m now s then Some SoftDeath
      else if stale_fires m now e s then Some HeartbeatStale else None)"
  unfolding tick_edge_split hold_down_fires hard_fires_def soft_fires_def stale_fires_def ..

lemmas tick_edge_state = tick_edge_split(2)

lemma verdict_alt:
  "verdict m now e = (case edges m e of None \<Rightarrow> None
     | Some s \<Rightarrow> if failed s then None else
         if hard_fires m now s then Some HardQuorum
         else if soft_fires m now s then Some SoftDeath
         else if stale_fires m now e s then Some HeartbeatStale else None)"
  by (auto simp: verdict_def tick_edge_verdict split: option.splits)

lemma Tick_edges: "edges (fst (Tick m now order sorder)) e = map_option (tick_state m now e) (edges m e)"
  by (simp add: Tick_def Let_def)

lemma Tick_events_failover:
  "OnFailover e \<in> set (snd (snd (Tick m now order sorder))) \<longleftrightarrow> e \<in> set order \<and> verdict m now e \<noteq> None"
  by (auto simp: Tick_def Let_def split: if_splits)


section \<open>The signals as a history\<close>

text \<open>Some operation switched the signal on and none since has switched it off.\<close>

definition latched :: "('a \<Rightarrow> bool) \<Rightarrow> ('a \<Rightarrow> bool) \<Rightarrow> 'a list \<Rightarrow> bool" where
  "latched on off ops \<longleftrightarrow> (\<exists>pre x post. ops = pre @ x # post \<and> on x \<and> (\<forall>y \<in> set post. \<not> off y))"

lemma latched_Nil [simp]: "\<not> latched on off []"
  by (simp add: latched_def)

lemma latched_snoc: "latched on off (ops @ [y]) \<longleftrightarrow> on y \<or> (\<not> off y \<and> latched on off ops)"
proof
  assume "latched on off (ops @ [y])"
  then obtain pre x post where o: "ops @ [y] = pre @ x # post" "on x" "\<forall>y \<in> set post. \<not> off y"
    by (auto simp: latched_def)
  then show "on y \<or> (\<not> off y \<and> latched on off ops)"
    by (cases post rule: rev_cases) (auto simp: latched_def)
next
  assume "on y \<or> (\<not> off y \<and> latched on off ops)"
  then show "latched on off (ops @ [y])"
  proof
    assume "on y"
    then show ?thesis unfolding latched_def by (intro exI [of _ ops] exI [of _ y] exI [of _ "[]"]) simp
  next
    assume "\<not> off y \<and> latched on off ops"
    then obtain pre x post where "ops = pre @ x # post" "on x" "\<forall>y \<in> set post. \<not> off y" "\<not> off y"
      by (auto simp: latched_def)
    then show ?thesis unfolding latched_def
      by (intro exI [of _ pre] exI [of _ x] exI [of _ "post @ [y]"]) auto
  qed
qed

text \<open>Coverer \<open>c\<close>'s last word on \<open>e\<close> is "down".\<close>

definition says_down :: "coverer_id \<Rightarrow> edge_id \<Rightarrow> coverer_id \<Rightarrow> live_op \<Rightarrow> bool" where
  "says_down self e c op = (case op of
      OHardDown e' \<Rightarrow> e' = e \<and> c = self
    | OVote e' c' d \<Rightarrow> e' = e \<and> c' = c \<and> d \<and> c \<noteq> [] \<and> c \<noteq> self
    | _ \<Rightarrow> False)"

definition says_up :: "coverer_id \<Rightarrow> edge_id \<Rightarrow> coverer_id \<Rightarrow> live_op \<Rightarrow> bool" where
  "says_up self e c op = (case op of
      OHardUp e' \<Rightarrow> e' = e \<and> c = self
    | OVote e' c' d \<Rightarrow> e' = e \<and> c' = c \<and> \<not> d \<and> c \<noteq> [] \<and> c \<noteq> self
    | OAlive e' \<Rightarrow> e' = e
    | OForget e' \<Rightarrow> e' = e
    | _ \<Rightarrow> False)"

definition canary_on :: "edge_id \<Rightarrow> live_op \<Rightarrow> bool" where
  "canary_on e op \<longleftrightarrow> op = OCanaryDown e"

definition canary_off :: "edge_id \<Rightarrow> live_op \<Rightarrow> bool" where
  "canary_off e op \<longleftrightarrow> op \<in> {OCanaryUp e, OAlive e, OForget e}"

definition health_on :: "edge_id \<Rightarrow> live_op \<Rightarrow> bool" where
  "health_on e op \<longleftrightarrow> (\<exists>f. op = OHealth e True f)"

definition health_off :: "edge_id \<Rightarrow> live_op \<Rightarrow> bool" where
  "health_off e op \<longleftrightarrow> op \<in> {OAlive e, OForget e} \<or> (\<exists>f. op = OHealth e False f)"

lemmas signal_defs = says_down_def says_up_def canary_on_def canary_off_def health_on_def health_off_def

lemma exec_config:
  "quorum (fst (exec m now op)) = quorum m" "selfID (fst (exec m now op)) = selfID m"
  "readyAt (fst (exec m now op)) = readyAt m" "onRevive_set (fst (exec m now op)) = onRevive_set m"
  "grace (fst (exec m now op)) = grace m" "hardDebounce (fst (exec m now op)) = hardDebounce m"
  "reporting (fst (exec m now op)) = reporting m"
  by (auto simp: exec_def Alive_def Heartbeat_def Health_def HardDown_def HardUp_def Vote_def
      CanaryDown_def CanaryUp_def Forget_def Tick_def put_def Let_def split: live_op.splits)

lemma run_snoc:
  "run m (ops @ [(now, op)]) =
     (let (m1, ev1) = run m ops; (m2, ev2) = exec m1 now op in (m2, ev1 @ ev2))"
  by (induction ops arbitrary: m) (auto split: prod.splits)

lemma run_config:
  "quorum (fst (run m ops)) = quorum m \<and> selfID (fst (run m ops)) = selfID m
   \<and> readyAt (fst (run m ops)) = readyAt m \<and> grace (fst (run m ops)) = grace m
   \<and> hardDebounce (fst (run m ops)) = hardDebounce m \<and> reporting (fst (run m ops)) = reporting m"
proof (induction ops rule: rev_induct)
  case (snoc x ops)
  then show ?case
    by (cases x) (auto simp: run_snoc Let_def exec_config split: prod.splits dest!: arg_cong [where f = fst])
qed simp

text \<open>The four signals of an edge, off when it is not tracked.\<close>

definition votes_at :: "monitor \<Rightarrow> edge_id \<Rightarrow> coverer_id set" where
  "votes_at m e = (case edges m e of None \<Rightarrow> {} | Some s \<Rightarrow> hardVotes s)"

definition canary_at :: "monitor \<Rightarrow> edge_id \<Rightarrow> bool" where
  "canary_at m e = (case edges m e of None \<Rightarrow> False | Some s \<Rightarrow> canaryDown s)"

definition health_at :: "monitor \<Rightarrow> edge_id \<Rightarrow> bool" where
  "health_at m e = (case edges m e of None \<Rightarrow> False | Some s \<Rightarrow> healthDead s)"

definition reported_at :: "monitor \<Rightarrow> edge_id \<Rightarrow> bool" where
  "reported_at m e = (case edges m e of None \<Rightarrow> False | Some s \<Rightarrow> everReported s)"

lemmas at_defs = votes_at_def canary_at_def health_at_def reported_at_def

lemma get_at:
  "hardVotes (get m now e) = votes_at m e" "canaryDown (get m now e) = canary_at m e"
  "healthDead (get m now e) = health_at m e" "everReported (get m now e) = reported_at m e"
  by (auto simp: get_def at_defs fresh_state_def split: option.splits)

lemma at_put:
  "votes_at (put m e' s) e = (if e = e' then hardVotes s else votes_at m e)"
  "canary_at (put m e' s) e = (if e = e' then canaryDown s else canary_at m e)"
  "health_at (put m e' s) e = (if e = e' then healthDead s else health_at m e)"
  "reported_at (put m e' s) e = (if e = e' then everReported s else reported_at m e)"
  by (auto simp: at_defs)

lemma at_Tick:
  "votes_at (fst (Tick m now o1 o2)) e = votes_at m e"
  "canary_at (fst (Tick m now o1 o2)) e = canary_at m e"
  "health_at (fst (Tick m now o1 o2)) e = health_at m e"
  "reported_at (fst (Tick m now o1 o2)) e = reported_at m e"
  by (auto simp: at_defs Tick_edges tick_state_def tick_edge_state split: option.splits)

lemma at_Forget:
  "votes_at (Forget m e') e = (if e = e' then {} else votes_at m e)"
  "canary_at (Forget m e') e = (if e = e' then False else canary_at m e)"
  "health_at (Forget m e') e = (if e = e' then False else health_at m e)"
  "reported_at (Forget m e') e = (if e = e' then False else reported_at m e)"
  by (auto simp: at_defs Forget_def)

lemmas op_defs = exec_def Alive_def Heartbeat_def Health_def HardDown_def HardUp_def Vote_def
  CanaryDown_def CanaryUp_def Let_def

lemma fst_case_Tick: "fst (case Tick m now o1 o2 of (m', dead, ev) \<Rightarrow> (m', ev)) = fst (Tick m now o1 o2)"
  by (simp split: prod.splits)

lemma votes_exec:
  "c \<in> votes_at (fst (exec m now op)) e \<longleftrightarrow>
     says_down (localVoteKey m) e c op \<or> (\<not> says_up (localVoteKey m) e c op \<and> c \<in> votes_at m e)"
  by (cases op) (auto simp: op_defs at_put at_Tick at_Forget get_at fst_case_Tick signal_defs)

lemma canary_exec:
  "canary_at (fst (exec m now op)) e \<longleftrightarrow> canary_on e op \<or> (\<not> canary_off e op \<and> canary_at m e)"
  by (cases op) (auto simp: op_defs at_put at_Tick at_Forget get_at fst_case_Tick signal_defs)

lemma health_exec:
  "health_at (fst (exec m now op)) e \<longleftrightarrow> health_on e op \<or> (\<not> health_off e op \<and> health_at m e)"
  by (cases op) (auto simp: op_defs at_put at_Tick at_Forget get_at fst_case_Tick signal_defs)

lemma reported_exec:
  "reported_at (fst (exec m now op)) e \<longleftrightarrow>
     op = OHeartbeat e \<or> (op \<noteq> OForget e \<and> reported_at m e)"
  by (cases op) (auto simp: op_defs at_put at_Tick at_Forget get_at fst_case_Tick signal_defs)

lemma fst_run_snoc: "fst (run m (ops @ [(now, op)])) = fst (exec (fst (run m ops)) now op)"
  by (simp add: run_snoc Let_def split: prod.splits)

lemma run_localVoteKey: "localVoteKey (fst (run m ops)) = localVoteKey m"
  using run_config [of m ops] by (simp add: localVoteKey_def)

lemma run_signals:
  assumes "edges m = Map.empty"
  shows "votes_at (fst (run m ops)) e =
      {c. latched (says_down (localVoteKey m) e c) (says_up (localVoteKey m) e c) (map snd ops)}
    \<and> canary_at (fst (run m ops)) e = latched (canary_on e) (canary_off e) (map snd ops)
    \<and> health_at (fst (run m ops)) e = latched (health_on e) (health_off e) (map snd ops)
    \<and> reported_at (fst (run m ops)) e = latched ((=) (OHeartbeat e)) ((=) (OForget e)) (map snd ops)"
proof (induction ops rule: rev_induct)
  case Nil
  then show ?case using assms by (simp add: at_defs)
next
  case (snoc x ops)
  obtain now op where x: "x = (now, op)" by (cases x)
  have "votes_at (fst (run m (ops @ [x]))) e =
      {c. latched (says_down (localVoteKey m) e c) (says_up (localVoteKey m) e c) (map snd (ops @ [x]))}"
    using snoc.IH [THEN conjunct1]
    by (simp add: set_eq_iff x fst_run_snoc latched_snoc votes_exec run_localVoteKey)
  moreover have "canary_at (fst (run m (ops @ [x]))) e =
      latched (canary_on e) (canary_off e) (map snd (ops @ [x]))"
    using snoc.IH by (simp add: x fst_run_snoc latched_snoc canary_exec)
  moreover have "health_at (fst (run m (ops @ [x]))) e =
      latched (health_on e) (health_off e) (map snd (ops @ [x]))"
    using snoc.IH by (simp add: x fst_run_snoc latched_snoc health_exec)
  moreover have "reported_at (fst (run m (ops @ [x]))) e =
      latched ((=) (OHeartbeat e)) ((=) (OForget e)) (map snd (ops @ [x]))"
    using snoc.IH by (auto simp: x fst_run_snoc latched_snoc reported_exec)
  ultimately show ?case by blast
qed

lemma New_props:
  "edges (New g m0 now) = Map.empty" "1 \<le> quorum (New g m0 now)"
  "readyAt (New g m0 now) = now + startupGrace m0" "selfID (New g m0 now) = selfID m0"
  by (auto simp: New_def Let_def)

text \<open>
  C7: No failover without evidence. Whatever sequence of signals and ticks a monitor built by
  \<open>New\<close> has seen, a tick fires failover for an edge only if (a) the startup grace is over and at
  least \<open>quorum\<close> coverers' last word on it is "down", or (b) the agent's last health report
  says its data plane is dead, corroborated by the canary unless the fault is one the agent
  determines itself, or (c) the agent had reported and has been silent longer than the grace.
  One coverer's vote short of the quorum, one soft signal, or silence of an edge that never
  reported is never enough.
\<close>

theorem failover_requires_evidence:
  assumes "run (New g m0 t0) ops = (m, evs)"
    and "exec m now (OTick order sorder) = (m', evs')" "OnFailover e \<in> set evs'"
  shows "(t0 + startupGrace m0 \<le> now \<and>
            quorum (New g m0 t0) \<le> int (card {c. latched (says_down (localVoteKey m0) e c)
               (says_up (localVoteKey m0) e c) (map snd ops)}))
    \<or> (latched (health_on e) (health_off e) (map snd ops) \<and>
         (latched (canary_on e) (canary_off e) (map snd ops) \<or>
          faultKind (the (edges m e)) \<in> {FaultVPPGone, FaultLinkDown, FaultForwardingBroken}))
    \<or> (latched ((=) (OHeartbeat e)) ((=) (OForget e)) (map snd ops) \<and>
         grace m < now - lastSeen (the (edges m e)))"
proof -
  let ?m = "New g m0 t0"
  have m: "fst (run ?m ops) = m" using assms(1) by simp
  note sig = run_signals [OF New_props(1) [of g m0 t0], of ops e, unfolded m]
  have key: "localVoteKey ?m = localVoteKey m0" by (simp add: localVoteKey_def New_props)
  have cfg: "quorum m = quorum ?m" "readyAt m = t0 + startupGrace m0"
    using run_config [of ?m ops] by (simp_all add: m New_props)
  have "verdict m now e \<noteq> None"
    using assms(2,3) Tick_events_failover [of e m now order sorder]
    by (auto simp: exec_def split: prod.splits)
  then obtain s where s: "edges m e = Some s"
      "hard_fires m now s \<or> soft_fires m now s \<or> stale_fires m now e s"
    by (auto simp: verdict_alt split: option.splits if_splits)
  have at: "votes_at m e = hardVotes s" "canary_at m e = canaryDown s"
    "health_at m e = healthDead s" "reported_at m e = everReported s"
    using s(1) by (simp_all add: at_defs)
  have hard: "t0 + startupGrace m0 \<le> now \<and> quorum ?m \<le> int (card (votes_at m e))"
    if "hard_fires m now s"
    using that by (simp add: hard_fires_def hardDead_def ready_def cfg at)
  have soft: "health_at m e \<and> (canary_at m e \<or>
      faultKind s \<in> {FaultVPPGone, FaultLinkDown, FaultForwardingBroken})"
    if "soft_fires m now s"
    using that by (auto simp: soft_fires_def dataDead_def softDead_def at split: faultKind.splits)
  have stale: "reported_at m e \<and> grace m < now - lastSeen s" if "stale_fires m now e s"
    using that by (simp add: stale_fires_def stale_now_def at)
  show ?thesis
    using s(2) hard soft stale unfolding sig [unfolded key, THEN conjunct1]
      sig [THEN conjunct2, THEN conjunct1] sig [THEN conjunct2, THEN conjunct2, THEN conjunct1]
      sig [THEN conjunct2, THEN conjunct2, THEN conjunct2] s(1) option.sel
    by blast
qed

section \<open>One failover per death\<close>

definition failed_at :: "monitor \<Rightarrow> edge_id \<Rightarrow> bool" where
  "failed_at m e = (case edges m e of None \<Rightarrow> False | Some s \<Rightarrow> failed s)"

lemma failed_put: "failed_at (put m e' s) e = (if e = e' then failed s else failed_at m e)"
  by (simp add: failed_at_def)

lemma failed_get: "failed (get m now e) = failed_at m e"
  by (auto simp: get_def failed_at_def fresh_state_def split: option.splits)

lemma failed_exec:
  assumes "failed_at m e" "exec m now op = (m', ev)" "onRevive_set m"
    "OnRevive e \<notin> set ev" "op \<noteq> OForget e"
  shows "failed_at m' e \<and> OnFailover e \<notin> set ev"
proof (cases op)
  case (OTick o1 o2)
  have m': "fst (Tick m now o1 o2) = m'" and ev: "snd (snd (Tick m now o1 o2)) = ev"
    using assms(2) OTick by (auto simp: exec_def split: prod.splits)
  have "failed_at m' e"
    using assms(1) Tick_edges [of m now o1 o2 e] by (auto simp: failed_at_def m' tick_state_def split: option.splits)
  moreover have "verdict m now e = None"
    using assms(1) by (auto simp: failed_at_def verdict_def split: option.splits)
  ultimately show ?thesis using Tick_events_failover [of e m now o1 o2] by (simp add: ev)
qed (use assms in \<open>auto simp: op_defs failed_put failed_get split: if_splits,
     (auto simp: failed_at_def Forget_def)?\<close>)

text \<open>
  C11: An edge that has been failed over is not failed over again until it is revived: in any
  sequence of operations that neither fires its revival nor forgets it, no second failover of
  that edge fires.
\<close>

theorem no_second_failover_before_revival:
  assumes "failed_at m e" "onRevive_set m" "run m ops = (m', evs)"
    "OnRevive e \<notin> set evs" "OForget e \<notin> snd ` set ops"
  shows "failed_at m' e \<and> OnFailover e \<notin> set evs"
  using assms
proof (induction ops arbitrary: m evs)
  case (Cons x ops)
  obtain now op where x: "x = (now, op)" by (cases x)
  obtain m1 ev1 where e1: "exec m now op = (m1, ev1)" by (cases "exec m now op")
  obtain ev2 where e2: "run m1 ops = (m', ev2)" "evs = ev1 @ ev2"
    using Cons.prems(3) by (auto simp: x e1 split: prod.splits)
  have "failed_at m1 e \<and> OnFailover e \<notin> set ev1"
    using failed_exec [OF Cons.prems(1) e1 Cons.prems(2)] Cons.prems(4,5) by (auto simp: x e2)
  moreover have "onRevive_set m1" using exec_config(4) [of m now op] Cons.prems(2) by (simp add: e1)
  ultimately show ?case using Cons.IH [OF _ _ e2(1)] Cons.prems(4,5) by (auto simp: x e2)
qed simp

section \<open>The hard hold-down across a revival\<close>

text \<open>
  \<open>Alive\<close> clears the votes and the soft debounce of a revived edge but not \<open>hardSince\<close>, and
  \<open>Tick\<close> does not visit failed edges, so the time stamp of the previous death survives. A
  revived edge whose quorum is reached again before a clean tick is therefore failed over at
  once, although the hold-down asks the quorum to persist for \<open>hardDebounce\<close>.
\<close>

theorem revived_edge_skips_hold_down:
  assumes "edges m e = Some s" "failed s" "hardSince s = Some t"
    and "0 < hardDebounce m" "hardDebounce m \<le> now - t" "readyAt m \<le> now" "quorum m = 1"
  shows "(let m1 = fst (Alive m now e);
              m2 = HardDown m1 now e
          in votes_at m1 e = {} \<and> verdict m2 now e = Some HardQuorum)"
proof -
  let ?m2 = "HardDown (fst (Alive m now e)) now e"
  have m1: "edges (fst (Alive m now e)) e = Some (s\<lparr>lastSeen := now, hardVotes := {},
      canaryDown := False, healthDead := False, faultKind := FaultNone, softSince := None, failed := False\<rparr>)"
    using assms(1) by (simp add: Alive_def Let_def get_def)
  then have "edges ?m2 e = Some (s\<lparr>lastSeen := now, hardVotes := {localVoteKey m},
      canaryDown := False, healthDead := False, faultKind := FaultNone, softSince := None, failed := False\<rparr>)"
    by (simp add: HardDown_def Let_def get_def localVoteKey_def Alive_def put_def)
  moreover have "hardDebounce ?m2 = hardDebounce m" "readyAt ?m2 = readyAt m" "quorum ?m2 = quorum m"
    by (simp_all add: HardDown_def Let_def Alive_def put_def)
  ultimately show ?thesis
    using assms m1
    by (simp add: Let_def votes_at_def verdict_alt hard_fires_def hardDead_def ready_def held_def)
qed

section \<open>Concrete runs\<close>

definition demo_cfg :: monitor where
  "demo_cfg = \<lparr>grace = 0, softDebounce = 0, hardDebounce = 3, restartGrace = 0, startupGrace = 0,
     readyAt = 0, quorum = 1, selfID = ''c1'', edges = Map.empty, onRevive_set = True,
     reporting = None, meteringStale_set = False, onDeath_set = True\<rparr>"

definition demo_ops :: "(gtime \<times> live_op) list" where
  "demo_ops = [(10, OHardDown ''e1''), (11, OTick [''e1''] [''e1'']), (15, OTick [''e1''] [''e1''])]"

lemmas live_eval = New_def demo_cfg_def demo_ops_def Let_def exec_def HardDown_def Tick_def get_def
  put_def fresh_state_def localVoteKey_def verdict_def tick_edge_def tick_state_def stale_now_def
  hold_down_def dataDead_def softDead_def hardDead_def ready_def debounceFor_def

lemma demo_run:
  "run (New 0 demo_cfg 5) demo_ops = (m, evs) \<Longrightarrow>
     failed_at m ''e1'' \<and> onRevive_set m \<and> evs = [OnDeath ''e1'' HardQuorum, OnFailover ''e1'']
     \<and> map_option hardSince (edges m ''e1'') = Some (Some 11) \<and> hardDebounce m = 3
     \<and> readyAt m = 5 \<and> quorum m = 1"
  by (auto simp: live_eval failed_at_def)


theorem failover_requires_evidence_witness:
  "5 \<le> (15::int) \<and> (1::int) \<le> int (card {c. latched (says_down ''c1'' ''e1'' c) (says_up ''c1'' ''e1'' c)
       (map snd (take 2 demo_ops))})"
proof -
  let ?r = "run (New 0 demo_cfg 5) (take 2 demo_ops)"
  obtain m evs where r: "?r = (m, evs)" by (cases ?r)
  obtain m' evs' where x: "exec m 15 (OTick [''e1''] [''e1'']) = (m', evs')"
    by (cases "exec m 15 (OTick [''e1''] [''e1''])")
  have "OnFailover ''e1'' \<in> set evs'"
    using r x by (auto simp: live_eval split: if_splits)
  from failover_requires_evidence [OF r x this]
  have "(5 \<le> (15::int) \<and> 1 \<le> int (card {c. latched (says_down ''c1'' ''e1'' c) (says_up ''c1'' ''e1'' c)
       (map snd (take 2 demo_ops))}))
    \<or> latched (health_on ''e1'') (health_off ''e1'') (map snd (take 2 demo_ops))
    \<or> latched ((=) (OHeartbeat ''e1'')) ((=) (OForget ''e1'')) (map snd (take 2 demo_ops))"
    by (auto simp: New_def demo_cfg_def localVoteKey_def Let_def)
  moreover have "\<not> latched (health_on ''e1'') off (map snd (take 2 demo_ops))"
    "\<not> latched ((=) (OHeartbeat ''e1'')) off (map snd (take 2 demo_ops))" for off
    unfolding latched_def demo_ops_def health_on_def
    by (auto simp: Cons_eq_append_conv)
  ultimately show ?thesis by blast
qed

theorem no_second_failover_before_revival_witness:
  "let m = fst (run (New 0 demo_cfg 5) demo_ops)
   in OnFailover ''e1'' \<notin> set (snd (run m [(16, OHardDown ''e1''), (30, OTick [''e1''] [''e1''])]))"
proof -
  let ?m = "fst (run (New 0 demo_cfg 5) demo_ops)"
  obtain evs0 where "run (New 0 demo_cfg 5) demo_ops = (?m, evs0)"
    by (cases "run (New 0 demo_cfg 5) demo_ops") auto
  from demo_run [OF this] have f: "failed_at ?m ''e1''" "onRevive_set ?m" by auto
  obtain m' evs where r: "run ?m [(16, OHardDown ''e1''), (30, OTick [''e1''] [''e1''])] = (m', evs)"
    by (cases "run ?m [(16, OHardDown ''e1''), (30, OTick [''e1''] [''e1''])]")
  have "OnRevive ''e1'' \<notin> set evs"
    using r by (auto simp: exec_def Tick_def Let_def split: prod.splits if_splits)
  then have "OnFailover ''e1'' \<notin> set evs"
    using no_second_failover_before_revival [OF f r] by simp
  then show ?thesis unfolding Let_def r by simp
qed

theorem revived_edge_skips_hold_down_witness:
  "let m = fst (run (New 0 demo_cfg 5) demo_ops);
       m1 = fst (Alive m 100 ''e1'');
       m2 = HardDown m1 100 ''e1''
   in votes_at m1 ''e1'' = {} \<and> verdict m2 100 ''e1'' = Some HardQuorum"
proof -
  let ?m = "fst (run (New 0 demo_cfg 5) demo_ops)"
  obtain evs0 where "run (New 0 demo_cfg 5) demo_ops = (?m, evs0)"
    by (cases "run (New 0 demo_cfg 5) demo_ops") auto
  note d = demo_run [OF this]
  then obtain s where "edges ?m ''e1'' = Some s" "failed s" "hardSince s = Some 11"
    by (auto simp: failed_at_def split: option.splits)
  from revived_edge_skips_hold_down [OF this, of 100] d show ?thesis by (simp add: Let_def)
qed

end
