(* ===== verification/Netip.thy ===== *)
theory Netip
  imports Prelude
begin

text \<open>
  What the source uses of Go's \<open>net/netip\<close>: addresses and prefixes, \<open>String\<close>, the address
  order, \<open>Masked\<close> and \<open>Overlaps\<close>. The lemmas give \<open>Overlaps\<close> its meaning (two prefixes of one
  family share an address) and the order its linorder instance.
\<close>

unbundle bit_operations_syntax

section \<open>Addresses\<close>

text \<open>The zero \<open>Addr\<close>, an IPv4 and an IPv6 address (zones never occur in a prefix).\<close>

datatype addr = AddrInvalid | V4 "32 word" | V6 "128 word"

fun Is4 :: "addr \<Rightarrow> bool" where
  "Is4 (V4 _) = True"
| "Is4 _ = False"

fun Is6 :: "addr \<Rightarrow> bool" where
  "Is6 (V6 _) = True"
| "Is6 _ = False"

fun BitLen :: "addr \<Rightarrow> int" where
  "BitLen AddrInvalid = 0"
| "BitLen (V4 _) = 32"
| "BitLen (V6 _) = 128"

definition addr_IsValid :: "addr \<Rightarrow> bool" where
  "addr_IsValid a \<longleftrightarrow> a \<noteq> AddrInvalid"

fun addr_num :: "addr \<Rightarrow> int" where
  "addr_num AddrInvalid = 0"
| "addr_num (V4 w) = uint w"
| "addr_num (V6 w) = uint w"

text \<open>\<open>Addr.Compare\<close>: by bit length, then numerically.\<close>

instantiation addr :: linorder
begin

definition less_eq_addr :: "addr \<Rightarrow> addr \<Rightarrow> bool" where
  "a \<le> b \<longleftrightarrow> (BitLen a, addr_num a) \<le> (BitLen b, addr_num b)"

definition less_addr :: "addr \<Rightarrow> addr \<Rightarrow> bool" where
  "a < b \<longleftrightarrow> (BitLen a, addr_num a) < (BitLen b, addr_num b)"

instance
proof
  fix x y z :: addr
  show "(x < y) = (x \<le> y \<and> \<not> y \<le> x)" by (auto simp: less_eq_addr_def less_addr_def)
  show "x \<le> x" by (simp add: less_eq_addr_def)
  show "x \<le> y \<Longrightarrow> y \<le> z \<Longrightarrow> x \<le> z" by (auto simp: less_eq_addr_def)
  show "x \<le> y \<or> y \<le> x" by (auto simp: less_eq_addr_def)
  show "x \<le> y \<Longrightarrow> y \<le> x \<Longrightarrow> x = y"
    by (cases x; cases y) (auto simp: less_eq_addr_def intro: word_uint_eqI)
qed

end

section \<open>Prefixes\<close>

text \<open>\<open>Bits()\<close> is \<open>-1\<close> for an invalid prefix.\<close>

record pfx =
  pAddr :: addr
  pBits :: int

definition pfx_IsValid :: "pfx \<Rightarrow> bool" where
  "pfx_IsValid p \<longleftrightarrow> pAddr p \<noteq> AddrInvalid \<and> 0 \<le> pBits p \<and> pBits p \<le> BitLen (pAddr p)"

definition PrefixFrom :: "addr \<Rightarrow> int \<Rightarrow> pfx" where
  "PrefixFrom a b = (if a \<noteq> AddrInvalid \<and> 0 \<le> b \<and> b \<le> BitLen a
     then \<lparr>pAddr = a, pBits = b\<rparr> else \<lparr>pAddr = a, pBits = -1\<rparr>)"

text \<open>Keep the top \<open>b\<close> bits.\<close>

definition keep_top :: "int \<Rightarrow> 'a::len word \<Rightarrow> 'a word" where
  "keep_top b w = push_bit (LENGTH('a) - nat b) (drop_bit (LENGTH('a) - nat b) w)"

fun mask_addr :: "int \<Rightarrow> addr \<Rightarrow> addr" where
  "mask_addr b AddrInvalid = AddrInvalid"
| "mask_addr b (V4 w) = V4 (keep_top b w)"
| "mask_addr b (V6 w) = V6 (keep_top b w)"

definition Masked :: "pfx \<Rightarrow> pfx" where
  "Masked p = (if pfx_IsValid p then p\<lparr>pAddr := mask_addr (pBits p) (pAddr p)\<rparr>
     else \<lparr>pAddr = AddrInvalid, pBits = -1\<rparr>)"

definition Overlaps :: "pfx \<Rightarrow> pfx \<Rightarrow> bool" where
  "Overlaps p q =
     (if \<not> pfx_IsValid p \<or> \<not> pfx_IsValid q then False
      else if p = q then True
      else if Is4 (pAddr p) \<noteq> Is4 (pAddr q) then False
      else
        let minBits = (if pBits p < pBits q then pBits p else pBits q)
        in if minBits = 0 then True
           else mask_addr minBits (pAddr p) = mask_addr minBits (pAddr q))"

section \<open>Printing\<close>

definition digit_char :: "int \<Rightarrow> char" where
  "digit_char d = ''0123456789abcdef'' ! nat d"

fun digits_rev :: "nat \<Rightarrow> int \<Rightarrow> int \<Rightarrow> string" where
  "digits_rev 0 base n = []"
| "digits_rev (Suc k) base n =
     digit_char (n mod base) # (if n div base = 0 then [] else digits_rev k base (n div base))"

text \<open>Decimal and hexadecimal without leading zeros, for numbers of at most 20 digits.\<close>

definition show_dec :: "int \<Rightarrow> string" where
  "show_dec n = rev (digits_rev 20 10 n)"

definition show_hex :: "int \<Rightarrow> string" where
  "show_hex n = rev (digits_rev 20 16 n)"

definition string4 :: "int \<Rightarrow> string" where
  "string4 n = show_dec (n div 2 ^ 24 mod 256) @ ''.'' @ show_dec (n div 2 ^ 16 mod 256) @ ''.''
     @ show_dec (n div 2 ^ 8 mod 256) @ ''.'' @ show_dec (n mod 256)"

definition v6u16 :: "128 word \<Rightarrow> nat \<Rightarrow> int" where
  "v6u16 w i = uint w div 2 ^ (16 * (7 - i)) mod 2 ^ 16"

text \<open>Length of the run of zero groups starting at group \<open>i\<close>.\<close>

definition zero_run :: "128 word \<Rightarrow> nat \<Rightarrow> nat" where
  "zero_run w i = length (takeWhile (\<lambda>j. v6u16 w j = 0) [i..<8])"

text \<open>The first longest run of at least two zero groups: \<open>(zeroStart, length)\<close>.\<close>

definition longest_zero :: "128 word \<Rightarrow> (nat \<times> nat) option" where
  "longest_zero w = foldl (\<lambda>best i.
     let l = zero_run w i in
     case best of None \<Rightarrow> (if l \<ge> 2 then Some (i, l) else None)
     | Some (s, m) \<Rightarrow> (if l \<ge> 2 \<and> l > m then Some (i, l) else Some (s, m))) None [0..<8]"

fun join_colon :: "string list \<Rightarrow> string" where
  "join_colon [] = []"
| "join_colon [x] = x"
| "join_colon (x # xs) = x @ '':'' @ join_colon xs"

definition string6 :: "128 word \<Rightarrow> string" where
  "string6 w =
     (let hex = (\<lambda>i. show_hex (v6u16 w i)) in
      case longest_zero w of
        None \<Rightarrow> join_colon (map hex [0..<8])
      | Some (s, l) \<Rightarrow> join_colon (map hex [0..<s]) @ ''::'' @ join_colon (map hex [s + l..<8]))"

fun addr_String :: "addr \<Rightarrow> string" where
  "addr_String AddrInvalid = ''invalid IP''"
| "addr_String (V4 w) = string4 (uint w)"
| "addr_String (V6 w) =
     (if uint w div 2 ^ 32 = 0xffff then ''::ffff:'' @ string4 (uint w mod 2 ^ 32)
      else string6 w)"

definition pfx_String :: "pfx \<Rightarrow> string" where
  "pfx_String p = (if pfx_IsValid p then addr_String (pAddr p) @ ''/'' @ show_dec (pBits p)
     else ''invalid Prefix'')"

section \<open>Overlap is a shared address\<close>

definition addrs_of :: "pfx \<Rightarrow> addr set" where
  "addrs_of p = {a. Is4 a = Is4 (pAddr p) \<and> a \<noteq> AddrInvalid
     \<and> mask_addr (pBits p) a = mask_addr (pBits p) (pAddr p)}"

lemma keep_top_keep_top: "b \<le> c \<Longrightarrow> keep_top b (keep_top c w) = keep_top b w"
  by (rule bit_word_eqI) (auto simp: keep_top_def bit_simps)

lemma mask_addr_mask_addr: "b \<le> c \<Longrightarrow> mask_addr b (mask_addr c a) = mask_addr b a"
  by (cases a) (auto simp: keep_top_keep_top)

lemma mask_addr_mono: "b \<le> c \<Longrightarrow> mask_addr c x = mask_addr c y \<Longrightarrow> mask_addr b x = mask_addr b y"
  by (metis mask_addr_mask_addr)

lemma keep_top_le0: "b \<le> 0 \<Longrightarrow> keep_top b w = 0"
  by (rule bit_word_eqI) (auto simp: keep_top_def bit_simps dest: bit_imp_le_length)

lemma mask_addr_family:
  "x \<noteq> AddrInvalid \<Longrightarrow> y \<noteq> AddrInvalid \<Longrightarrow> Is4 x = Is4 y \<Longrightarrow> b \<le> 0 \<Longrightarrow> mask_addr b x = mask_addr b y"
  by (cases x; cases y) (auto simp: keep_top_le0)

lemma Overlaps_iff:
  assumes "pfx_IsValid p" "pfx_IsValid q"
  shows "Overlaps p q \<longleftrightarrow> Is4 (pAddr p) = Is4 (pAddr q)
    \<and> mask_addr (min (pBits p) (pBits q)) (pAddr p) = mask_addr (min (pBits p) (pBits q)) (pAddr q)"
  using assms mask_addr_family [of "pAddr p" "pAddr q" 0]
  by (auto simp: Overlaps_def Let_def pfx_IsValid_def min_def)

lemma Overlaps_invalid: "\<not> pfx_IsValid p \<or> \<not> pfx_IsValid q \<Longrightarrow> \<not> Overlaps p q"
  by (auto simp: Overlaps_def)

lemma Overlaps_sym: "Overlaps p q = Overlaps q p"
  by (cases "pfx_IsValid p \<and> pfx_IsValid q")
     (auto simp: Overlaps_iff Overlaps_invalid min.commute)

lemma Overlaps_refl: "pfx_IsValid p \<Longrightarrow> Overlaps p p"
  by (simp add: Overlaps_def)

lemma Overlaps_meaning:
  assumes v: "pfx_IsValid p" "pfx_IsValid q"
  shows "Overlaps p q \<longleftrightarrow> addrs_of p \<inter> addrs_of q \<noteq> {}"
proof
  assume o: "Overlaps p q"
  show "addrs_of p \<inter> addrs_of q \<noteq> {}"
  proof (cases "pBits p \<le> pBits q")
    case True
    then have "pAddr q \<in> addrs_of p \<inter> addrs_of q"
      using o v by (auto simp: Overlaps_iff addrs_of_def pfx_IsValid_def min_def)
    then show ?thesis by blast
  next
    case False
    then have "pAddr p \<in> addrs_of p \<inter> addrs_of q"
      using o v by (auto simp: Overlaps_iff addrs_of_def pfx_IsValid_def min_def)
    then show ?thesis by blast
  qed
next
  assume "addrs_of p \<inter> addrs_of q \<noteq> {}"
  then obtain a where a: "a \<in> addrs_of p" "a \<in> addrs_of q" by blast
  let ?m = "min (pBits p) (pBits q)"
  have "mask_addr ?m a = mask_addr ?m (pAddr p)" "mask_addr ?m a = mask_addr ?m (pAddr q)"
    using a by (auto simp: addrs_of_def intro: mask_addr_mono [rotated])
  then show "Overlaps p q" using a v by (auto simp: Overlaps_iff addrs_of_def)
qed

end
