(* ===== verification/Presence.thy ===== *)
theory Presence
  imports Netip
begin

text \<open>
  The member presence map (\<open>internal/server/memberedge.go\<close>): which coverers assert which host
  routes on which edge, each assertion under a lease, and the verdicts the advertise gate and the
  member-up and member-down notifications are drawn from. Go maps are association lists with
  distinct keys, so that the sweep can visit them; the order of its losses is the order of the
  list, where Go leaves it open. Each operation takes one reading of the clock. The operations are
  then compared with a specification that looks only at the history of assertions.
\<close>

section \<open>State and operations\<close>

datatype family = FamilyIPv4 | FamilyIPv6

type_synonym lease_map = "(coverer_id \<times> gtime) list"

record member_fns =
  mf_IsHost :: "pfx \<Rightarrow> bool"
  mf_FamilyOf :: "pfx \<Rightarrow> family"

text \<open>The three nested maps of the source; \<open>viewKey\<close> is a pair.\<close>

record member_presence =
  mp_ttl :: duration
  mp_present :: "(edge_id \<times> (pfx \<times> lease_map) list) list"
  mp_validView :: "((edge_id \<times> family) \<times> lease_map) list"

definition defaultMemberPresenceTTL :: duration where
  "defaultMemberPresenceTTL = 5 * 60 * 1000000000"

definition newMemberPresence :: "duration \<Rightarrow> member_presence" where
  "newMemberPresence ttl = \<lparr>mp_ttl = (if ttl \<le> 0 then defaultMemberPresenceTTL else ttl),
     mp_present = [], mp_validView = []\<rparr>"

definition anyLive :: "lease_map \<Rightarrow> gtime \<Rightarrow> bool" where
  "anyLive covs now = list_ex (\<lambda>(c, dl). dl > now) covs"

definition refreshView :: "member_presence \<Rightarrow> edge_id \<Rightarrow> family \<Rightarrow> coverer_id \<Rightarrow> gtime \<Rightarrow> member_presence" where
  "refreshView mp e fam c deadline =
     mp\<lparr>mp_validView := AList.update (e, fam)
          (AList.update c deadline (get_map (mp_validView mp) (e, fam))) (mp_validView mp)\<rparr>"

definition viewValid :: "member_presence \<Rightarrow> gtime \<Rightarrow> edge_id \<Rightarrow> family \<Rightarrow> bool" where
  "viewValid mp now e fam = anyLive (get_map (mp_validView mp) (e, fam)) now"

definition markPresent ::
  "member_fns \<Rightarrow> member_presence \<Rightarrow> gtime \<Rightarrow> edge_id \<Rightarrow> coverer_id \<Rightarrow> pfx \<Rightarrow> bool \<times> member_presence"
where
  "markPresent fn mp now e c m =
     (let deadline = now + mp_ttl mp;
          byMember = get_map (mp_present mp) e;
          covs = get_map byMember m;
          wasAbsent = (\<not> anyLive covs now);
          mp = mp\<lparr>mp_present := AList.update e (AList.update m (AList.update c deadline covs) byMember)
                                 (mp_present mp)\<rparr>
      in (wasAbsent, refreshView mp e (mf_FamilyOf fn m) c deadline))"

definition markAbsent ::
  "member_fns \<Rightarrow> member_presence \<Rightarrow> gtime \<Rightarrow> edge_id \<Rightarrow> coverer_id \<Rightarrow> pfx \<Rightarrow> bool \<times> member_presence"
where
  "markAbsent fn mp now e c m =
     (case map_of (mp_present mp) e of
        None \<Rightarrow> (False, mp)
      | Some byMember \<Rightarrow>
          let covs = get_map byMember m
          in if \<not> anyLive covs now then (False, mp)
             else
               let covs = AList.delete c covs;
                   byMember = (if covs = [] then AList.delete m byMember else AList.update m covs byMember);
                   mp = mp\<lparr>mp_present := AList.update e byMember (mp_present mp)\<rparr>
               in if anyLive (get_map byMember m) now then (False, mp)
                  else (viewValid mp now e (mf_FamilyOf fn m), mp))"

definition shouldWithdraw :: "member_fns \<Rightarrow> member_presence \<Rightarrow> gtime \<Rightarrow> edge_id \<Rightarrow> pfx \<Rightarrow> bool" where
  "shouldWithdraw fn mp now e m =
     (if \<not> mf_IsHost fn m then False
      else if \<not> viewValid mp now e (mf_FamilyOf fn m) then False
      else \<not> anyLive (get_map (get_map (mp_present mp) e) m) now)"

definition hostsByFamily ::
  "member_fns \<Rightarrow> member_presence \<Rightarrow> gtime \<Rightarrow> edge_id \<Rightarrow> family \<Rightarrow> pfx list option"
where
  "hostsByFamily fn mp now e fam =
     (if \<not> viewValid mp now e fam then None
      else Some (map fst (filter (\<lambda>(m, covs). mf_FamilyOf fn m = fam \<and> anyLive covs now)
                            (get_map (mp_present mp) e))))"

text \<open>The sweep: the members of one edge, the edges, then the views.\<close>

definition reap :: "gtime \<Rightarrow> lease_map \<Rightarrow> lease_map" where
  "reap now covs = filter (\<lambda>(c, dl). dl > now) covs"

fun sweep_members ::
  "(pfx \<Rightarrow> bool) \<Rightarrow> gtime \<Rightarrow> (pfx \<times> lease_map) list \<Rightarrow> (pfx \<times> lease_map) list \<times> pfx list"
where
  "sweep_members valid now [] = ([], [])"
| "sweep_members valid now ((m, covs) # rest) =
     (let had = (covs \<noteq> []);
          covs = reap now covs;
          (kept, losses) = sweep_members valid now rest
      in (if covs = [] then kept else (m, covs) # kept,
          if had \<and> \<not> anyLive covs now \<and> valid m then m # losses else losses))"

fun sweep_edges ::
  "(edge_id \<Rightarrow> pfx \<Rightarrow> bool) \<Rightarrow> gtime \<Rightarrow> (edge_id \<times> (pfx \<times> lease_map) list) list \<Rightarrow>
   (edge_id \<times> (pfx \<times> lease_map) list) list \<times> (edge_id \<times> pfx) list"
where
  "sweep_edges valid now [] = ([], [])"
| "sweep_edges valid now ((e, byMember) # rest) =
     (let (byMember, losses) = sweep_members (valid e) now byMember;
          (kept, more) = sweep_edges valid now rest
      in (if byMember = [] then kept else (e, byMember) # kept, map (Pair e) losses @ more))"

fun sweep_views ::
  "gtime \<Rightarrow> ((edge_id \<times> family) \<times> lease_map) list \<Rightarrow> ((edge_id \<times> family) \<times> lease_map) list"
where
  "sweep_views now [] = []"
| "sweep_views now ((k, cv) # rest) =
     (let cv = reap now cv in if cv = [] then sweep_views now rest else (k, cv) # sweep_views now rest)"

definition sweepExpired ::
  "member_fns \<Rightarrow> member_presence \<Rightarrow> gtime \<Rightarrow> (edge_id \<times> pfx) list \<times> member_presence"
where
  "sweepExpired fn mp now =
     (let (kept, losses) = sweep_edges (\<lambda>e m. viewValid mp now e (mf_FamilyOf fn m)) now (mp_present mp)
      in (losses, mp\<lparr>mp_present := kept, mp_validView := sweep_views now (mp_validView mp)\<rparr>))"

section \<open>What the history says\<close>

text \<open>
  The operations as data, each with its clock reading. A lease is what the last word of a coverer
  about a member leaves: none, or a deadline.
\<close>

datatype presence_op =
    Assert gtime edge_id coverer_id pfx
  | Retract gtime edge_id coverer_id pfx
  | Sweep gtime

primrec op_time :: "presence_op \<Rightarrow> gtime" where
  "op_time (Assert t e c m) = t"
| "op_time (Retract t e c m) = t"
| "op_time (Sweep t) = t"

primrec apply_op :: "member_fns \<Rightarrow> presence_op \<Rightarrow> member_presence \<Rightarrow> member_presence" where
  "apply_op fn (Assert t e c m) mp = snd (markPresent fn mp t e c m)"
| "apply_op fn (Retract t e c m) mp = snd (markAbsent fn mp t e c m)"
| "apply_op fn (Sweep t) mp = snd (sweepExpired fn mp t)"

definition run_presence :: "member_fns \<Rightarrow> presence_op list \<Rightarrow> member_presence \<Rightarrow> member_presence" where
  "run_presence fn h mp = fold (apply_op fn) h mp"

text \<open>\<open>asserted ttl h now e m\<close>: some coverer's last word about \<open>m\<close> on \<open>e\<close> asserts it, less than \<open>ttl\<close> ago.\<close>

definition about :: "edge_id \<Rightarrow> coverer_id \<Rightarrow> pfx \<Rightarrow> presence_op \<Rightarrow> bool" where
  "about e c m op = (case op of Assert _ e' c' m' \<Rightarrow> (e', c', m') = (e, c, m)
                              | Retract _ e' c' m' \<Rightarrow> (e', c', m') = (e, c, m)
                              | Sweep _ \<Rightarrow> False)"

definition last_word :: "presence_op list \<Rightarrow> edge_id \<Rightarrow> coverer_id \<Rightarrow> pfx \<Rightarrow> presence_op option" where
  "last_word h e c m = find (about e c m) (rev h)"

definition asserted :: "duration \<Rightarrow> presence_op list \<Rightarrow> gtime \<Rightarrow> edge_id \<Rightarrow> pfx \<Rightarrow> bool" where
  "asserted ttl h now e m \<longleftrightarrow> (\<exists>c t. last_word h e c m = Some (Assert t e c m) \<and> now < t + ttl)"

text \<open>\<open>seen\<close>: some assertion about the edge and family is less than \<open>ttl\<close> old, retracted or not.\<close>

definition seen :: "member_fns \<Rightarrow> duration \<Rightarrow> presence_op list \<Rightarrow> gtime \<Rightarrow> edge_id \<Rightarrow> family \<Rightarrow> bool" where
  "seen fn ttl h now e fam \<longleftrightarrow>
     (\<exists>t c m. Assert t e c m \<in> set h \<and> mf_FamilyOf fn m = fam \<and> now < t + ttl)"

section \<open>Leases\<close>

text \<open>A lookup cut at the clock: what a lease is worth now.\<close>

definition unexpired :: "gtime \<Rightarrow> gtime option \<Rightarrow> gtime option" where
  "unexpired now l = (case l of None \<Rightarrow> None | Some dl \<Rightarrow> if dl > now then Some dl else None)"

lemma unexpired_simps [simp]:
  "unexpired now None = None"
  "unexpired now (Some dl) = (if dl > now then Some dl else None)"
  by (simp_all add: unexpired_def)

lemma unexpired_mono:
  assumes "unexpired now x = unexpired now y" "now \<le> now'"
  shows "unexpired now' x = unexpired now' y"
  using assms by (cases x; cases y) (auto split: if_splits)

lemma anyLive_iff:
  assumes "map_ok covs"
  shows "anyLive covs now \<longleftrightarrow> (\<exists>c. unexpired now (map_of covs c) \<noteq> None)"
proof
  assume "anyLive covs now"
  then obtain c dl where "(c, dl) \<in> set covs" "dl > now" by (auto simp: anyLive_def list_ex_iff)
  then have "unexpired now (map_of covs c) \<noteq> None" using assms by simp
  then show "\<exists>c. unexpired now (map_of covs c) \<noteq> None" ..
next
  assume "\<exists>c. unexpired now (map_of covs c) \<noteq> None"
  then obtain c dl where "map_of covs c = Some dl" "dl > now"
    by (auto simp: unexpired_def split: option.splits if_splits)
  then show "anyLive covs now"
    by (auto simp: anyLive_def list_ex_iff dest: map_of_SomeD)
qed

lemma anyLive_Nil [simp]: "\<not> anyLive [] now"
  by (simp add: anyLive_def)

lemma keys_reap [simp]: "map_ok covs \<Longrightarrow> map_ok (reap now covs)"
  by (simp add: reap_def distinct_map_filter)

lemma unexpired_reap:
  assumes "map_ok covs"
  shows "unexpired now (map_of (reap now covs) c) = unexpired now (map_of covs c)"
  using assms
proof (induction covs)
  case (Cons x covs)
  obtain c' dl where x: "x = (c', dl)" by (cases x)
  have "map_of covs c' = None" using Cons.prems x by (auto simp: map_of_eq_None_iff)
  moreover have "map_of (reap now covs) c' = None"
    using Cons.prems x by (auto simp: map_of_eq_None_iff reap_def)
  ultimately show ?case using Cons x by (auto simp: reap_def)
qed (simp add: reap_def)

lemma reap_Nil_iff: "reap now covs = [] \<longleftrightarrow> \<not> anyLive covs now"
  by (auto simp: reap_def anyLive_def list_ex_iff filter_empty_conv)

definition lease_of :: "member_presence \<Rightarrow> edge_id \<Rightarrow> pfx \<Rightarrow> coverer_id \<Rightarrow> gtime option" where
  "lease_of mp e m c = map_of (get_map (get_map (mp_present mp) e) m) c"

definition view_of :: "member_presence \<Rightarrow> edge_id \<Rightarrow> family \<Rightarrow> coverer_id \<Rightarrow> gtime option" where
  "view_of mp e fam c = map_of (get_map (mp_validView mp) (e, fam)) c"

text \<open>Keys are distinct at every level.\<close>

definition leases_ok :: "('k \<times> lease_map) list \<Rightarrow> bool" where
  "leases_ok al \<longleftrightarrow> map_ok al \<and> (\<forall>(k, covs) \<in> set al. map_ok covs)"

definition presence_ok :: "member_presence \<Rightarrow> bool" where
  "presence_ok mp \<longleftrightarrow> map_ok (mp_present mp) \<and> (\<forall>(e, b) \<in> set (mp_present mp). leases_ok b)
     \<and> leases_ok (mp_validView mp)"

lemma leases_ok_Nil [simp]: "leases_ok []"
  by (simp add: leases_ok_def)

lemma leases_ok_update: "leases_ok al \<Longrightarrow> map_ok covs \<Longrightarrow> leases_ok (AList.update k covs al)"
  unfolding leases_ok_def by (auto simp: distinct_update dest: in_update)

lemma leases_ok_delete: "leases_ok al \<Longrightarrow> leases_ok (AList.delete k al)"
  unfolding leases_ok_def by (auto simp: distinct_delete dest: in_delete)

lemma leases_ok_get: "leases_ok al \<Longrightarrow> map_ok (get_map al k)"
  by (simp add: leases_ok_def keys_get_map)

lemma presence_ok_members: "presence_ok mp \<Longrightarrow> leases_ok (get_map (mp_present mp) e)"
  by (auto simp: presence_ok_def get_map_def split: option.splits dest: map_of_SomeD)

lemma presence_ok_present:
  assumes "presence_ok mp" "leases_ok b"
  shows "presence_ok (mp\<lparr>mp_present := AList.update e b (mp_present mp)\<rparr>)"
  using assms unfolding presence_ok_def by (auto simp: distinct_update dest: in_update)

lemma presence_ok_view:
  assumes "presence_ok mp"
  shows "presence_ok (refreshView mp e fam c dl)"
  using assms unfolding presence_ok_def refreshView_def
  by (auto intro!: leases_ok_update simp: distinct_update leases_ok_get)

lemma present_iff:
  assumes "presence_ok mp"
  shows "anyLive (get_map (get_map (mp_present mp) e) m) now
    \<longleftrightarrow> (\<exists>c. unexpired now (lease_of mp e m c) \<noteq> None)"
  unfolding lease_of_def
  by (rule anyLive_iff) (rule leases_ok_get [OF presence_ok_members [OF assms]])

lemma viewValid_iff:
  assumes "presence_ok mp"
  shows "viewValid mp now e fam \<longleftrightarrow> (\<exists>c. unexpired now (view_of mp e fam c) \<noteq> None)"
  unfolding view_of_def viewValid_def
  using assms by (intro anyLive_iff leases_ok_get) (simp add: presence_ok_def)

section \<open>Effect of the operations on leases\<close>

lemma markPresent_leases:
  fixes mp mp' :: member_presence
  assumes mp'_def: "mp' = snd (markPresent fn mp t e c m)"
  shows "lease_of mp' e' m' c' = (if (e', m', c') = (e, m, c) then Some (t + mp_ttl mp) else lease_of mp e' m' c')"
    and "view_of mp' e' fam c' = (if (e', fam, c') = (e, mf_FamilyOf fn m, c) then Some (t + mp_ttl mp)
                                  else view_of mp e' fam c')"
    and "mp_ttl mp' = mp_ttl mp"
  unfolding mp'_def
  by (auto simp: markPresent_def refreshView_def lease_of_def view_of_def get_map_update update_conv' Let_def)

lemma markPresent_ok:
  assumes "presence_ok mp"
  shows "presence_ok (snd (markPresent fn mp t e c m))"
  using assms
  by (auto simp: markPresent_def Let_def
           intro!: presence_ok_view presence_ok_present leases_ok_update presence_ok_members leases_ok_get distinct_update)

lemma markAbsent_leases:
  fixes mp mp' :: member_presence
  assumes ok: "presence_ok mp"
    and mp'_def: "mp' = snd (markAbsent fn mp t e c m)"
  shows "unexpired t (lease_of mp' e' m' c') =
      (if (e', m', c') = (e, m, c) then None else unexpired t (lease_of mp e' m' c'))"
    and "view_of mp' e' fam c' = view_of mp e' fam c'"
    and "mp_ttl mp' = mp_ttl mp"
proof -
  show "view_of mp' e' fam c' = view_of mp e' fam c'" "mp_ttl mp' = mp_ttl mp"
    by (auto simp: mp'_def markAbsent_def view_of_def Let_def split: option.splits)
  have stale: "unexpired t (lease_of mp e m c) = None" if "\<not> anyLive (get_map (get_map (mp_present mp) e) m) t"
    using that present_iff [OF ok] by auto
  show "unexpired t (lease_of mp' e' m' c') =
      (if (e', m', c') = (e, m, c) then None else unexpired t (lease_of mp e' m' c'))"
  proof (cases "map_of (mp_present mp) e")
    case None
    then have "get_map (mp_present mp) e = []" by (simp add: get_map_def)
    then show ?thesis using None stale by (auto simp: mp'_def markAbsent_def)
  next
    case (Some b)
    then have b: "get_map (mp_present mp) e = b" by (simp add: get_map_def)
    show ?thesis
    proof (cases "anyLive (get_map b m) t")
      case False
      then show ?thesis using Some stale b by (auto simp: mp'_def markAbsent_def Let_def)
    next
      case True
      have "map_of (get_map (if AList.delete c (get_map b m) = [] then AList.delete m b
                else AList.update m (AList.delete c (get_map b m)) b) m') c' =
            (if (m', c') = (m, c) then None else map_of (get_map b m') c')"
        by (auto simp: get_map_update get_map_delete delete_conv' dest!: arg_cong [where f = map_of])
           (metis delete_conv' fun_upd_other map_of.simps(1))
      then show ?thesis using Some True b
        by (auto simp: mp'_def markAbsent_def Let_def lease_of_def get_map_update)
    qed
  qed
qed

lemma markAbsent_ok:
  assumes "presence_ok mp"
  shows "presence_ok (snd (markAbsent fn mp t e c m))"
proof (cases "map_of (mp_present mp) e")
  case None
  then show ?thesis using assms by (simp add: markAbsent_def)
next
  case (Some b)
  then have "leases_ok b" using presence_ok_members [OF assms, of e] by (simp add: get_map_def)
  then show ?thesis using Some assms
    by (auto simp: markAbsent_def Let_def
             intro!: presence_ok_present leases_ok_update leases_ok_delete distinct_delete leases_ok_get)
qed

lemma reap_Nil [simp]: "reap now [] = []"
  by (simp add: reap_def)

lemma anyLive_reap [simp]: "anyLive (reap now covs) now = anyLive covs now"
  by (auto simp: anyLive_def reap_def list_ex_iff)

lemma sweep_members_keys: "fst ` set (fst (sweep_members v now b)) \<subseteq> fst ` set b"
  by (induction b) (force simp: Let_def split: prod.splits if_splits)+

lemma sweep_members_get:
  assumes "map_ok b"
  shows "get_map (fst (sweep_members v now b)) m = reap now (get_map b m)"
  using assms
proof (induction v now b rule: sweep_members.induct)
  case (2 valid now m' covs rest)
  have "get_map (fst (sweep_members valid now rest)) m' = []"
    using "2.prems" sweep_members_keys [of valid now rest] by (intro get_map_fresh) auto
  then show ?case using 2 by (auto simp: get_map_Cons Let_def split: prod.splits)
qed simp

lemma sweep_members_ok:
  assumes "leases_ok b"
  shows "leases_ok (fst (sweep_members v now b))"
  using assms
proof (induction v now b rule: sweep_members.induct)
  case (2 valid now m covs rest)
  then have "leases_ok (fst (sweep_members valid now rest))" "map_ok covs"
    "m \<notin> fst ` set (fst (sweep_members valid now rest))"
    using sweep_members_keys [of valid now rest] by (auto simp: leases_ok_def)
  then show ?case by (auto simp: leases_ok_def Let_def split: prod.splits)
qed simp

lemma sweep_members_losses:
  assumes "map_ok b"
  shows "m \<in> set (snd (sweep_members v now b)) \<longleftrightarrow>
    get_map b m \<noteq> [] \<and> \<not> anyLive (get_map b m) now \<and> v m"
  using assms
proof (induction b)
  case (Cons x rest)
  obtain m' covs where x: "x = (m', covs)" by (cases x)
  have "get_map rest m' = []" using Cons.prems x by (intro get_map_fresh) simp
  moreover have "m \<in> set (snd (sweep_members v now rest)) \<longleftrightarrow>
      get_map rest m \<noteq> [] \<and> \<not> anyLive (get_map rest m) now \<and> v m"
    using Cons by simp
  ultimately show ?case using x by (auto simp: get_map_Cons Let_def split: prod.splits)
qed simp

lemma sweep_edges_keys: "fst ` set (fst (sweep_edges v now p)) \<subseteq> fst ` set p"
  by (induction p) (force simp: Let_def split: prod.splits if_splits)+

lemma sweep_edges_get:
  assumes "map_ok p"
  shows "get_map (fst (sweep_edges v now p)) e = fst (sweep_members (v e) now (get_map p e))"
  using assms
proof (induction v now p rule: sweep_edges.induct)
  case (2 valid now e' b rest)
  have "get_map (fst (sweep_edges valid now rest)) e' = []"
    using "2.prems" sweep_edges_keys [of valid now rest] by (intro get_map_fresh) auto
  then show ?case using 2 by (auto simp: get_map_Cons Let_def split: prod.splits)
qed simp

lemma sweep_edges_ok:
  assumes "map_ok p" "\<forall>(e, b) \<in> set p. leases_ok b"
  shows "map_ok (fst (sweep_edges v now p)) \<and> (\<forall>(e, b) \<in> set (fst (sweep_edges v now p)). leases_ok b)"
  using assms
proof (induction p)
  case (Cons x rest)
  obtain e b where x: "x = (e, b)" by (cases x)
  have "leases_ok (fst (sweep_members (v e) now b))" using Cons.prems x by (intro sweep_members_ok) simp
  moreover have "e \<notin> fst ` set (fst (sweep_edges v now rest))"
    using Cons.prems x sweep_edges_keys [of v now rest] by auto
  moreover have "map_ok (fst (sweep_edges v now rest))"
    "\<forall>(e, b) \<in> set (fst (sweep_edges v now rest)). leases_ok b"
    using Cons by auto
  ultimately show ?case using x by (auto simp: Let_def split: prod.splits)
qed simp

lemma sweep_edges_losses:
  assumes "map_ok p" "\<forall>(e, b) \<in> set p. leases_ok b"
  shows "(e, m) \<in> set (snd (sweep_edges v now p)) \<longleftrightarrow>
    get_map (get_map p e) m \<noteq> [] \<and> \<not> anyLive (get_map (get_map p e) m) now \<and> v e m"
  using assms
proof (induction p)
  case (Cons x rest)
  obtain e' b where x: "x = (e', b)" by (cases x)
  have "get_map rest e' = []" using Cons.prems x by (intro get_map_fresh) simp
  moreover have "m \<in> set (snd (sweep_members (v e') now b)) \<longleftrightarrow>
      get_map b m \<noteq> [] \<and> \<not> anyLive (get_map b m) now \<and> v e' m"
    using Cons.prems x by (intro sweep_members_losses) (simp add: leases_ok_def)
  moreover have "(e, m) \<in> set (snd (sweep_edges v now rest)) \<longleftrightarrow>
      get_map (get_map rest e) m \<noteq> [] \<and> \<not> anyLive (get_map (get_map rest e) m) now \<and> v e m"
    using Cons by simp
  ultimately show ?case using x by (auto simp: get_map_Cons Let_def split: prod.splits)
qed simp

lemma sweep_views_keys: "fst ` set (sweep_views now v) \<subseteq> fst ` set v"
  by (induction v) (force simp: Let_def split: prod.splits if_splits)+

lemma sweep_views_get:
  assumes "map_ok v"
  shows "get_map (sweep_views now v) k = reap now (get_map v k)"
  using assms
proof (induction now v rule: sweep_views.induct)
  case (2 now k' cv rest)
  have "get_map (sweep_views now rest) k' = []"
    using "2.prems" sweep_views_keys [of now rest] by (intro get_map_fresh) auto
  then show ?case using 2 by (auto simp: get_map_Cons Let_def)
qed simp

lemma sweep_views_ok:
  assumes "leases_ok v"
  shows "leases_ok (sweep_views now v)"
  using assms
proof (induction v)
  case (Cons x rest)
  obtain k cv where x: "x = (k, cv)" by (cases x)
  have "leases_ok (sweep_views now rest)" "map_ok cv" "k \<notin> fst ` set (sweep_views now rest)"
    using Cons x sweep_views_keys [of now rest] by (auto simp: leases_ok_def)
  then show ?case using x by (auto simp: leases_ok_def Let_def)
qed simp

lemma sweepExpired_leases:
  fixes mp mp' :: member_presence
  assumes ok: "presence_ok mp" and mp': "mp' = snd (sweepExpired fn mp t)"
  shows "unexpired t (lease_of mp' e m c) = unexpired t (lease_of mp e m c)"
    and "unexpired t (view_of mp' e fam c) = unexpired t (view_of mp e fam c)"
    and "mp_ttl mp' = mp_ttl mp" and "presence_ok mp'"
proof -
  have p: "map_ok (mp_present mp)" "\<forall>(e, b) \<in> set (mp_present mp). leases_ok b" "leases_ok (mp_validView mp)"
    using ok by (auto simp: presence_ok_def)
  have pres: "mp_present mp' = fst (sweep_edges (\<lambda>e m. viewValid mp t e (mf_FamilyOf fn m)) t (mp_present mp))"
    and view: "mp_validView mp' = sweep_views t (mp_validView mp)"
    and "mp_ttl mp' = mp_ttl mp"
    by (simp_all add: mp' sweepExpired_def split: prod.splits)
  then show "mp_ttl mp' = mp_ttl mp" by simp
  show "presence_ok mp'"
    using sweep_edges_ok [OF p(1,2)] sweep_views_ok [OF p(3)] by (simp add: presence_ok_def pres view)
  have kb: "map_ok (get_map (mp_present mp) e)"
    using presence_ok_members [OF ok] by (simp add: leases_ok_def)
  have kc: "map_ok (get_map (get_map (mp_present mp) e) m)"
    by (rule leases_ok_get [OF presence_ok_members [OF ok]])
  show "unexpired t (lease_of mp' e m c) = unexpired t (lease_of mp e m c)"
    by (simp add: lease_of_def pres sweep_edges_get [OF p(1)] sweep_members_get [OF kb] unexpired_reap [OF kc])
  have kv: "map_ok (mp_validView mp)" using p(3) by (simp add: leases_ok_def)
  show "unexpired t (view_of mp' e fam c) = unexpired t (view_of mp e fam c)"
    by (simp add: view_of_def view sweep_views_get [OF kv] unexpired_reap [OF leases_ok_get [OF p(3)]])
qed

section \<open>The map agrees with the history\<close>

definition history_ok :: "presence_op list \<Rightarrow> gtime \<Rightarrow> bool" where
  "history_ok h now \<longleftrightarrow> sorted (map op_time h) \<and> (\<forall>op \<in> set h. op_time op \<le> now)"

lemma history_ok_snoc: "history_ok (h @ [op]) now \<longleftrightarrow> history_ok h (op_time op) \<and> op_time op \<le> now"
  by (auto simp: history_ok_def sorted_append)

definition spec_lease :: "duration \<Rightarrow> presence_op list \<Rightarrow> edge_id \<Rightarrow> pfx \<Rightarrow> coverer_id \<Rightarrow> gtime option" where
  "spec_lease ttl h e m c = (case last_word h e c m of Some (Assert t _ _ _) \<Rightarrow> Some (t + ttl) | _ \<Rightarrow> None)"

definition shows_view :: "member_fns \<Rightarrow> edge_id \<Rightarrow> family \<Rightarrow> coverer_id \<Rightarrow> presence_op \<Rightarrow> bool" where
  "shows_view fn e fam c op = (case op of Assert _ e' c' m \<Rightarrow> (e', mf_FamilyOf fn m, c') = (e, fam, c) | _ \<Rightarrow> False)"

definition spec_view ::
  "member_fns \<Rightarrow> duration \<Rightarrow> presence_op list \<Rightarrow> edge_id \<Rightarrow> family \<Rightarrow> coverer_id \<Rightarrow> gtime option" where
  "spec_view fn ttl h e fam c = map_option (\<lambda>op. op_time op + ttl) (find (shows_view fn e fam c) (rev h))"

lemma last_word_snoc: "last_word (h @ [op]) e c m = (if about e c m op then Some op else last_word h e c m)"
  by (simp add: last_word_def)

lemma spec_lease_snoc:
  "spec_lease ttl (h @ [op]) e m c = (if about e c m op
     then (case op of Assert t _ _ _ \<Rightarrow> Some (t + ttl) | _ \<Rightarrow> None) else spec_lease ttl h e m c)"
  by (simp add: spec_lease_def last_word_snoc)

lemma spec_view_snoc:
  "spec_view fn ttl (h @ [op]) e fam c =
     (if shows_view fn e fam c op then Some (op_time op + ttl) else spec_view fn ttl h e fam c)"
  by (simp add: spec_view_def)

lemma asserted_iff: "asserted ttl h now e m \<longleftrightarrow> (\<exists>c. unexpired now (spec_lease ttl h e m c) \<noteq> None)"
proof -
  have "last_word h e c m = Some op \<Longrightarrow> about e c m op" for c op
    by (auto simp: last_word_def find_Some_iff)
  then have "last_word h e c m = Some (Assert t e' c' m') \<Longrightarrow> e' = e \<and> c' = c \<and> m' = m" for c t e' c' m'
    by (fastforce simp: about_def)
  then show ?thesis
    by (fastforce simp: asserted_def spec_lease_def unexpired_def
      split: option.splits presence_op.splits if_splits)
qed

lemma spec_view_seen:
  assumes "sorted (map op_time h)"
  shows "seen fn ttl h now e fam \<longleftrightarrow> (\<exists>c. unexpired now (spec_view fn ttl h e fam c) \<noteq> None)"
  using assms
proof (induction h rule: rev_induct)
  case Nil
  then show ?case by (simp add: seen_def spec_view_def)
next
  case (snoc op h)
  have IH: "seen fn ttl h now e fam \<longleftrightarrow> (\<exists>c. unexpired now (spec_view fn ttl h e fam c) \<noteq> None)"
    using snoc by (simp add: sorted_append)
  have late: "dl \<le> op_time op + ttl" if v: "spec_view fn ttl h e fam c = Some dl" for c dl
  proof -
    obtain op' where op': "find (shows_view fn e fam c) (rev h) = Some op'" "dl = op_time op' + ttl"
      using v unfolding spec_view_def by auto
    then have "\<exists>i < length (rev h). rev h ! i = op'" by (auto simp: find_Some_iff)
    then have "op' \<in> set h" by (metis nth_mem set_rev)
    then show ?thesis using op'(2) snoc.prems by (auto simp: sorted_append)
  qed
  show ?case
  proof (cases "\<exists>c. shows_view fn e fam c op")
    case True
    then obtain t c m where op: "op = Assert t e c m" "mf_FamilyOf fn m = fam"
      by (cases op) (auto simp: shows_view_def)
    have "seen fn ttl (h @ [op]) now e fam \<longleftrightarrow> now < t + ttl \<or> seen fn ttl h now e fam"
      using op by (auto simp: seen_def)
    moreover have "(\<exists>c. unexpired now (spec_view fn ttl (h @ [op]) e fam c) \<noteq> None)
        \<longleftrightarrow> now < t + ttl \<or> (\<exists>c. unexpired now (spec_view fn ttl h e fam c) \<noteq> None)"
    proof -
      have view: "spec_view fn ttl (h @ [op]) e fam c' =
          (if c' = c then Some (t + ttl) else spec_view fn ttl h e fam c')" for c'
        using op by (auto simp: spec_view_snoc shows_view_def)
      have "now < t + ttl" if live: "unexpired now (spec_view fn ttl h e fam c) \<noteq> None"
      proof -
        obtain dl where dl: "spec_view fn ttl h e fam c = Some dl" "now < dl"
          using live by (cases "spec_view fn ttl h e fam c") (auto split: if_splits)
        then show ?thesis using late [OF dl(1)] op by simp
      qed
      then show ?thesis unfolding view by (auto split: if_splits) (metis option.distinct(1))
    qed
    ultimately show ?thesis using IH by blast
  next
    case False
    then have "mf_FamilyOf fn m \<noteq> fam" if "op = Assert t e c m" for t c m
      using that by (simp add: shows_view_def)
    then have "seen fn ttl (h @ [op]) now e fam \<longleftrightarrow> seen fn ttl h now e fam" by (auto simp: seen_def)
    then show ?thesis using IH False by (simp add: spec_view_snoc)
  qed
qed

text \<open>The state after \<open>h\<close> holds, for every triple, the lease the history gives it, up to expired ones.\<close>

definition tracks :: "member_fns \<Rightarrow> duration \<Rightarrow> presence_op list \<Rightarrow> gtime \<Rightarrow> member_presence \<Rightarrow> bool" where
  "tracks fn ttl h now mp \<longleftrightarrow> presence_ok mp \<and> mp_ttl mp = ttl
     \<and> (\<forall>e m c. unexpired now (lease_of mp e m c) = unexpired now (spec_lease ttl h e m c))
     \<and> (\<forall>e fam c. unexpired now (view_of mp e fam c) = unexpired now (spec_view fn ttl h e fam c))"

lemma tracks_mono: "tracks fn ttl h now mp \<Longrightarrow> now \<le> now' \<Longrightarrow> tracks fn ttl h now' mp"
  unfolding tracks_def by (meson unexpired_mono)

lemma tracks_init: "0 < ttl \<Longrightarrow> tracks fn ttl [] now (newMemberPresence ttl)"
  by (simp add: tracks_def newMemberPresence_def presence_ok_def lease_of_def view_of_def get_map_def
      spec_lease_def last_word_def spec_view_def)

lemma tracks_step:
  assumes "tracks fn ttl h (op_time op) mp"
  shows "tracks fn ttl (h @ [op]) (op_time op) (apply_op fn op mp)"
proof (cases op)
  case (Assert t e c m)
  then show ?thesis using assms unfolding tracks_def
    by (auto simp: markPresent_leases [OF refl] markPresent_ok spec_lease_snoc spec_view_snoc
        about_def shows_view_def)
next
  case (Retract t e c m)
  then show ?thesis using assms unfolding tracks_def
    by (auto simp: markAbsent_leases [OF _ refl] markAbsent_ok spec_lease_snoc spec_view_snoc
        about_def shows_view_def)
next
  case (Sweep t)
  then show ?thesis using assms unfolding tracks_def
    by (auto simp: sweepExpired_leases [OF _ refl] spec_lease_snoc spec_view_snoc about_def shows_view_def)
qed

lemma run_tracks:
  assumes "0 < ttl" "history_ok h now"
  shows "tracks fn ttl h now (run_presence fn h (newMemberPresence ttl))"
  using assms(2)
proof (induction h arbitrary: now rule: rev_induct)
  case Nil
  then show ?case using tracks_init [OF assms(1)] by (simp add: run_presence_def)
next
  case (snoc op h)
  then have h: "history_ok h (op_time op)" and le: "op_time op \<le> now" by (auto simp: history_ok_snoc)
  from snoc.IH [OF h] have "tracks fn ttl (h @ [op]) (op_time op)
      (apply_op fn op (run_presence fn h (newMemberPresence ttl)))"
    by (rule tracks_step)
  then show ?case using le tracks_mono by (simp add: run_presence_def)
qed

lemma tracks_present:
  assumes "tracks fn ttl h now mp"
  shows "anyLive (get_map (get_map (mp_present mp) e) m) now \<longleftrightarrow> asserted ttl h now e m"
  using assms by (simp add: tracks_def present_iff asserted_iff)

lemma tracks_view:
  assumes "tracks fn ttl h now mp" "history_ok h now"
  shows "viewValid mp now e fam \<longleftrightarrow> seen fn ttl h now e fam"
  using assms by (simp add: tracks_def viewValid_iff spec_view_seen history_ok_def)

lemma shouldWithdraw_tracks:
  assumes "tracks fn ttl h now mp" "history_ok h now"
  shows "shouldWithdraw fn mp now e m \<longleftrightarrow>
    mf_IsHost fn m \<and> seen fn ttl h now e (mf_FamilyOf fn m) \<and> \<not> asserted ttl h now e m"
  using tracks_present [OF assms(1)] tracks_view [OF assms] by (simp add: shouldWithdraw_def)

lemma markAbsent_verdict:
  assumes ok: "presence_ok mp"
  shows "fst (markAbsent fn mp t e c m) \<longleftrightarrow>
    anyLive (get_map (get_map (mp_present mp) e) m) t
    \<and> \<not> anyLive (get_map (get_map (mp_present (snd (markAbsent fn mp t e c m))) e) m) t
    \<and> viewValid mp t e (mf_FamilyOf fn m)"
proof (cases "map_of (mp_present mp) e")
  case None
  then show ?thesis by (simp add: markAbsent_def get_map_def)
next
  case (Some b)
  then have "get_map (mp_present mp) e = b" by (simp add: get_map_def)
  then show ?thesis using Some
    by (auto simp: markAbsent_def Let_def get_map_update viewValid_def)
qed

lemma sweepExpired_sel:
  "fst (sweepExpired fn mp t) = snd (sweep_edges (\<lambda>e m. viewValid mp t e (mf_FamilyOf fn m)) t (mp_present mp))"
  "mp_present (snd (sweepExpired fn mp t)) =
     fst (sweep_edges (\<lambda>e m. viewValid mp t e (mf_FamilyOf fn m)) t (mp_present mp))"
  by (simp_all add: sweepExpired_def split: prod.splits)

lemma sweepExpired_losses:
  assumes "presence_ok mp"
  shows "(e, m) \<in> set (fst (sweepExpired fn mp t)) \<longleftrightarrow>
    get_map (get_map (mp_present mp) e) m \<noteq> [] \<and> \<not> anyLive (get_map (get_map (mp_present mp) e) m) t
    \<and> viewValid mp t e (mf_FamilyOf fn m)"
  using assms unfolding sweepExpired_sel by (intro sweep_edges_losses) (auto simp: presence_ok_def)

lemma sweepExpired_gone:
  assumes "presence_ok mp" "\<not> anyLive (get_map (get_map (mp_present mp) e) m) t"
  shows "get_map (get_map (mp_present (snd (sweepExpired fn mp t))) e) m = []"
proof -
  have "map_ok (mp_present mp)" "map_ok (get_map (mp_present mp) e)"
    using assms(1) presence_ok_members [OF assms(1), of e] by (auto simp: presence_ok_def leases_ok_def)
  then show ?thesis using assms(2)
    by (simp add: sweepExpired_sel sweep_edges_get sweep_members_get reap_Nil_iff)
qed

text \<open>
  The advertise gate withholds a member on an edge exactly when the member is a host, some assertion
  about the edge and family is younger than the lease, and no coverer's last word about the member
  is an assertion younger than the lease, whatever assertions, retractions and sweeps came before.
\<close>

theorem shouldWithdraw_matches_history:
  assumes "0 < ttl" "history_ok h now"
  shows "shouldWithdraw fn (run_presence fn h (newMemberPresence ttl)) now e m \<longleftrightarrow>
    mf_IsHost fn m \<and> seen fn ttl h now e (mf_FamilyOf fn m) \<and> \<not> asserted ttl h now e m"
  by (rule shouldWithdraw_tracks [OF run_tracks [OF assms] assms(2)])

definition demo_fns :: member_fns where
  "demo_fns = \<lparr>mf_IsHost = (\<lambda>p. pBits p = BitLen (pAddr p)),
     mf_FamilyOf = (\<lambda>p. if Is4 (pAddr p) then FamilyIPv4 else FamilyIPv6)\<rparr>"

definition demo_host :: "32 word \<Rightarrow> pfx" where
  "demo_host w = \<lparr>pAddr = V4 w, pBits = 32\<rparr>"

definition demo_history :: "presence_op list" where
  "demo_history = [Assert 0 ''l1'' ''a'' (demo_host 7), Assert 1 ''l1'' ''b'' (demo_host 7),
     Assert 1 ''l1'' ''a'' (demo_host 8), Retract 4 ''l1'' ''a'' (demo_host 7), Sweep 12]"

theorem shouldWithdraw_matches_history_witness:
  "history_ok demo_history 12
   \<and> seen demo_fns 10 (demo_history @ [Assert 12 ''l1'' ''a'' (demo_host 8)]) 12 ''l1'' FamilyIPv4
   \<and> \<not> asserted 10 (demo_history @ [Assert 12 ''l1'' ''a'' (demo_host 8)]) 12 ''l1'' (demo_host 7)"
proof -
  let ?h = "demo_history @ [Assert 12 ''l1'' ''a'' (demo_host 8)]"
  have h: "history_ok ?h 12" "history_ok demo_history 12" by (simp_all add: history_ok_def demo_history_def)
  have "shouldWithdraw demo_fns (run_presence demo_fns ?h (newMemberPresence 10)) 12 ''l1'' (demo_host 7)"
    by code_simp
  moreover have "mf_FamilyOf demo_fns (demo_host 7) = FamilyIPv4" by (simp add: demo_fns_def demo_host_def)
  ultimately show ?thesis
    using shouldWithdraw_matches_history [of 10 ?h 12 demo_fns "''l1''" "demo_host 7"] h by simp
qed

text \<open>
  The transitions that become notifications: an assertion reports an appearance exactly when no coverer
  asserted the member before; a retraction reports a loss exactly when it ends the last assertion under a
  trustworthy view; the sweep reports only members nobody asserts, and none of them twice.
\<close>

theorem presence_transitions:
  assumes "0 < ttl" "history_ok h t"
    and mp: "mp = run_presence fn h (newMemberPresence ttl)"
  shows "(fst (markPresent fn mp t e c m) \<longleftrightarrow> \<not> asserted ttl h t e m)
    \<and> (fst (markAbsent fn mp t e c m) \<longleftrightarrow> asserted ttl h t e m \<and>
         \<not> asserted ttl (h @ [Retract t e c m]) t e m \<and> seen fn ttl h t e (mf_FamilyOf fn m))
    \<and> ((e, m) \<in> set (fst (sweepExpired fn mp t)) \<longrightarrow>
         \<not> asserted ttl h t e m \<and> seen fn ttl h t e (mf_FamilyOf fn m)
         \<and> (e, m) \<notin> set (fst (sweepExpired fn (snd (sweepExpired fn mp t)) t)))"
proof (intro conjI)
  note tr = run_tracks [OF assms(1,2), of fn, folded mp]
  note present = tracks_present [OF tr] and view = tracks_view [OF tr assms(2)]
  have ok: "presence_ok mp" using tr by (simp add: tracks_def)
  show "fst (markPresent fn mp t e c m) \<longleftrightarrow> \<not> asserted ttl h t e m"
    by (simp add: markPresent_def Let_def present)
  have "tracks fn ttl (h @ [Retract t e c m]) t (snd (markAbsent fn mp t e c m))"
    using tracks_step [of fn ttl h "Retract t e c m" mp] tr by simp
  then show "fst (markAbsent fn mp t e c m) \<longleftrightarrow> asserted ttl h t e m \<and>
      \<not> asserted ttl (h @ [Retract t e c m]) t e m \<and> seen fn ttl h t e (mf_FamilyOf fn m)"
    by (simp add: markAbsent_verdict [OF ok] present view tracks_present)
  show "(e, m) \<in> set (fst (sweepExpired fn mp t)) \<longrightarrow>
         \<not> asserted ttl h t e m \<and> seen fn ttl h t e (mf_FamilyOf fn m)
         \<and> (e, m) \<notin> set (fst (sweepExpired fn (snd (sweepExpired fn mp t)) t))"
    using sweepExpired_losses [OF ok] sweepExpired_losses [OF sweepExpired_leases(4) [OF ok refl]]
      sweepExpired_gone [OF ok] present view by auto
qed

theorem presence_transitions_witness:
  "history_ok (take 4 demo_history) 5
   \<and> asserted 10 (take 4 demo_history) 5 ''l1'' (demo_host 7)
   \<and> \<not> asserted 10 (take 4 demo_history @ [Retract 5 ''l1'' ''b'' (demo_host 7)]) 5 ''l1'' (demo_host 7)"
proof -
  let ?h = "take 4 demo_history" and ?mp = "run_presence demo_fns (take 4 demo_history) (newMemberPresence 10)"
  have h: "history_ok ?h 5" by (simp add: history_ok_def demo_history_def)
  have "fst (markAbsent demo_fns ?mp 5 ''l1'' ''b'' (demo_host 7))" by code_simp
  then show ?thesis
    using presence_transitions [of 10 ?h 5 ?mp demo_fns "''l1''" "''b''" "demo_host 7"] h by simp
qed

text \<open>
  The only host of an edge, asserted and then withdrawn: the gate withholds it while the view lasts and
  advertises it again when the lease of the last assertion ends, although nobody asserted it since.
\<close>

theorem suppression_ends_with_view:
  assumes "0 < ttl" "mf_IsHost fn m" "t0 \<le> t1" "t1 < t0 + ttl"
  shows "shouldWithdraw fn (run_presence fn [Assert t0 e c m, Retract t1 e c m] (newMemberPresence ttl)) t1 e m
    \<and> \<not> shouldWithdraw fn (run_presence fn [Assert t0 e c m, Retract t1 e c m] (newMemberPresence ttl)) (t0 + ttl) e m"
proof -
  let ?h = "[Assert t0 e c m, Retract t1 e c m]"
  have h: "history_ok ?h t1" "history_ok ?h (t0 + ttl)" using assms by (auto simp: history_ok_def)
  have "seen fn ttl ?h t1 e (mf_FamilyOf fn m)" using assms by (auto simp: seen_def)
  moreover have "\<not> asserted ttl ?h t1 e m"
    by (auto simp: asserted_def last_word_def about_def split: if_splits)
  moreover have "\<not> seen fn ttl ?h (t0 + ttl) e (mf_FamilyOf fn m)" by (auto simp: seen_def)
  ultimately show ?thesis
    using shouldWithdraw_tracks [OF run_tracks [OF assms(1) h(1)] h(1)]
      shouldWithdraw_tracks [OF run_tracks [OF assms(1) h(2)] h(2)] assms(2) by simp
qed

end
