(* ===== verification/Shard.thy ===== *)
theory Shard
  imports Prelude "HOL-Library.Sublist"
begin

text \<open>
  Rendezvous hashing (\<open>internal/shard/shard.go\<close>): the score of an (edge, controller) pair,
  the K coverers of an edge, and the derived coverage maps. The lemmas show that the result
  depends on the controller set only, that it is the top K of a total ranking, and that a
  membership change moves only what has to move. The ranking contract is the locale
  \<open>topk\<close>, which the coverage and routing components use.
\<close>

unbundle bit_operations_syntax

section \<open>The score\<close>

text \<open>\<open>hash/fnv\<close>'s 64-bit FNV-1a: offset basis and prime of the standard.\<close>

definition fnv1a_byte :: "u64 \<Rightarrow> char \<Rightarrow> u64" where
  "fnv1a_byte h c = (h XOR of_char c) * 0x100000001b3"

definition fnv1a :: "string \<Rightarrow> u64" where
  "fnv1a s = foldl fnv1a_byte 0xcbf29ce484222325 s"

definition mix64 :: "u64 \<Rightarrow> u64" where
  "mix64 x0 =
     (let x1 = x0 XOR drop_bit 30 x0;
          x2 = x1 * 0xbf58476d1ce4e5b9;
          x3 = x2 XOR drop_bit 27 x2;
          x4 = x3 * 0x94d049bb133111eb
      in x4 XOR drop_bit 31 x4)"

definition score :: "string \<Rightarrow> string \<Rightarrow> u64" where
  "score edge controller = mix64 (fnv1a (edge @ [CHR 0x00] @ controller))"

section \<open>Coverers\<close>

record cs =
  cs_id :: string
  cs_sc :: u64

definition ranked_less :: "cs \<Rightarrow> cs \<Rightarrow> bool" where
  "ranked_less a b =
     (if cs_sc a \<noteq> cs_sc b then cs_sc a > cs_sc b else cs_id a < cs_id b)"

definition Coverers :: "string \<Rightarrow> string list \<Rightarrow> int \<Rightarrow> string list" where
  "Coverers edge controllers k =
     (if k \<le> 0 \<or> controllers = [] then []
      else
        let ranked = sort_by ranked_less
              (map (\<lambda>c. \<lparr>cs_id = c, cs_sc = score edge c\<rparr>) controllers);
            k' = (if k > int (length ranked) then length ranked else nat k)
        in map cs_id (take k' ranked))"

fun Covers_loop :: "string \<Rightarrow> string list \<Rightarrow> bool" where
  "Covers_loop self [] = False"
| "Covers_loop self (c # cs) = (if c = self then True else Covers_loop self cs)"

definition Covers :: "string \<Rightarrow> string \<Rightarrow> string list \<Rightarrow> int \<Rightarrow> bool" where
  "Covers self edge controllers k = Covers_loop self (Coverers edge controllers k)"

fun CoveredEdges :: "string \<Rightarrow> string list \<Rightarrow> string list \<Rightarrow> int \<Rightarrow> string list" where
  "CoveredEdges self [] controllers k = []"
| "CoveredEdges self (e # es) controllers k =
     (if Covers self e controllers k then e # CoveredEdges self es controllers k
      else CoveredEdges self es controllers k)"

definition Coverage :: "string list \<Rightarrow> string list \<Rightarrow> int \<Rightarrow> (string \<rightharpoonup> string list)" where
  "Coverage edges controllers k =
     foldl (\<lambda>out e. out(e \<mapsto> Coverers e controllers k)) Map.empty edges"

section \<open>The score is a bijective mix of the hash\<close>

lemma xor_shift_injective:
  fixes x y :: "'a::len word"
  assumes "0 < n" and eq: "x XOR drop_bit n x = y XOR drop_bit n y"
  shows "x = y"
proof (rule bit_word_eqI)
  fix m assume m: "m < LENGTH('a)"
  show "bit x m = bit y m"
    using m
  proof (induction "LENGTH('a) - m" arbitrary: m rule: less_induct)
    case less
    have "bit (x XOR drop_bit n x) m = bit (y XOR drop_bit n y) m" by (simp add: eq)
    then have xm: "(bit x m \<noteq> bit x (m + n)) = (bit y m \<noteq> bit y (m + n))"
      by (simp add: bit_xor_iff bit_drop_bit_eq add.commute)
    show ?case
    proof (cases "m + n < LENGTH('a)")
      case True
      then have "bit x (m + n) = bit y (m + n)"
        using less.hyps[of "m + n"] \<open>0 < n\<close> less.prems by simp
      then show ?thesis using xm by blast
    next
      case False
      then have "\<not> bit x (m + n)" "\<not> bit y (m + n)"
        by (auto dest: bit_imp_le_length)
      then show ?thesis using xm by blast
    qed
  qed
qed

lemma mult_injective:
  fixes c d x y :: "'a::len word"
  assumes "c * d = 1" "x * c = y * c"
  shows "x = y"
proof -
  have "x * c * d = y * c * d" using assms(2) by simp
  then show ?thesis by (simp add: mult.assoc assms(1))
qed

lemma mix64_inj: "inj mix64"
proof (rule injI)
  fix x y assume "mix64 x = mix64 y"
  then show "x = y"
    unfolding mix64_def Let_def
    apply -
    apply (drule xor_shift_injective [rotated], simp)
    apply (drule mult_injective [where d = "0x319642b2d24d8ec3", rotated], simp)
    apply (drule xor_shift_injective [rotated], simp)
    apply (drule mult_injective [where d = "0x96de1b173f119089", rotated], simp)
    apply (drule xor_shift_injective [rotated], simp)
    apply assumption
    done
qed

section \<open>The ranking\<close>

interpretation rank: strict_weak ranked_less
  by unfold_locales (auto simp: ranked_less_def split: if_splits)

definition ranking :: "string \<Rightarrow> string list \<Rightarrow> string list" where
  "ranking edge controllers =
     map cs_id (sort_by ranked_less (map (\<lambda>c. \<lparr>cs_id = c, cs_sc = score edge c\<rparr>) controllers))"

definition outranks :: "string \<Rightarrow> string \<Rightarrow> string \<Rightarrow> bool" where
  "outranks edge c d \<longleftrightarrow>
     ranked_less \<lparr>cs_id = c, cs_sc = score edge c\<rparr> \<lparr>cs_id = d, cs_sc = score edge d\<rparr>"

lemma Coverers_take: "Coverers edge cs k = take (nat k) (ranking edge cs)"
  by (auto simp: Coverers_def ranking_def Let_def take_map nat_le_iff)

lemma mset_ranking: "mset (ranking edge cs) = mset cs"
  by (simp add: ranking_def multiset.map_comp comp_def)

lemma set_ranking [simp]: "set (ranking edge cs) = set cs"
  by (metis mset_ranking set_mset_mset)

lemma length_ranking [simp]: "length (ranking edge cs) = length cs"
  by (simp add: ranking_def)

lemma distinct_ranking [simp]: "distinct (ranking edge cs) = distinct cs"
  by (metis mset_ranking mset_eq_imp_distinct_iff)

lemma ranking_perm: "mset cs = mset cs' \<Longrightarrow> ranking edge cs = ranking edge cs'"
  unfolding ranking_def
  by (rule arg_cong [where f = "map cs_id"], rule rank.sort_by_perm)
     (auto simp: ranked_less_def split: if_splits)

lemma ranking_filter: "ranking edge (filter P cs) = filter P (ranking edge cs)"
proof -
  have "filter P (ranking edge cs) = map cs_id (filter (\<lambda>r. P (cs_id r))
          (sort_by ranked_less (map (\<lambda>c. \<lparr>cs_id = c, cs_sc = score edge c\<rparr>) cs)))"
    by (simp add: ranking_def filter_map comp_def)
  also have "\<dots> = ranking edge (filter P cs)"
    by (simp add: rank.sort_by_filter ranking_def filter_map comp_def)
  finally show ?thesis by simp
qed

lemma sorted_ranking: "sorted_wrt (\<lambda>c d. \<not> outranks edge d c) (ranking edge cs)"
proof -
  let ?mk = "\<lambda>c. \<lparr>cs_id = c, cs_sc = score edge c\<rparr>"
  have *: "r = ?mk (cs_id r)" if "r \<in> set (sort_by ranked_less (map ?mk cs))" for r
    using that by auto
  have "sorted_wrt (\<lambda>a b. \<not> ranked_less b a) (sort_by ranked_less (map ?mk cs))"
    by (rule rank.sorted_sort_by)
  then show ?thesis
    unfolding ranking_def sorted_wrt_map outranks_def
    by (rule sorted_wrt_mono_rel [rotated]) (use * in metis)
qed

lemma outranks_total: "c \<noteq> d \<Longrightarrow> outranks edge c d \<or> outranks edge d c"
  by (auto simp: outranks_def ranked_less_def)

lemma outranks_irrefl: "\<not> outranks edge c c"
  by (simp add: outranks_def ranked_less_def)

lemma outranks_trans: "outranks edge a b \<Longrightarrow> outranks edge b c \<Longrightarrow> outranks edge a c"
  unfolding outranks_def by (rule rank.trans)

lemma sorted_distinct_position:
  assumes sorted: "sorted_wrt (\<lambda>x y. \<not> R y x) xs" and "distinct xs"
    and total: "\<And>x y. x \<noteq> y \<Longrightarrow> R x y \<or> R y x" and "\<And>x. \<not> R x x"
    and i: "i < length xs"
  shows "{x \<in> set xs. R x (xs ! i)} = set (take i xs)"
proof (intro equalityI subsetI)
  fix x assume x: "x \<in> {x \<in> set xs. R x (xs ! i)}"
  then obtain j where j: "j < length xs" "x = xs ! j" by (auto simp: in_set_conv_nth)
  have "\<not> i < j" using sorted x j i by (auto simp: sorted_wrt_iff_nth_less)
  moreover have "j \<noteq> i" using x j assms(4) by auto
  ultimately have "j < i" by simp
  then show "x \<in> set (take i xs)" using j i by (auto simp: in_set_conv_nth intro!: exI [of _ j])
next
  fix x assume "x \<in> set (take i xs)"
  then obtain j where j: "j < i" "x = xs ! j" using i by (auto simp: in_set_conv_nth)
  then have "\<not> R (xs ! i) x" using sorted i by (auto simp: sorted_wrt_iff_nth_less)
  moreover have "x \<noteq> xs ! i" using j i assms(2) by (simp add: nth_eq_iff_index_eq)
  ultimately show "x \<in> {x \<in> set xs. R x (xs ! i)}" using total[of x "xs ! i"] j i by auto
qed

lemma Coverers_rank:
  assumes "distinct cs"
  shows "c \<in> set (Coverers edge cs k) \<longleftrightarrow>
    c \<in> set cs \<and> card {d \<in> set cs. outranks edge d c} < nat k"
proof -
  let ?r = "ranking edge cs"
  have pos: "{d \<in> set cs. outranks edge d (?r ! i)} = set (take i ?r)" if "i < length ?r" for i
    using sorted_distinct_position [OF sorted_ranking _ outranks_total outranks_irrefl that]
      assms by simp
  have card: "card {d \<in> set cs. outranks edge d (?r ! i)} = i" if "i < length ?r" for i
    using pos [OF that] that assms by (simp add: distinct_card)
  show ?thesis
  proof
    assume "c \<in> set (Coverers edge cs k)"
    then obtain i where "i < length ?r" "i < nat k" "c = ?r ! i"
      by (auto simp: Coverers_take in_set_conv_nth)
    then show "c \<in> set cs \<and> card {d \<in> set cs. outranks edge d c} < nat k"
      using card set_ranking nth_mem by metis
  next
    assume r: "c \<in> set cs \<and> card {d \<in> set cs. outranks edge d c} < nat k"
    then obtain i where i: "i < length ?r" "c = ?r ! i" by (metis in_set_conv_nth set_ranking)
    then have "i < nat k" using r card by metis
    then show "c \<in> set (Coverers edge cs k)"
      using i by (auto simp: Coverers_take in_set_conv_nth intro!: exI [of _ i])
  qed
qed

section \<open>The top-K contract\<close>

text \<open>
  What the coverage reconciler and the desired-state fan rely on when they ask "which of the
  connected coverers serve this edge": a selection from the candidates, of the right size, that
  depends on the candidate set only and is stable under membership changes.
\<close>

locale topk =
  fixes sel :: "'e \<Rightarrow> 'c list \<Rightarrow> int \<Rightarrow> 'c list"
  assumes sel_subset: "set (sel e cs k) \<subseteq> set cs"
    and sel_length: "length (sel e cs k) = min (nat k) (length cs)"
    and sel_distinct: "distinct cs \<Longrightarrow> distinct (sel e cs k)"
    and sel_perm: "mset cs = mset cs' \<Longrightarrow> sel e cs k = sel e cs' k"
    and sel_drop: "prefix (filter P (sel e cs k)) (sel e (filter P cs) k)"
begin

lemma sel_empty_iff: "sel e cs k = [] \<longleftrightarrow> k \<le> 0 \<or> cs = []"
proof -
  have "sel e cs k = [] \<longleftrightarrow> min (nat k) (length cs) = 0" by (simp flip: sel_length [of e cs k])
  then show ?thesis by (auto simp: min_def split: if_splits)
qed

lemma sel_keep:
  assumes "\<And>c. c \<in> set (sel e cs k) \<Longrightarrow> P c"
  shows "sel e (filter P cs) k = sel e cs k"
proof -
  have f: "filter P (sel e cs k) = sel e cs k" using assms by simp
  obtain zs where zs: "sel e (filter P cs) k = sel e cs k @ zs"
    using sel_drop [of P e cs k] f by (auto simp: prefix_def)
  have "length (filter P cs) \<le> length cs" by simp
  then have "length (sel e (filter P cs) k) \<le> length (sel e cs k)"
    unfolding sel_length by (rule min.mono [OF order_refl])
  then have "zs = []" using zs by simp
  then show ?thesis using zs by simp
qed

lemma sel_remove_other:
  "c \<notin> set (sel e cs k) \<Longrightarrow> sel e (filter (\<lambda>x. x \<noteq> c) cs) k = sel e cs k"
  by (rule sel_keep) auto

lemma sel_survivors:
  "d \<in> set (sel e cs k) \<Longrightarrow> d \<noteq> c \<Longrightarrow> d \<in> set (sel e (filter (\<lambda>x. x \<noteq> c) cs) k)"
  using set_mono_prefix [OF sel_drop [of "\<lambda>x. x \<noteq> c" e cs k]] by auto

lemma sel_primary_stable:
  assumes "sel e cs k \<noteq> []" "hd (sel e cs k) \<noteq> c"
  shows "hd (sel e (filter (\<lambda>x. x \<noteq> c) cs) k) = hd (sel e cs k)"
proof -
  obtain p ps where p: "sel e cs k = p # ps" using assms(1) by (cases "sel e cs k") auto
  then show ?thesis
    using sel_drop [of "\<lambda>x. x \<noteq> c" e cs k] assms(2) by (auto simp: prefix_def)
qed

lemma sel_covers_all: "0 < k \<Longrightarrow> cs \<noteq> [] \<Longrightarrow> \<exists>c \<in> set cs. c \<in> set (sel e cs k)"
  using sel_empty_iff [of e cs k] sel_subset [of e cs k] by (cases "sel e cs k") auto

end

lemma prefix_filter_take: "prefix (filter P (take n xs)) (take n (filter P xs))"
proof -
  have "filter P xs = filter P (take n xs) @ filter P (drop n xs)"
    by (simp flip: filter_append)
  then have "take n (filter P xs) =
      filter P (take n xs) @ take (n - length (filter P (take n xs))) (filter P (drop n xs))"
    using length_filter_le [of P "take n xs"] by simp
  then show ?thesis by simp
qed

interpretation hrw: topk Coverers
proof unfold_locales
  fix e k and cs cs' :: "string list" and P
  show "set (Coverers e cs k) \<subseteq> set cs"
    by (simp add: Coverers_take) (metis set_ranking set_take_subset)
  show "length (Coverers e cs k) = min (nat k) (length cs)"
    by (simp add: Coverers_take min.commute)
  show "distinct cs \<Longrightarrow> distinct (Coverers e cs k)"
    by (simp add: Coverers_take)
  show "mset cs = mset cs' \<Longrightarrow> Coverers e cs k = Coverers e cs' k"
    unfolding Coverers_take by (drule ranking_perm [of _ _ e]) simp
  show "prefix (filter P (Coverers e cs k)) (Coverers e (filter P cs) k)"
    by (simp add: Coverers_take ranking_filter prefix_filter_take)
qed

lemma Covers_iff [simp]: "Covers self edge cs k \<longleftrightarrow> self \<in> set (Coverers edge cs k)"
proof -
  have "Covers_loop self xs \<longleftrightarrow> self \<in> set xs" for xs by (induction xs) auto
  then show ?thesis by (simp add: Covers_def)
qed

lemma CoveredEdges_filter:
  "CoveredEdges self es cs k = filter (\<lambda>e. self \<in> set (Coverers e cs k)) es"
  by (induction es) auto

lemma Coverage_apply:
  "Coverage es cs k e = (if e \<in> set es then Some (Coverers e cs k) else None)"
proof -
  have "foldl (\<lambda>out e. out(e \<mapsto> Coverers e cs k)) m es e =
      (if e \<in> set es then Some (Coverers e cs k) else m e)" for m
    by (induction es arbitrary: m) auto
  then show ?thesis by (simp add: Coverage_def)
qed

section \<open>Properties\<close>

text \<open>
  The finalizer \<open>mix64\<close> is a bijection of the 64-bit words, as its comment says, so it
  loses none of the hash.
\<close>

theorem mix64_bijective: "bij mix64"
  using mix64_inj by (simp add: bij_def finite_UNIV_inj_surj)

text \<open>
  The coverers of an edge are a function of the controller set alone: every replica,
  whatever order it lists the controllers in, computes the same list; and a controller covers
  the edge iff fewer than K controllers outrank it, in the total order of score then id.
\<close>

theorem Coverers_deterministic_top_k:
  assumes "distinct controllers" "mset controllers = mset controllers'"
  shows "Coverers edge controllers k = Coverers edge controllers' k
    \<and> length (Coverers edge controllers k) = min (nat k) (length controllers)
    \<and> (c \<in> set (Coverers edge controllers k) \<longleftrightarrow>
         c \<in> set controllers \<and> card {d \<in> set controllers. outranks edge d c} < nat k)"
  by (intro conjI hrw.sel_perm hrw.sel_length Coverers_rank assms)

theorem Coverers_deterministic_top_k_witness:
  "Coverers ''e1'' [''c1'', ''c2'', ''c3''] 2 = Coverers ''e1'' [''c3'', ''c2'', ''c1''] 2"
  by (rule Coverers_deterministic_top_k [THEN conjunct1]) simp_all

text \<open>
  C16: Minimal reshuffle. When controller \<open>c\<close> leaves, an edge \<open>c\<close> did not cover keeps its
  coverers unchanged, and an edge it covered keeps every other coverer; the primary moves only
  if it was \<open>c\<close>.
\<close>

theorem Coverers_minimal_reshuffle:
  fixes c edge :: string and controllers :: "string list" and k :: int
  defines "rest \<equiv> filter (\<lambda>x. x \<noteq> c) controllers"
  shows "(c \<notin> set (Coverers edge controllers k) \<longrightarrow>
            Coverers edge rest k = Coverers edge controllers k)
    \<and> set (Coverers edge controllers k) - {c} \<subseteq> set (Coverers edge rest k)
    \<and> (Coverers edge controllers k \<noteq> [] \<and> hd (Coverers edge controllers k) \<noteq> c \<longrightarrow>
         hd (Coverers edge rest k) = hd (Coverers edge controllers k))"
  unfolding rest_def
  using hrw.sel_remove_other [of c edge controllers k] hrw.sel_survivors [of _ edge controllers k c]
    hrw.sel_primary_stable [of edge controllers k c]
  by blast

theorem Coverers_minimal_reshuffle_witness:
  "Coverers ''e1'' [''c1'', ''c2''] 2 = Coverers ''e1'' [''c1'', ''c2'', ''c3''] 2"
proof -
  have "Coverers ''e1'' [''c1'', ''c2'', ''c3''] 2 = [''c1'', ''c2'']" by code_simp
  then have "''c3'' \<notin> set (Coverers ''e1'' [''c1'', ''c2'', ''c3''] 2)" by simp
  then show ?thesis
    using Coverers_minimal_reshuffle [of "''c3''" "''e1''" "[''c1'', ''c2'', ''c3'']" 2] by simp
qed

text \<open>
  The three views of the coverage relation agree: \<open>CoveredEdges\<close> of a replica lists, in
  input order, the edges whose \<open>Coverage\<close> entry names it, and with K at least one and some
  controller alive every edge is covered by someone.
\<close>

theorem coverage_views_agree:
  "(\<forall>self. CoveredEdges self edges controllers k =
      filter (\<lambda>e. self \<in> set (the (Coverage edges controllers k e))) edges)
   \<and> (0 < k \<and> controllers \<noteq> [] \<longrightarrow>
      (\<forall>e \<in> set edges. \<exists>self \<in> set controllers. e \<in> set (CoveredEdges self edges controllers k)))"
proof -
  have "CoveredEdges self edges controllers k =
      filter (\<lambda>e. self \<in> set (the (Coverage edges controllers k e))) edges" for self
    unfolding CoveredEdges_filter by (rule filter_cong) (auto simp: Coverage_apply)
  moreover have "\<exists>self \<in> set controllers. e \<in> set (CoveredEdges self edges controllers k)"
    if "0 < k" "controllers \<noteq> []" "e \<in> set edges" for e
    using hrw.sel_covers_all [OF that(1,2), of e] that(3) by (auto simp: CoveredEdges_filter)
  ultimately show ?thesis by blast
qed

theorem coverage_views_agree_witness:
  "\<exists>self \<in> set [''c1'', ''c2'']. ''e1'' \<in> set (CoveredEdges self [''e1'', ''e2''] [''c1'', ''c2''] 1)"
proof -
  have "0 < (1::int) \<and> [''c1'', ''c2''] \<noteq> []" by simp
  with coverage_views_agree [of "[''e1'', ''e2'']" "[''c1'', ''c2'']" 1]
  have "\<forall>e \<in> set [''e1'', ''e2'']. \<exists>self \<in> set [''c1'', ''c2''].
      e \<in> set (CoveredEdges self [''e1'', ''e2''] [''c1'', ''c2''] 1)" by blast
  then show ?thesis by simp
qed

end
