(* ===== verification/Contract.thy ===== *)
theory Contract
  imports Netip
begin

text \<open>
  The types of the shared contract module \<open>sbw-contract\<close> (package \<open>model\<close>) that the server
  exchanges, with the fields the server reads or writes. The module is not part of the
  repository: its functions (\<open>Member.Validate\<close>, \<open>MaskKind\<close>, \<open>PolicerName\<close>, \<open>IsHost\<close>,
  \<open>Pool.FailOpenOnDoubleDeath\<close>) are fields of the record \<open>contract\<close>, an argument of the definitions that call them.
\<close>

section \<open>Pools\<close>

datatype actionKind = ActionRateLimit | ActionBlackhole | ActionScrub

datatype rateType = RateKbps | RateOther

datatype direction = DirectionIngress | DirectionEgress

type_synonym community = "32 word"
type_synonym large_community = "32 word \<times> 32 word \<times> 32 word"

record rate_spec =
  r_Type :: rateType
  r_CIR :: u64
  r_CommittedBurstBytes :: u64
  r_CommittedBurstPackets :: u64

record action_spec =
  a_Kind :: actionKind
  a_ExpiryUnixMs :: int
  a_RTBHCommunity :: "community option"
  a_RTBHLargeCommunity :: "large_community option"

record member =
  m_Prefix :: pfx

record pool =
  p_ID :: pool_id
  p_Members :: "member list"
  p_IngressRate :: rate_spec
  p_EgressRate :: rate_spec
  p_Action :: action_spec
  p_BindWorker :: int
  p_HomeEdge :: edge_id

section \<open>Desired state\<close>

datatype policerAction = PolicerTransmit | PolicerDrop
datatype policerType = Policer1R2C

type_synonym mask_kind = string

record policer_spec =
  ps_Name :: string
  ps_PoolID :: pool_id
  ps_Direction :: direction
  ps_Type :: policerType
  ps_RateType :: rateType
  ps_CIR :: u64
  ps_CommittedBurstBytes :: u64
  ps_CommittedBurstPackets :: u64
  ps_ConformAction :: policerAction
  ps_ExceedAction :: policerAction
  ps_BindWorker :: int

record classify_session =
  k_PoolID :: pool_id
  k_Prefix :: pfx
  k_Direction :: direction
  k_Mask :: mask_kind
  k_PolicerName :: string

record anchor =
  an_Prefix :: pfx
  an_Communities :: "community list"
  an_LargeCommunities :: "large_community list"

record flow_redirect =
  f_SrcPrefix :: pfx

record edge_desired_state =
  d_EdgeID :: edge_id
  d_Generation :: nat
  d_Policers :: "policer_spec list"
  d_ClassifySessions :: "classify_session list"
  d_Anchors :: "anchor list"
  d_FlowRedirects :: "flow_redirect list"
  d_RedirectNextHop :: addr
  d_RedirectNextHopV6 :: addr

record pool_delta =
  pd_PoolID :: pool_id
  pd_Policers :: "policer_spec list"
  pd_ClassifySessions :: "classify_session list"
  pd_Anchors :: "anchor list"
  pd_FlowRedirects :: "flow_redirect list"
  pd_RedirectNextHop :: addr
  pd_RedirectNextHopV6 :: addr

section \<open>Functions of the contract module\<close>

record contract =
  Member_Validate :: "member \<Rightarrow> string option"
  Member_MaskKind :: "member \<Rightarrow> direction \<Rightarrow> string + mask_kind"
  PolicerName :: "pool_id \<Rightarrow> direction \<Rightarrow> string"
  IsHost :: "pfx \<Rightarrow> bool"
  FailOpenOnDoubleDeath :: "pool \<Rightarrow> bool"

text \<open>A member that passes \<open>Validate\<close> has a mask in both directions.\<close>

definition masks_of_valid :: "contract \<Rightarrow> bool" where
  "masks_of_valid cx \<longleftrightarrow>
     (\<forall>m dir. Member_Validate cx m = None \<longrightarrow> (\<exists>k. Member_MaskKind cx m dir = Inr k))"

end
