(* ===== verification/YbStore.thy ===== *)
theory YbStore
  imports Contract "HOL-Library.Sublist"
begin

text \<open>
  The YugabyteDB store (\<open>internal/ybstore/ybstore.go\<close>). The two tables are lists of rows; every
  SQL statement of a transaction is a list function (\<open>INSERT\<close> appends, \<open>UPDATE\<close> maps, \<open>DELETE\<close>
  and \<open>SELECT\<close> filter). A transaction is a function \<open>tx_*\<close> on the tables that either returns new
  tables or an error with no effect; the store operation around it may in addition fail with a
  database fault, before or after the commit took effect. Bulk reads go to a follower
  snapshot of the tables. A row's body is the \<open>Record\<close> its JSON encodes; the prefix
  column holds \<open>Prefix.String()\<close> of a prefix and is kept as that prefix.
\<close>

section \<open>Records and tables\<close>

record yb_record =
  y_Pool :: pool
  y_Primary :: edge_id
  y_Backup :: edge_id
  y_Tokens :: int
  y_RetiringEdge :: edge_id

record pivot_row =
  v_Pool :: pool
  v_PoolID :: pool_id
  v_Primary :: edge_id
  v_Backup :: edge_id
  v_Retiring :: edge_id
  v_Tokens :: int
  v_Version :: int

record conflict =
  cf_Prefix :: pfx
  cf_PoolID :: pool_id

datatype store_error = ErrExists | ErrMemberConflict | ErrNotFound | ErrConflict | ErrDB string

record pool_row =
  t_id :: pool_id
  t_body :: yb_record
  t_home :: edge_id
  t_backup :: "edge_id option"
  t_cost :: int
  t_version :: int
  t_retiring :: bool

record member_row =
  mt_prefix :: pfx
  mt_pool :: pool_id
  mt_home :: edge_id

record tables =
  pools :: "pool_row list"
  members :: "member_row list"

definition nullEdge :: "edge_id \<Rightarrow> edge_id option" where
  "nullEdge e = (if e = [] then None else Some e)"

definition edge_of :: "edge_id option \<Rightarrow> edge_id" where
  "edge_of b = (case b of None \<Rightarrow> [] | Some e \<Rightarrow> e)"

definition row_of :: "tables \<Rightarrow> pool_id \<Rightarrow> pool_row option" where
  "row_of t i = find (\<lambda>r. t_id r = i) (pools t)"

definition with_home :: "yb_record \<Rightarrow> yb_record" where
  "with_home rec = rec\<lparr>y_Pool := (y_Pool rec)\<lparr>p_HomeEdge := y_Primary rec\<rparr>\<rparr>"

section \<open>Write transactions\<close>

text \<open>\<open>INSERT INTO members\<close> of one prefix: a primary-key violation aborts.\<close>

definition insert_member ::
  "pool_id \<Rightarrow> edge_id \<Rightarrow> tables \<Rightarrow> pfx \<Rightarrow> store_error + tables"
where
  "insert_member i home t p =
     (if \<exists>r \<in> set (members t). mt_prefix r = p then Inl ErrMemberConflict
      else Inr (t\<lparr>members := members t @ [\<lparr>mt_prefix = p, mt_pool = i, mt_home = home\<rparr>]\<rparr>))"

definition tx_CreatePool :: "tables \<Rightarrow> yb_record \<Rightarrow> member list \<Rightarrow> store_error + tables" where
  "tx_CreatePool t rec ms =
     (let rec = with_home rec; i = p_ID (y_Pool rec) in
      if row_of t i \<noteq> None then Inl ErrExists
      else foldE (insert_member i (y_Primary rec))
             (t\<lparr>pools := pools t @ [\<lparr>t_id = i, t_body = rec, t_home = y_Primary rec,
                  t_backup = nullEdge (y_Backup rec), t_cost = y_Tokens rec,
                  t_version = 1, t_retiring = False\<rparr>]\<rparr>)
             (map m_Prefix ms))"

text \<open>\<open>UPDATE pools SET body=$1, version=version+1 WHERE id=$2\<close>\<close>

definition set_body :: "tables \<Rightarrow> pool_id \<Rightarrow> yb_record \<Rightarrow> tables" where
  "set_body t i rec = t\<lparr>pools := map (\<lambda>r. if t_id r = i
     then r\<lparr>t_body := rec, t_version := t_version r + 1\<rparr> else r) (pools t)\<rparr>"

definition tx_UpdatePool :: "tables \<Rightarrow> yb_record \<Rightarrow> member list \<Rightarrow> store_error + tables" where
  "tx_UpdatePool t rec ms =
     (let rec = with_home rec; i = p_ID (y_Pool rec) in
      if row_of t i = None then Inl ErrNotFound
      else
        let t = set_body t i rec;
            cur = map mt_prefix (filter (\<lambda>r. mt_pool r = i) (members t));
            newSet = remdups (map m_Prefix ms);
            added = filter (\<lambda>p. p \<notin> set cur) newSet;
            removed = filter (\<lambda>p. p \<notin> set newSet) cur;
            t = t\<lparr>members := filter (\<lambda>r. \<not> (mt_pool r = i \<and> mt_prefix r \<in> set removed)) (members t)\<rparr>;
            fresh = filter (\<lambda>p. \<not> (\<exists>r \<in> set (members t). mt_prefix r = p)) added
        in if length fresh < length added then Inl ErrMemberConflict
           else Inr (t\<lparr>members := members t @
                  map (\<lambda>p. \<lparr>mt_prefix = p, mt_pool = i, mt_home = y_Primary rec\<rparr>) fresh\<rparr>))"

definition tx_RemoveMember :: "tables \<Rightarrow> pool_id \<Rightarrow> pfx \<Rightarrow> store_error + tables" where
  "tx_RemoveMember t i pre =
     (let t = t\<lparr>members := filter (\<lambda>r. \<not> (mt_prefix r = pre \<and> mt_pool r = i)) (members t)\<rparr> in
      case row_of t i of
        None \<Rightarrow> Inl ErrNotFound
      | Some r \<Rightarrow>
          let rec = t_body r;
              kept = filter (\<lambda>m. m_Prefix m \<noteq> pre) (p_Members (y_Pool rec))
          in Inr (set_body t i (rec\<lparr>y_Pool := (y_Pool rec)\<lparr>p_Members := kept\<rparr>\<rparr>)))"

definition tx_UpdateCAS ::
  "tables \<Rightarrow> pivot_row \<Rightarrow> int \<Rightarrow> edge_id \<Rightarrow> edge_id \<Rightarrow> edge_id \<Rightarrow> store_error + tables"
where
  "tx_UpdateCAS t row expectVersion newPrimary newBackup newRetiring =
     (let i = v_PoolID row;
          rec = with_home \<lparr>y_Pool = v_Pool row, y_Primary = newPrimary, y_Backup = newBackup,
                  y_Tokens = v_Tokens row, y_RetiringEdge = newRetiring\<rparr>;
          hit = (\<lambda>r. t_id r = i \<and> t_version r = expectVersion)
      in if \<not> (\<exists>r \<in> set (pools t). hit r) then Inl ErrConflict
         else
           let t = t\<lparr>pools := map (\<lambda>r. if hit r
                 then r\<lparr>t_home := newPrimary, t_backup := nullEdge newBackup,
                        t_retiring := (newRetiring \<noteq> []), t_body := rec,
                        t_version := t_version r + 1\<rparr> else r) (pools t)\<rparr>
           in Inr (if newPrimary \<noteq> v_Primary row \<and> newPrimary \<noteq> []
                   then t\<lparr>members := map (\<lambda>r. if mt_pool r = i then r\<lparr>mt_home := newPrimary\<rparr> else r)
                          (members t)\<rparr>
                   else t))"

definition tx_DeleteCAS :: "tables \<Rightarrow> pool_id \<Rightarrow> int \<Rightarrow> store_error + tables" where
  "tx_DeleteCAS t i expectVersion =
     (let hit = (\<lambda>r. t_id r = i \<and> t_version r = expectVersion) in
      if \<not> (\<exists>r \<in> set (pools t). hit r) then Inl ErrConflict
      else Inr (t\<lparr>pools := filter (\<lambda>r. \<not> hit r) (pools t),
                  members := filter (\<lambda>r. mt_pool r \<noteq> i) (members t)\<rparr>))"

definition tx_Delete :: "tables \<Rightarrow> pool_id \<Rightarrow> store_error + tables" where
  "tx_Delete t i = Inr (t\<lparr>members := filter (\<lambda>r. mt_pool r \<noteq> i) (members t),
                          pools := filter (\<lambda>r. t_id r \<noteq> i) (pools t)\<rparr>)"

section \<open>Reads\<close>

definition q_Get :: "tables \<Rightarrow> pool_id \<Rightarrow> yb_record option" where
  "q_Get t i = map_option t_body (row_of t i)"

definition q_GetForReconcile :: "tables \<Rightarrow> pool_id \<Rightarrow> pivot_row option" where
  "q_GetForReconcile t i = map_option (\<lambda>r.
     \<lparr>v_Pool = y_Pool (t_body r), v_PoolID = i, v_Primary = t_home r,
      v_Backup = edge_of (t_backup r),
      v_Retiring = (if t_retiring r then y_RetiringEdge (t_body r) else []),
      v_Tokens = t_cost r, v_Version = t_version r\<rparr>) (row_of t i)"

definition q_poolsBy :: "(pool_row \<Rightarrow> bool) \<Rightarrow> tables \<Rightarrow> pool list" where
  "q_poolsBy P t = sort_by (less_key p_ID) (map (\<lambda>r. y_Pool (t_body r)) (filter P (pools t)))"

definition q_PoolsForHome :: "tables \<Rightarrow> edge_id \<Rightarrow> pool list" where
  "q_PoolsForHome t edge = q_poolsBy (\<lambda>r. t_home r = edge) t"

definition q_PoolsForBackup :: "tables \<Rightarrow> edge_id \<Rightarrow> pool list" where
  "q_PoolsForBackup t edge = q_poolsBy (\<lambda>r. t_backup r = Some edge) t"

definition q_ListPivotsByPrimary :: "tables \<Rightarrow> edge_id \<Rightarrow> pivot_row list" where
  "q_ListPivotsByPrimary t edge = map (\<lambda>r.
     \<lparr>v_Pool = y_Pool (t_body r), v_PoolID = t_id r, v_Primary = t_home r,
      v_Backup = edge_of (t_backup r), v_Retiring = [], v_Tokens = t_cost r,
      v_Version = t_version r\<rparr>) (filter (\<lambda>r. t_home r = edge) (pools t))"

definition q_PoolsForDeadEdge :: "tables \<Rightarrow> edge_id \<Rightarrow> pool_id list" where
  "q_PoolsForDeadEdge t edge = sort_by (less_key id)
     (map t_id (filter (\<lambda>r. t_home r = edge \<or> t_backup r = Some edge) (pools t)))"

definition q_ListIDs :: "tables \<Rightarrow> pool_id list" where
  "q_ListIDs t = sort_by (less_key id) (map t_id (pools t))"

definition q_List :: "tables \<Rightarrow> yb_record list" where
  "q_List t = sort_by (less_key (\<lambda>rec. p_ID (y_Pool rec))) (map t_body (pools t))"

definition q_UsedByEdge :: "tables \<Rightarrow> edge_id \<rightharpoonup> int" where
  "q_UsedByEdge t = (\<lambda>e. if \<exists>r \<in> set (pools t). t_home r = e
     then Some (sum_list (map t_cost (filter (\<lambda>r. t_home r = e) (pools t)))) else None)"

definition q_MembersByEdge :: "tables \<Rightarrow> edge_id \<rightharpoonup> int" where
  "q_MembersByEdge t = (\<lambda>e. if \<exists>r \<in> set (members t). mt_home r = e
     then Some (int (length (filter (\<lambda>r. mt_home r = e) (members t)))) else None)"

section \<open>Overlap search\<close>

text \<open>The candidate keys of one input prefix and the key space a /24 scans.\<close>

definition conflict_keys :: "pfx \<Rightarrow> pfx list" where
  "conflict_keys p = p # (if Is4 (pAddr p) \<and> pBits p = 32
     then [Masked (PrefixFrom (pAddr p) 24)] else [])"

definition like_prefix :: "pfx \<Rightarrow> string option" where
  "like_prefix p = (if Is4 (pAddr p) \<and> pBits p = 24
     then (let n = addr_num (pAddr p) in
       Some (show_dec (n div 2 ^ 24 mod 256) @ ''.'' @ show_dec (n div 2 ^ 16 mod 256) @ ''.''
             @ show_dec (n div 2 ^ 8 mod 256) @ ''.''))
     else None)"

definition add_conflict ::
  "pfx list \<Rightarrow> pool_id \<Rightarrow> conflict list \<Rightarrow> member_row \<Rightarrow> conflict list"
where
  "add_conflict inputs excludePool out r =
     (if mt_pool r = excludePool then out
      else if mt_prefix r \<in> set (map cf_Prefix out) then out
      else if \<not> (\<exists>p \<in> set inputs. Overlaps (mt_prefix r) p) then out
      else out @ [\<lparr>cf_Prefix = mt_prefix r, cf_PoolID = mt_pool r\<rparr>])"

definition q_MemberConflicts :: "tables \<Rightarrow> pfx list \<Rightarrow> pool_id \<Rightarrow> conflict list" where
  "q_MemberConflicts t inputs excludePool =
     (let keys = remdups (concat (map conflict_keys inputs));
          likes = List.map_filter like_prefix inputs;
          out = foldl (add_conflict inputs excludePool) []
                  (filter (\<lambda>r. mt_prefix r \<in> set keys) (members t));
          out = foldl (\<lambda>out lp. foldl (add_conflict inputs excludePool) out
                  (filter (\<lambda>r. prefix lp (pfx_String (mt_prefix r))) (members t))) out likes
      in sort_by (less_key (\<lambda>c. pfx_String (cf_Prefix c))) out)"

section \<open>The store with faults and a follower snapshot\<close>

text \<open>
  A statement or the commit fails and the transaction is rolled back; the commit took effect but
  its acknowledgement was lost; a read must be restarted.
\<close>

datatype fault = Rollback string | AckLost string | ReadRestart

record store =
  tabs :: tables
  snap :: tables
  faults :: "fault option list"

definition next_fault :: "store \<Rightarrow> fault option \<times> store" where
  "next_fault s = (case faults s of [] \<Rightarrow> (None, s) | f # fs \<Rightarrow> (f, s\<lparr>faults := fs\<rparr>))"

definition write_tx ::
  "(tables \<Rightarrow> store_error + tables) \<Rightarrow> store \<Rightarrow> store \<times> (store_error + unit)"
where
  "write_tx tx s =
     (let (f, s) = next_fault s in
      case f of
        None \<Rightarrow> (case tx (tabs s) of Inl e \<Rightarrow> (s, Inl e) | Inr t \<Rightarrow> (s\<lparr>tabs := t\<rparr>, Inr ()))
      | Some (Rollback e) \<Rightarrow> (s, Inl (ErrDB e))
      | Some (AckLost e) \<Rightarrow>
          (case tx (tabs s) of Inl err \<Rightarrow> (s, Inl err) | Inr t \<Rightarrow> (s\<lparr>tabs := t\<rparr>, Inl (ErrDB e)))
      | Some ReadRestart \<Rightarrow> (s, Inl (ErrDB ''restart'')))"

definition leader_read :: "(tables \<Rightarrow> 'a) \<Rightarrow> store \<Rightarrow> store \<times> (store_error + 'a)" where
  "leader_read q s =
     (let (f, s) = next_fault s in
      case f of None \<Rightarrow> (s, Inr (q (tabs s))) | Some _ \<Rightarrow> (s, Inl (ErrDB ''read'')))"

text \<open>\<open>followerReadOnce\<close>, and \<open>followerRead\<close> with its bounded number of attempts.\<close>

definition followerReadOnce ::
  "(tables \<Rightarrow> 'a) \<Rightarrow> store \<Rightarrow> store \<times> (fault + 'a)"
where
  "followerReadOnce q s =
     (let (f, s) = next_fault s in
      case f of None \<Rightarrow> (s, Inr (q (snap s))) | Some e \<Rightarrow> (s, Inl e))"

definition maxReadRetries :: nat where
  "maxReadRetries = 5"

fun follower_loop :: "nat \<Rightarrow> (tables \<Rightarrow> 'a) \<Rightarrow> store \<Rightarrow> store \<times> (store_error + 'a)" where
  "follower_loop 0 q s =
     (case followerReadOnce q s of
        (s, Inr x) \<Rightarrow> (s, Inr x)
      | (s, Inl e) \<Rightarrow> (s, Inl (ErrDB ''read'')))"
| "follower_loop (Suc k) q s =
     (case followerReadOnce q s of
        (s, Inr x) \<Rightarrow> (s, Inr x)
      | (s, Inl e) \<Rightarrow> if e = ReadRestart then follower_loop k q s else (s, Inl (ErrDB ''read'')))"

definition followerRead :: "(tables \<Rightarrow> 'a) \<Rightarrow> store \<Rightarrow> store \<times> (store_error + 'a)" where
  "followerRead q s = follower_loop maxReadRetries q s"

section \<open>The operations of Store\<close>

definition CreatePool :: "store \<Rightarrow> yb_record \<Rightarrow> member list \<Rightarrow> store \<times> (store_error + unit)" where
  "CreatePool s rec ms = write_tx (\<lambda>t. tx_CreatePool t rec ms) s"

definition UpdatePool :: "store \<Rightarrow> yb_record \<Rightarrow> member list \<Rightarrow> store \<times> (store_error + unit)" where
  "UpdatePool s rec ms = write_tx (\<lambda>t. tx_UpdatePool t rec ms) s"

definition RemoveMember :: "store \<Rightarrow> pool_id \<Rightarrow> pfx \<Rightarrow> store \<times> (store_error + unit)" where
  "RemoveMember s i pre = write_tx (\<lambda>t. tx_RemoveMember t i pre) s"

definition UpdateCAS ::
  "store \<Rightarrow> pivot_row \<Rightarrow> int \<Rightarrow> edge_id \<Rightarrow> edge_id \<Rightarrow> edge_id \<Rightarrow> store \<times> (store_error + unit)"
where
  "UpdateCAS s row v np nb nr = write_tx (\<lambda>t. tx_UpdateCAS t row v np nb nr) s"

definition DeleteCAS :: "store \<Rightarrow> pool_id \<Rightarrow> int \<Rightarrow> store \<times> (store_error + unit)" where
  "DeleteCAS s i v = write_tx (\<lambda>t. tx_DeleteCAS t i v) s"

definition Delete :: "store \<Rightarrow> pool_id \<Rightarrow> store \<times> (store_error + unit)" where
  "Delete s i = write_tx (\<lambda>t. tx_Delete t i) s"

definition DestroyPool :: "store \<Rightarrow> pool_id \<Rightarrow> store \<times> (store_error + unit)" where
  "DestroyPool s i = Delete s i"

definition Get :: "store \<Rightarrow> pool_id \<Rightarrow> store \<times> (store_error + yb_record option)" where
  "Get s i = leader_read (\<lambda>t. q_Get t i) s"

definition GetForReconcile :: "store \<Rightarrow> pool_id \<Rightarrow> store \<times> (store_error + pivot_row option)" where
  "GetForReconcile s i = leader_read (\<lambda>t. q_GetForReconcile t i) s"

definition MemberConflicts ::
  "store \<Rightarrow> pfx list \<Rightarrow> pool_id \<Rightarrow> store \<times> (store_error + conflict list)"
where
  "MemberConflicts s ps excl = leader_read (\<lambda>t. q_MemberConflicts t ps excl) s"

definition PoolsForHome :: "store \<Rightarrow> edge_id \<Rightarrow> store \<times> (store_error + pool list)" where
  "PoolsForHome s e = followerRead (\<lambda>t. q_PoolsForHome t e) s"

definition PoolsForBackup :: "store \<Rightarrow> edge_id \<Rightarrow> store \<times> (store_error + pool list)" where
  "PoolsForBackup s e = followerRead (\<lambda>t. q_PoolsForBackup t e) s"

definition ListPivotsByPrimary :: "store \<Rightarrow> edge_id \<Rightarrow> store \<times> (store_error + pivot_row list)" where
  "ListPivotsByPrimary s e = followerRead (\<lambda>t. q_ListPivotsByPrimary t e) s"

definition PoolsForDeadEdge :: "store \<Rightarrow> edge_id \<Rightarrow> store \<times> (store_error + pool_id list)" where
  "PoolsForDeadEdge s e = followerRead (\<lambda>t. q_PoolsForDeadEdge t e) s"

definition ListIDs :: "store \<Rightarrow> store \<times> (store_error + pool_id list)" where
  "ListIDs s = followerRead q_ListIDs s"

definition ListPools :: "store \<Rightarrow> store \<times> (store_error + yb_record list)" where
  "ListPools s = followerRead q_List s"

definition UsedByEdge :: "store \<Rightarrow> store \<times> (store_error + (edge_id \<rightharpoonup> int))" where
  "UsedByEdge s = followerRead q_UsedByEdge s"

definition MembersByEdge :: "store \<Rightarrow> store \<times> (store_error + (edge_id \<rightharpoonup> int))" where
  "MembersByEdge s = followerRead q_MembersByEdge s"

section \<open>Table invariants\<close>

text \<open>
  The schema: primary keys \<open>pools.id\<close> and \<open>members.prefix\<close>; and what the transactions keep: every
  member belongs to a pool of the table, a body carries its row's id.
\<close>

definition tables_inv :: "tables \<Rightarrow> bool" where
  "tables_inv t \<longleftrightarrow> distinct (map t_id (pools t)) \<and> distinct (map mt_prefix (members t))
     \<and> (\<forall>r \<in> set (members t). mt_pool r \<in> t_id ` set (pools t))
     \<and> (\<forall>r \<in> set (pools t). p_ID (y_Pool (t_body r)) = t_id r)"

lemma row_of_None: "row_of t i = None \<longleftrightarrow> i \<notin> t_id ` set (pools t)"
  by (auto simp: row_of_def find_None_iff)

lemma row_of_Some: "row_of t i = Some r \<Longrightarrow> r \<in> set (pools t) \<and> t_id r = i"
  unfolding row_of_def by (auto simp: find_Some_iff)

lemma row_of_unique:
  assumes "distinct (map t_id (pools t))" "r \<in> set (pools t)"
  shows "row_of t (t_id r) = Some r"
proof (cases "row_of t (t_id r)")
  case None
  then show ?thesis using assms by (auto simp: row_of_None)
next
  case (Some r')
  then have "r' \<in> set (pools t)" "t_id r' = t_id r" using row_of_Some by blast+
  then show ?thesis using assms Some by (auto simp: distinct_map dest: inj_onD)
qed

lemma row_of_iff:
  "distinct (map t_id (pools t)) \<Longrightarrow> row_of t i = Some r \<longleftrightarrow> r \<in> set (pools t) \<and> t_id r = i"
  using row_of_unique row_of_Some by blast

lemma insert_members_Inr:
  "foldE (insert_member i home) t ps = Inr t' \<longleftrightarrow>
     distinct ps \<and> set ps \<inter> mt_prefix ` set (members t) = {} \<and>
     t' = t\<lparr>members := members t @ map (\<lambda>p. \<lparr>mt_prefix = p, mt_pool = i, mt_home = home\<rparr>) ps\<rparr>"
proof (induction ps arbitrary: t)
  case (Cons p ps)
  show ?case
    by (cases "\<exists>r \<in> set (members t). mt_prefix r = p")
       (auto simp: insert_member_def [of i home t p] Cons.IH)
qed auto

lemma insert_members_Inl:
  "foldE (insert_member i home) t ps = Inl e \<Longrightarrow> e = ErrMemberConflict"
  by (induction ps arbitrary: t) (auto simp: insert_member_def split: if_splits)

lemma tx_CreatePool_Inr:
  "tx_CreatePool t rec ms = Inr t' \<longleftrightarrow>
     row_of t (p_ID (y_Pool rec)) = None \<and> distinct (map m_Prefix ms) \<and>
     m_Prefix ` set ms \<inter> mt_prefix ` set (members t) = {} \<and>
     t' = \<lparr>pools = pools t @ [\<lparr>t_id = p_ID (y_Pool rec), t_body = with_home rec, t_home = y_Primary rec,
             t_backup = nullEdge (y_Backup rec), t_cost = y_Tokens rec, t_version = 1,
             t_retiring = False\<rparr>],
           members = members t @ map (\<lambda>m. \<lparr>mt_prefix = m_Prefix m, mt_pool = p_ID (y_Pool rec),
             mt_home = y_Primary rec\<rparr>) ms\<rparr>"
  by (cases t) (auto simp: tx_CreatePool_def Let_def insert_members_Inr with_home_def comp_def)

lemma filter_all_length: "length (filter P xs) < length xs \<longleftrightarrow> (\<exists>x \<in> set xs. \<not> P x)"
proof
  assume "length (filter P xs) < length xs"
  then show "\<exists>x \<in> set xs. \<not> P x" using filter_True [of xs P] by (metis less_irrefl)
qed (auto intro: length_filter_less)

lemma tx_UpdatePool_Inr:
  fixes t rec ms
  defines "i \<equiv> p_ID (y_Pool rec)" and "new \<equiv> m_Prefix ` set ms"
  assumes "tx_UpdatePool t rec ms = Inr t'"
  shows "row_of t i \<noteq> None"
    and "pools t' = pools (set_body t i (with_home rec))"
    and "\<exists>added. members t' = filter (\<lambda>r. mt_pool r = i \<longrightarrow> mt_prefix r \<in> new) (members t) @
           map (\<lambda>p. \<lparr>mt_prefix = p, mt_pool = i, mt_home = y_Primary rec\<rparr>) added
         \<and> distinct added \<and> set added = new - {mt_prefix r |r. r \<in> set (members t) \<and> mt_pool r = i}
         \<and> set added \<inter> mt_prefix ` {r \<in> set (members t). mt_pool r = i \<longrightarrow> mt_prefix r \<in> new} = {}"
proof -
  define cur where "cur = map mt_prefix (filter (\<lambda>r. mt_pool r = i) (members t))"
  define newl where "newl = remdups (map m_Prefix ms)"
  define added where "added = filter (\<lambda>p. p \<notin> set cur) newl"
  define keep where "keep = filter (\<lambda>r. \<not> (mt_pool r = i \<and>
      mt_prefix r \<in> set (filter (\<lambda>p. p \<notin> set newl) cur))) (members t)"
  define fresh where "fresh = filter (\<lambda>p. \<not> (\<exists>r \<in> set keep. mt_prefix r = p)) added"
  have keep: "keep = filter (\<lambda>r. mt_pool r = i \<longrightarrow> mt_prefix r \<in> new) (members t)"
    unfolding keep_def cur_def newl_def new_def by (rule filter_cong) auto
  have i': "p_ID (y_Pool (with_home rec)) = i" "y_Primary (with_home rec) = y_Primary rec"
    "members (set_body t i r) = members t" for r
    by (simp_all add: with_home_def i_def set_body_def)
  have U: "tx_UpdatePool t rec ms =
      (if row_of t i = None then Inl ErrNotFound
       else if length fresh < length added then Inl ErrMemberConflict
       else Inr ((set_body t i (with_home rec))\<lparr>members := keep @
          map (\<lambda>p. \<lparr>mt_prefix = p, mt_pool = i, mt_home = y_Primary rec\<rparr>) fresh\<rparr>))"
    unfolding tx_UpdatePool_def Let_def i' fresh_def keep_def added_def newl_def cur_def by simp
  then have ok: "row_of t i \<noteq> None" and len: "\<not> length fresh < length added"
    and t': "t' = (set_body t i (with_home rec))\<lparr>members := keep @
        map (\<lambda>p. \<lparr>mt_prefix = p, mt_pool = i, mt_home = y_Primary rec\<rparr>) fresh\<rparr>"
    using assms(3) by (auto split: if_splits)
  have free: "\<forall>p \<in> set added. \<not> (\<exists>r \<in> set keep. mt_prefix r = p)"
    using len unfolding fresh_def filter_all_length by blast
  then have fresh: "fresh = added" unfolding fresh_def by (rule filter_True)
  show "row_of t i \<noteq> None" by (rule ok)
  show "pools t' = pools (set_body t i (with_home rec))" by (simp add: t')
  have "set added = new - {mt_prefix r |r. r \<in> set (members t) \<and> mt_pool r = i}"
    by (auto simp: added_def cur_def newl_def new_def)
  moreover have "distinct added" by (simp add: added_def newl_def)
  moreover have "set added \<inter> mt_prefix ` {r \<in> set (members t). mt_pool r = i \<longrightarrow> mt_prefix r \<in> new} = {}"
    using free unfolding keep by auto
  ultimately show "\<exists>added. members t' = filter (\<lambda>r. mt_pool r = i \<longrightarrow> mt_prefix r \<in> new) (members t) @
           map (\<lambda>p. \<lparr>mt_prefix = p, mt_pool = i, mt_home = y_Primary rec\<rparr>) added
         \<and> distinct added \<and> set added = new - {mt_prefix r |r. r \<in> set (members t) \<and> mt_pool r = i}
         \<and> set added \<inter> mt_prefix ` {r \<in> set (members t). mt_pool r = i \<longrightarrow> mt_prefix r \<in> new} = {}"
    by (intro exI [of _ added]) (simp add: t' fresh keep)
qed

lemma pools_set_body:
  "map t_id (pools (set_body t i rec)) = map t_id (pools t)" "members (set_body t i rec) = members t"
  by (auto simp: set_body_def)

lemma set_body_ids:
  "p_ID (y_Pool rec) = i \<Longrightarrow> \<forall>r \<in> set (pools t). p_ID (y_Pool (t_body r)) = t_id r \<Longrightarrow>
   \<forall>r \<in> set (pools (set_body t i rec)). p_ID (y_Pool (t_body r)) = t_id r"
  by (auto simp: set_body_def)

lemma ids_eq: "map t_id xs = map t_id ys \<Longrightarrow> t_id ` set xs = t_id ` set ys"
  by (metis list.set_map)

lemma tx_CreatePool_inv [inv_intros]:
  "tables_inv t \<Longrightarrow> tx_CreatePool t rec ms = Inr t' \<Longrightarrow> tables_inv t'"
  by (auto simp: tables_inv_def tx_CreatePool_Inr row_of_None with_home_def comp_def)

lemma tx_UpdatePool_inv [inv_intros]:
  assumes "tables_inv t" "tx_UpdatePool t rec ms = Inr t'"
  shows "tables_inv t'"
proof -
  let ?i = "p_ID (y_Pool rec)"
  note u = tx_UpdatePool_Inr [OF assms(2)]
  obtain added where m: "members t' = filter (\<lambda>r. mt_pool r = ?i \<longrightarrow> mt_prefix r \<in> m_Prefix ` set ms) (members t) @
           map (\<lambda>p. \<lparr>mt_prefix = p, mt_pool = ?i, mt_home = y_Primary rec\<rparr>) added"
      "distinct added"
      "set added \<inter> mt_prefix ` {r \<in> set (members t). mt_pool r = ?i \<longrightarrow> mt_prefix r \<in> m_Prefix ` set ms} = {}"
    using u(3) by blast
  have ids: "map t_id (pools t') = map t_id (pools t)" by (simp add: u(2) pools_set_body)
  have "distinct (map mt_prefix (members t'))"
    using assms(1) m by (auto simp: tables_inv_def distinct_map_filter comp_def)
  moreover have "\<forall>r \<in> set (members t'). mt_pool r \<in> t_id ` set (pools t')"
    using assms(1) u(1) m unfolding ids_eq [OF ids] by (auto simp: tables_inv_def row_of_None)
  moreover have "\<forall>r \<in> set (pools t'). p_ID (y_Pool (t_body r)) = t_id r"
    unfolding u(2) by (rule set_body_ids) (use assms(1) in \<open>auto simp: tables_inv_def with_home_def\<close>)
  ultimately show ?thesis using assms(1) ids by (simp add: tables_inv_def)
qed

lemma tx_RemoveMember_inv [inv_intros]:
  assumes "tables_inv t" "tx_RemoveMember t i pre = Inr t'"
  shows "tables_inv t'"
proof -
  let ?t = "t\<lparr>members := filter (\<lambda>r. \<not> (mt_prefix r = pre \<and> mt_pool r = i)) (members t)\<rparr>"
  obtain r where r: "row_of ?t i = Some r"
    and t': "t' = set_body ?t i ((t_body r)\<lparr>y_Pool := (y_Pool (t_body r))\<lparr>p_Members :=
        filter (\<lambda>m. m_Prefix m \<noteq> pre) (p_Members (y_Pool (t_body r)))\<rparr>\<rparr>)"
    using assms(2) by (auto simp: tx_RemoveMember_def Let_def split: option.splits)
  have inv: "tables_inv ?t"
    using assms(1) by (auto simp: tables_inv_def distinct_map_filter)
  have "p_ID (y_Pool (t_body r)) = i"
    using row_of_Some [OF r] inv by (auto simp: tables_inv_def)
  then have "\<forall>r \<in> set (pools t'). p_ID (y_Pool (t_body r)) = t_id r"
    unfolding t' by (intro set_body_ids) (use inv in \<open>auto simp: tables_inv_def\<close>)
  moreover have ids: "map t_id (pools t') = map t_id (pools ?t)" unfolding t' by (rule pools_set_body)
  ultimately show ?thesis
    using inv ids_eq [OF ids] by (simp add: tables_inv_def t' pools_set_body)
qed

lemma tx_UpdateCAS_Inr:
  "tx_UpdateCAS t row v np nb nr = Inr t' \<longleftrightarrow>
     (\<exists>r \<in> set (pools t). t_id r = v_PoolID row \<and> t_version r = v) \<and>
     t' = \<lparr>pools = map (\<lambda>r. if t_id r = v_PoolID row \<and> t_version r = v
             then r\<lparr>t_home := np, t_backup := nullEdge nb, t_retiring := (nr \<noteq> []),
                    t_body := with_home \<lparr>y_Pool = v_Pool row, y_Primary = np, y_Backup = nb,
                      y_Tokens = v_Tokens row, y_RetiringEdge = nr\<rparr>,
                    t_version := t_version r + 1\<rparr> else r) (pools t),
           members = (if np \<noteq> v_Primary row \<and> np \<noteq> []
             then map (\<lambda>r. if mt_pool r = v_PoolID row then r\<lparr>mt_home := np\<rparr> else r) (members t)
             else members t)\<rparr>"
  by (cases t) (auto simp: tx_UpdateCAS_def Let_def)

text \<open>The row update of the compare-and-swap statement.\<close>

definition cas_row ::
  "pivot_row \<Rightarrow> int \<Rightarrow> edge_id \<Rightarrow> edge_id \<Rightarrow> edge_id \<Rightarrow> pool_row \<Rightarrow> pool_row"
where
  "cas_row row v np nb nr r = (if t_id r = v_PoolID row \<and> t_version r = v
     then r\<lparr>t_home := np, t_backup := nullEdge nb, t_retiring := (nr \<noteq> []),
            t_body := with_home \<lparr>y_Pool = v_Pool row, y_Primary = np, y_Backup = nb,
              y_Tokens = v_Tokens row, y_RetiringEdge = nr\<rparr>,
            t_version := t_version r + 1\<rparr> else r)"

lemma tx_UpdateCAS_pools:
  "tx_UpdateCAS t row v np nb nr = Inr t' \<Longrightarrow> pools t' = map (cas_row row v np nb nr) (pools t)"
  by (simp add: tx_UpdateCAS_Inr cas_row_def [abs_def])

lemma t_id_cas_row [simp]: "t_id (cas_row row v np nb nr r) = t_id r"
  by (simp add: cas_row_def)

lemma tx_UpdateCAS_ids:
  assumes "tx_UpdateCAS t row v np nb nr = Inr t'"
  shows "map t_id (pools t') = map t_id (pools t)" "map mt_prefix (members t') = map mt_prefix (members t)"
    "map mt_pool (members t') = map mt_pool (members t)"
  using assms by (auto simp: tx_UpdateCAS_Inr)

lemma tx_UpdateCAS_bodies:
  assumes "tx_UpdateCAS t row v np nb nr = Inr t'" "r' \<in> set (pools t')"
    "p_ID (v_Pool row) = v_PoolID row" "\<forall>r \<in> set (pools t). p_ID (y_Pool (t_body r)) = t_id r"
  shows "p_ID (y_Pool (t_body r')) = t_id r'"
proof -
  obtain r where "r \<in> set (pools t)" "r' = r \<or> t_id r' = v_PoolID row \<and> p_ID (y_Pool (t_body r')) = p_ID (v_Pool row)"
    using assms(1,2) by (auto simp: tx_UpdateCAS_Inr with_home_def split: if_splits)
  then show ?thesis using assms(3,4) by auto
qed

lemma tx_UpdateCAS_inv [inv_intros]:
  assumes "tables_inv t" "tx_UpdateCAS t row v np nb nr = Inr t'"
    and "p_ID (v_Pool row) = v_PoolID row"
  shows "tables_inv t'"
proof -
  note ids = tx_UpdateCAS_ids [OF assms(2)]
  have m: "mt_pool ` set (members t') = mt_pool ` set (members t)" using ids(3) by (metis list.set_map)
  have "mt_pool ` set (members t) \<subseteq> t_id ` set (pools t)"
    using assms(1) by (auto simp: tables_inv_def)
  then have "\<forall>r \<in> set (members t'). mt_pool r \<in> t_id ` set (pools t')"
    unfolding ids_eq [OF ids(1)] m [symmetric] image_subset_iff .
  moreover have "\<forall>r \<in> set (pools t'). p_ID (y_Pool (t_body r)) = t_id r"
    using tx_UpdateCAS_bodies [OF assms(2) _ assms(3)] assms(1) by (simp add: tables_inv_def)
  ultimately show ?thesis using assms(1) ids by (simp add: tables_inv_def)
qed

lemma tx_DeleteCAS_inv [inv_intros]:
  assumes "tables_inv t" "tx_DeleteCAS t i v = Inr t'"
  shows "tables_inv t'"
proof -
  obtain r where r: "r \<in> set (pools t)" "t_id r = i" "t_version r = v"
    and t': "t' = t\<lparr>pools := filter (\<lambda>r. \<not> (t_id r = i \<and> t_version r = v)) (pools t),
                    members := filter (\<lambda>r. mt_pool r \<noteq> i) (members t)\<rparr>"
    using assms(2) by (auto simp: tx_DeleteCAS_def Let_def split: if_splits)
  then show ?thesis
    using assms(1) by (auto simp: tables_inv_def distinct_map_filter dest!: bspec)
qed

lemma tx_Delete_inv [inv_intros]:
  assumes "tables_inv t" "tx_Delete t i = Inr t'"
  shows "tables_inv t'"
proof -
  have "mt_pool r \<in> t_id ` {x \<in> set (pools t). t_id x \<noteq> i}"
    if "r \<in> set (members t)" "mt_pool r \<noteq> i" for r
    using assms(1) that by (auto simp: tables_inv_def dest!: bspec)
  then show ?thesis using assms by (auto simp: tables_inv_def tx_Delete_def distinct_map_filter)
qed

section \<open>Optimistic concurrency as an interface\<close>

text \<open>The write operations of the store interface (\<open>orchestrator.YBStore\<close>), as data.\<close>

datatype store_op =
    SCreate yb_record "member list"
  | SUpdate yb_record "member list"
  | SRemove pool_id pfx
  | SCas pivot_row int edge_id edge_id edge_id
  | SDelCas pool_id int
  | SDelete pool_id

fun gate :: "store_op \<Rightarrow> (pool_id \<times> int) option" where
  "gate (SCas row v _ _ _) = Some (v_PoolID row, v)"
| "gate (SDelCas i v) = Some (i, v)"
| "gate _ = None"

fun destroys :: "store_op \<Rightarrow> pool_id \<Rightarrow> bool" where
  "destroys (SDelCas i _) j = (i = j)"
| "destroys (SDelete i) j = (i = j)"
| "destroys _ _ = False"

fun run_ops :: "('s \<Rightarrow> 'op \<Rightarrow> 'e + 's) \<Rightarrow> 's \<Rightarrow> 'op list \<Rightarrow> 's" where
  "run_ops step s [] = s"
| "run_ops step s (op # ops) = run_ops step (case step s op of Inl _ \<Rightarrow> s | Inr s' \<Rightarrow> s') ops"

text \<open>
  What the failover reconciler relies on of a pivot store: a version per pool that only grows
  while the pool exists, and gated writes that succeed only at the version they name.
\<close>

locale version_cas =
  fixes ver :: "'s \<Rightarrow> pool_id \<Rightarrow> int option"
    and step :: "'s \<Rightarrow> store_op \<Rightarrow> store_error + 's"
    and inv :: "'s \<Rightarrow> bool"
  assumes inv_step: "inv s \<Longrightarrow> step s op = Inr s' \<Longrightarrow> inv s'"
    and gate_version: "inv s \<Longrightarrow> step s op = Inr s' \<Longrightarrow> gate op = Some (i, v) \<Longrightarrow>
      ver s i = Some w \<Longrightarrow> w = v"
    and gate_bump: "inv s \<Longrightarrow> step s op = Inr s' \<Longrightarrow> gate op = Some (i, v) \<Longrightarrow>
      \<not> destroys op i \<Longrightarrow> ver s' i = Some (v + 1)"
    and grow: "inv s \<Longrightarrow> step s op = Inr s' \<Longrightarrow> \<not> destroys op i \<Longrightarrow> ver s i = Some v \<Longrightarrow>
      \<exists>v' \<ge> v. ver s' i = Some v'"
begin

lemma run_grow:
  "inv s \<Longrightarrow> \<forall>op \<in> set ops. \<not> destroys op i \<Longrightarrow> ver s i = Some v \<Longrightarrow>
   inv (run_ops step s ops) \<and> (\<exists>v' \<ge> v. ver (run_ops step s ops) i = Some v')"
proof (induction ops arbitrary: s v)
  case (Cons op ops)
  show ?case
  proof (cases "step s op")
    case (Inl e)
    then show ?thesis using Cons by simp
  next
    case (Inr s')
    obtain v' where "v \<le> v'" "ver s' i = Some v'" using grow [OF Cons.prems(1) Inr, of i v] Cons.prems by auto
    moreover have "inv s'" using inv_step Cons.prems(1) Inr by blast
    ultimately show ?thesis using Cons.IH [of s' v'] Cons.prems(2) Inr by (auto intro: order_trans)
  qed
qed auto

lemma single_winner:
  assumes "inv s" "step s op1 = Inr s1" "gate op1 = Some (i, v)" "\<not> destroys op1 i"
    and "\<forall>op \<in> set ops. \<not> destroys op i" "gate op2 = Some (i, v)"
  shows "\<exists>e. step (run_ops step s1 ops) op2 = Inl e"
proof -
  obtain v' where v': "v + 1 \<le> v'" "ver (run_ops step s1 ops) i = Some v'"
    and inv: "inv (run_ops step s1 ops)"
    using run_grow [OF inv_step [OF assms(1,2)] assms(5) gate_bump [OF assms(1-4)]] by auto
  show ?thesis
  proof (cases "step (run_ops step s1 ops) op2")
    case (Inr s2)
    then have "v' = v" using gate_version [OF inv Inr assms(6) v'(2)] by simp
    then show ?thesis using v'(1) by simp
  qed blast
qed

end

definition tx_exec :: "tables \<Rightarrow> store_op \<Rightarrow> store_error + tables" where
  "tx_exec t op = (case op of
      SCreate rec ms \<Rightarrow> tx_CreatePool t rec ms
    | SUpdate rec ms \<Rightarrow> tx_UpdatePool t rec ms
    | SRemove i p \<Rightarrow> tx_RemoveMember t i p
    | SCas row v np nb nr \<Rightarrow> tx_UpdateCAS t row v np nb nr
    | SDelCas i v \<Rightarrow> tx_DeleteCAS t i v
    | SDelete i \<Rightarrow> tx_Delete t i)"

definition version_of :: "tables \<Rightarrow> pool_id \<Rightarrow> int option" where
  "version_of t i = map_option t_version (row_of t i)"

definition keys_ok :: "tables \<Rightarrow> bool" where
  "keys_ok t \<longleftrightarrow> distinct (map t_id (pools t))"

lemma version_of_iff:
  "keys_ok t \<Longrightarrow> version_of t i = Some v \<longleftrightarrow> (\<exists>r \<in> set (pools t). t_id r = i \<and> t_version r = v)"
  by (auto simp: version_of_def keys_ok_def row_of_iff)

lemma RemoveMember_pools:
  assumes "tx_RemoveMember t i pre = Inr t'"
  obtains rec where "pools t' = pools (set_body t i rec)"
proof -
  have "\<exists>rec. pools t' = pools (set_body t i rec)"
    using assms by (auto simp: tx_RemoveMember_def Let_def set_body_def split: option.splits)
  then show thesis using that by blast
qed

lemma set_body_version:
  "keys_ok t \<Longrightarrow> pools t' = pools (set_body t i rec) \<Longrightarrow> version_of t j = Some v \<Longrightarrow>
   version_of t' j = Some (if j = i then v + 1 else v)"
proof -
  assume k: "keys_ok t" and p: "pools t' = pools (set_body t i rec)" and v: "version_of t j = Some v"
  have k': "keys_ok t'" using k unfolding keys_ok_def p pools_set_body .
  obtain r where "r \<in> set (pools t)" "t_id r = j" "t_version r = v" using v version_of_iff [OF k] by blast
  then show "version_of t' j = Some (if j = i then v + 1 else v)"
    unfolding version_of_iff [OF k'] p
    by (intro bexI [of _ "if t_id r = i then r\<lparr>t_body := rec, t_version := t_version r + 1\<rparr> else r"])
       (auto simp: set_body_def)
qed

lemma keys_set_body: "keys_ok t \<Longrightarrow> pools t' = pools (set_body t i rec) \<Longrightarrow> keys_ok t'"
  unfolding keys_ok_def by (simp add: pools_set_body)

lemma cas_version:
  assumes k: "keys_ok t" and u: "tx_UpdateCAS t row v np nb nr = Inr t'"
  shows "keys_ok t'" "version_of t (v_PoolID row) = Some v" "version_of t' (v_PoolID row) = Some (v + 1)"
    and "j \<noteq> v_PoolID row \<Longrightarrow> version_of t' j = version_of t j"
proof -
  note ids = tx_UpdateCAS_ids(1) [OF u]
  show k': "keys_ok t'" using k ids by (simp add: keys_ok_def)
  show v: "version_of t (v_PoolID row) = Some v"
    using u unfolding version_of_iff [OF k] tx_UpdateCAS_Inr by blast
  then obtain r where r: "r \<in> set (pools t)" "t_id r = v_PoolID row" "t_version r = v"
    unfolding version_of_iff [OF k] by blast
  have "cas_row row v np nb nr r \<in> set (pools t')"
      "t_version (cas_row row v np nb nr r) = v + 1"
    using r by (simp_all add: tx_UpdateCAS_pools [OF u] cas_row_def)
  then show "version_of t' (v_PoolID row) = Some (v + 1)"
    unfolding version_of_iff [OF k'] using r(2) by (intro bexI) simp_all
  show "version_of t' j = version_of t j" if j: "j \<noteq> v_PoolID row"
  proof -
    have "find (\<lambda>r. t_id r = j) (map (cas_row row v np nb nr) xs) = find (\<lambda>r. t_id r = j) xs" for xs
      using j by (induction xs) (auto simp: cas_row_def)
    then show ?thesis by (simp add: tx_UpdateCAS_pools [OF u] version_of_def row_of_def)
  qed
qed

lemma tx_exec_keys:
  assumes "keys_ok t" "tx_exec t op = Inr t'"
  shows "keys_ok t'"
proof (cases op)
  case (SCreate rec ms)
  then show ?thesis using assms by (auto simp: tx_exec_def tx_CreatePool_Inr row_of_None keys_ok_def)
next
  case (SUpdate rec ms)
  then show ?thesis
    using assms by (auto simp: tx_exec_def intro: keys_set_body [OF assms(1) tx_UpdatePool_Inr(2)])
next
  case (SRemove j p)
  then show ?thesis
    using assms by (auto simp: tx_exec_def elim: RemoveMember_pools dest: keys_set_body [OF assms(1)])
next
  case (SCas row u np nb nr)
  then show ?thesis using assms by (auto simp: tx_exec_def intro: cas_version(1))
qed (use assms in \<open>auto simp: tx_exec_def tx_DeleteCAS_def tx_Delete_def Let_def keys_ok_def
       distinct_map_filter split: if_splits\<close>)

interpretation sql: version_cas version_of tx_exec keys_ok
proof unfold_locales
  fix t t' :: tables and op i and v w :: int
  assume k: "keys_ok t" and x: "tx_exec t op = Inr t'"
  show "keys_ok t'" by (rule tx_exec_keys [OF k x])
  show "w = v" if g: "gate op = Some (i, v)" and w: "version_of t i = Some w"
  proof (cases op)
    case (SCas row u np nb nr)
    then show ?thesis using g w x cas_version(2) [OF k] by (auto simp: tx_exec_def)
  next
    case (SDelCas j u)
    then have "version_of t i = Some v"
      using g x unfolding version_of_iff [OF k] by (auto simp: tx_exec_def tx_DeleteCAS_def Let_def split: if_splits)
    then show ?thesis using w by simp
  qed (use g in simp_all)
  show "version_of t' i = Some (v + 1)" if "gate op = Some (i, v)" "\<not> destroys op i"
    using x that cas_version(3) [OF k] by (cases op) (auto simp: tx_exec_def)
  show "\<exists>v' \<ge> v. version_of t' i = Some v'" if nd: "\<not> destroys op i" and v: "version_of t i = Some v"
  proof (cases op)
    case (SCreate rec ms)
    then have "set (pools t) \<subseteq> set (pools t')" using x by (auto simp: tx_exec_def tx_CreatePool_Inr)
    then have "version_of t' i = Some v"
      using v unfolding version_of_iff [OF k] version_of_iff [OF tx_exec_keys [OF k x]] by blast
    then show ?thesis by blast
  next
    case (SUpdate rec ms)
    then have "pools t' = pools (set_body t (p_ID (y_Pool rec)) (with_home rec))"
      using x tx_UpdatePool_Inr(2) by (simp add: tx_exec_def)
    from set_body_version [OF k this v] show ?thesis by auto
  next
    case (SRemove j p)
    then obtain rec where "pools t' = pools (set_body t j rec)"
      using x by (auto simp: tx_exec_def elim: RemoveMember_pools)
    from set_body_version [OF k this v] show ?thesis by auto
  next
    case (SCas row u np nb nr)
    then have "tx_UpdateCAS t row u np nb nr = Inr t'" using x by (simp add: tx_exec_def)
    from cas_version [OF k this] v show ?thesis by (cases "i = v_PoolID row") auto
  next
    case (SDelCas j u)
    then have "{r \<in> set (pools t). t_id r = i} \<subseteq> set (pools t')"
      using x nd by (auto simp: tx_exec_def tx_DeleteCAS_def Let_def split: if_splits)
    then have "version_of t' i = Some v"
      using v unfolding version_of_iff [OF k] version_of_iff [OF tx_exec_keys [OF k x]] by blast
    then show ?thesis by blast
  next
    case (SDelete j)
    then have "{r \<in> set (pools t). t_id r = i} \<subseteq> set (pools t')"
      using x nd by (auto simp: tx_exec_def tx_Delete_def)
    then have "version_of t' i = Some v"
      using v unfolding version_of_iff [OF k] version_of_iff [OF tx_exec_keys [OF k x]] by blast
    then show ?thesis by blast
  qed
qed

section \<open>Properties of the transactions\<close>

text \<open>
  C1: No double failover. Once a version-gated pivot write (\<open>UpdateCAS\<close>) at version v has
  succeeded, no other write gated on v (a second promote, or the double-death tear-down
  \<open>DeleteCAS\<close>) can succeed, whatever writes other coverers interleave, unless the pool is deleted
  in between.
\<close>

theorem no_double_failover:
  assumes "keys_ok t" "tx_exec t (SCas row v np nb nr) = Inr t1"
    and "\<forall>op \<in> set ops. \<not> destroys op (v_PoolID row)"
    and "gate op2 = Some (v_PoolID row, v)"
  shows "\<exists>e. tx_exec (run_ops tx_exec t1 ops) op2 = Inl e"
  using sql.single_winner [OF assms(1,2) _ _ assms(3,4)] by simp

text \<open>An operation of the interface names the pool its pivot row belongs to.\<close>

fun wf_op :: "store_op \<Rightarrow> bool" where
  "wf_op (SCas row _ _ _ _) = (p_ID (v_Pool row) = v_PoolID row)"
| "wf_op _ = True"

lemma tx_exec_inv:
  assumes "tables_inv t" "wf_op op" "tx_exec t op = Inr t'"
  shows "tables_inv t'"
  using assms by (cases op) (auto simp: tx_exec_def intro: inv_intros)

text \<open>
  C12: Integrity of the tables. Every history of store operations, failing ones included, keeps
  the primary keys (one row per pool id, one claim per member prefix), references
  only existing pools and keeps bodies under their own id; a member prefix is therefore never
  claimed by two pools.
\<close>

theorem tables_stay_consistent:
  assumes "tables_inv t" "\<forall>op \<in> set ops. wf_op op"
  shows "tables_inv (run_ops tx_exec t ops)"
  using assms
proof (induction ops arbitrary: t)
  case (Cons op ops)
  then show ?case using tx_exec_inv [of t op] by (cases "tx_exec t op") auto
qed simp

definition mem_keys :: "tables \<Rightarrow> pool_id \<Rightarrow> pfx set" where
  "mem_keys t i = {mt_prefix r |r. r \<in> set (members t) \<and> mt_pool r = i}"

lemma UpdatePool_sync:
  assumes "tables_inv t" "tx_UpdatePool t rec ms = Inr t'"
  shows "mem_keys t' (p_ID (y_Pool rec)) = m_Prefix ` set ms
    \<and> (\<forall>j. j \<noteq> p_ID (y_Pool rec) \<longrightarrow> filter (\<lambda>r. mt_pool r = j) (members t') =
           filter (\<lambda>r. mt_pool r = j) (members t))
    \<and> (\<forall>r \<in> set (members t). mt_pool r = p_ID (y_Pool rec) \<and> mt_prefix r \<in> m_Prefix ` set ms \<longrightarrow>
           r \<in> set (members t'))
    \<and> version_of t' (p_ID (y_Pool rec)) = map_option (\<lambda>v. v + 1) (version_of t (p_ID (y_Pool rec)))"
proof -
  let ?i = "p_ID (y_Pool rec)"
  note u = tx_UpdatePool_Inr [OF assms(2)]
  obtain added where m: "members t' = filter (\<lambda>r. mt_pool r = ?i \<longrightarrow> mt_prefix r \<in> m_Prefix ` set ms) (members t) @
           map (\<lambda>p. \<lparr>mt_prefix = p, mt_pool = ?i, mt_home = y_Primary rec\<rparr>) added"
      "set added = m_Prefix ` set ms - {mt_prefix r |r. r \<in> set (members t) \<and> mt_pool r = ?i}"
    using u(3) by blast
  have "mem_keys t' ?i = {mt_prefix r |r. r \<in> set (members t) \<and> mt_pool r = ?i \<and> mt_prefix r \<in> m_Prefix ` set ms}
      \<union> set added" (is "?l = ?r")
  proof
    show "?l \<subseteq> ?r" unfolding mem_keys_def m(1) by auto
    have "x \<in> ?l" if "x \<in> set added" for x
      unfolding mem_keys_def m(1) using that
      by (intro CollectI exI [of _ "\<lparr>mt_prefix = x, mt_pool = ?i, mt_home = y_Primary rec\<rparr>"]) simp
    then show "?r \<subseteq> ?l" unfolding mem_keys_def m(1) by auto
  qed
  also have "\<dots> = m_Prefix ` set ms" unfolding m(2) by (auto, metis image_eqI)
  finally have sync: "mem_keys t' ?i = m_Prefix ` set ms" .
  have others: "filter (\<lambda>r. mt_pool r = j) (members t') = filter (\<lambda>r. mt_pool r = j) (members t)"
    if "j \<noteq> ?i" for j
    unfolding m(1) using that by (auto simp: filter_map comp_def intro: filter_cong)
  have k: "keys_ok t" using assms(1) by (simp add: tables_inv_def keys_ok_def)
  obtain v where v: "version_of t ?i = Some v" using u(1) by (auto simp: version_of_def)
  have "version_of t' ?i = Some (v + 1)" using set_body_version [OF k u(2) v] by simp
  then show ?thesis using sync others v unfolding m(1) by auto
qed

lemma UpdatePool_claims:
  assumes "tables_inv t" "tx_UpdatePool t rec ms = Inr t'"
  shows "mem_keys t' (p_ID (y_Pool rec)) = m_Prefix ` set ms
    \<and> (\<forall>j. j \<noteq> p_ID (y_Pool rec) \<longrightarrow> mem_keys t' j = mem_keys t j)"
proof -
  have k: "mem_keys x j = mt_prefix ` set (filter (\<lambda>r. mt_pool r = j) (members x))" for x j
    by (auto simp: mem_keys_def)
  show ?thesis using UpdatePool_sync [OF assms] by (simp add: k)
qed

text \<open>
  \<open>UpdatePool\<close>'s incremental diff is a full synchronisation: it succeeds iff the pool exists
  and no new prefix is claimed by another pool; the pool's claims are then exactly the new
  member set, every other pool's claims are untouched, and an unchanged member keeps its row.
\<close>

theorem UpdatePool_syncs_members:
  assumes "tables_inv t" "tx_UpdatePool t rec ms = Inr t'"
  shows "mem_keys t' (p_ID (y_Pool rec)) = m_Prefix ` set ms
    \<and> (\<forall>j. j \<noteq> p_ID (y_Pool rec) \<longrightarrow> filter (\<lambda>r. mt_pool r = j) (members t') =
           filter (\<lambda>r. mt_pool r = j) (members t))
    \<and> (\<forall>r \<in> set (members t). mt_pool r = p_ID (y_Pool rec) \<and> mt_prefix r \<in> m_Prefix ` set ms \<longrightarrow>
           r \<in> set (members t'))
    \<and> version_of t' (p_ID (y_Pool rec)) = map_option (\<lambda>v. v + 1) (version_of t (p_ID (y_Pool rec)))"
  by (rule UpdatePool_sync [OF assms])

section \<open>The overlap search is complete\<close>

text \<open>The member granularity the API admits: a v4 host, a masked v4 /24, a v6 host.\<close>

definition granular :: "pfx \<Rightarrow> bool" where
  "granular p \<longleftrightarrow> (Is4 (pAddr p) \<and> pBits p = 32)
     \<or> (Is4 (pAddr p) \<and> pBits p = 24 \<and> mask_addr 24 (pAddr p) = pAddr p)
     \<or> (Is6 (pAddr p) \<and> pBits p = 128)"

lemma granular_valid: "granular p \<Longrightarrow> pfx_IsValid p"
  by (cases "pAddr p") (auto simp: granular_def pfx_IsValid_def)

lemma keep_top_full: "keep_top (int LENGTH('a)) (w :: 'a::len word) = w"
  by (simp add: keep_top_def)

lemma mask_addr_full: "mask_addr (BitLen a) a = a"
  using keep_top_full [where 'a = 32] keep_top_full [where 'a = 128] by (cases a) auto

lemma keep_top_24_octets:
  fixes w w' :: "32 word"
  assumes "keep_top 24 w = keep_top 24 w'"
  shows "uint w div 2 ^ 8 = uint w' div 2 ^ 8"
proof -
  have "drop_bit 8 (keep_top 24 x) = drop_bit 8 x" for x :: "32 word"
    by (rule bit_word_eqI) (auto simp: keep_top_def bit_simps dest: bit_imp_le_length)
  then have "drop_bit 8 w = drop_bit 8 w'" by (metis assms)
  then have "uint (drop_bit 8 w) = uint (drop_bit 8 w')" by simp
  then show ?thesis by (simp add: drop_bit_eq_div uint_div)
qed

text \<open>A host inside a /24 prints with the /24's three leading octets.\<close>

lemma like_prefix_matches:
  assumes p: "pAddr p = V4 w" "pBits p = 24" and m: "pAddr m = V4 w'" "pBits m = 32"
    and "keep_top 24 w = keep_top 24 w'"
  shows "\<exists>lp. like_prefix p = Some lp \<and> prefix lp (pfx_String m)"
proof -
  have d: "uint w div 2 ^ 8 = uint w' div 2 ^ 8" by (rule keep_top_24_octets) fact
  have "uint x div 2 ^ 16 = uint x div 2 ^ 8 div 2 ^ 8" "uint x div 2 ^ 24 = uint x div 2 ^ 8 div 2 ^ 16"
    for x :: "32 word" by (simp_all add: zdiv_zmult2_eq [symmetric])
  then have "uint w div 2 ^ 16 = uint w' div 2 ^ 16" "uint w div 2 ^ 24 = uint w' div 2 ^ 24"
    using d by simp_all
  then show ?thesis
    using d p m by (auto simp: like_prefix_def Let_def pfx_String_def pfx_IsValid_def string4_def)
qed

definition is_candidate :: "pfx list \<Rightarrow> pfx \<Rightarrow> bool" where
  "is_candidate ps m \<longleftrightarrow> (\<exists>p \<in> set ps. m \<in> set (conflict_keys p)
     \<or> (\<exists>lp. like_prefix p = Some lp \<and> prefix lp (pfx_String m)))"

lemma overlap_is_candidate:
  assumes "granular m" "granular p" "p \<in> set ps" "Overlaps m p"
  shows "is_candidate ps m"
proof -
  have o: "Is4 (pAddr m) = Is4 (pAddr p)"
      "mask_addr (min (pBits m) (pBits p)) (pAddr m) = mask_addr (min (pBits m) (pBits p)) (pAddr p)"
    using assms(4) Overlaps_iff [of m p] granular_valid assms(1,2) by auto
  have full: "pBits x = BitLen (pAddr x) \<Longrightarrow> mask_addr (pBits x) (pAddr x) = pAddr x" for x :: pfx
    by (simp add: mask_addr_full)
  show ?thesis
  proof (cases "pBits m = pBits p")
    case True
    have "pAddr m = pAddr p"
    proof (cases "pBits m = 24")
      case True
      then show ?thesis using o \<open>pBits m = pBits p\<close> assms(1,2)
        by (cases "pAddr m"; cases "pAddr p") (auto simp: granular_def)
    next
      case False
      have "pBits x = BitLen (pAddr x)" if "granular x" "pBits x \<noteq> 24" for x
        using that by (cases "pAddr x") (auto simp: granular_def)
      then have "pBits m = BitLen (pAddr m)" "pBits p = BitLen (pAddr p)"
        using assms(1,2) False True by simp_all
      then show ?thesis using o(2) True full [of m] full [of p] by simp
    qed
    then have "m = p" using True by (cases m; cases p) simp
    then show ?thesis using assms(3) by (auto simp: is_candidate_def conflict_keys_def)
  next
    case False
    then obtain w w' where ww: "pAddr m = V4 w" "pAddr p = V4 w'"
      using assms(1,2) o(1) by (cases "pAddr m"; cases "pAddr p") (auto simp: granular_def)
    then have bits: "pBits m = 32 \<and> pBits p = 24 \<or> pBits m = 24 \<and> pBits p = 32"
      using assms(1,2) False by (auto simp: granular_def)
    then have k: "keep_top 24 w = keep_top 24 w'" using o(2) ww by auto
    from bits show ?thesis
    proof
      assume "pBits m = 32 \<and> pBits p = 24"
      then show ?thesis
        using like_prefix_matches [of p w' m w] ww k assms(3) by (auto simp: is_candidate_def)
    next
      assume b: "pBits m = 24 \<and> pBits p = 32"
      have "pAddr m = mask_addr 24 (pAddr p)"
        using assms(1) b ww k by (auto simp: granular_def)
      then have "m = Masked (PrefixFrom (pAddr p) 24)"
        using b ww by (cases m) (auto simp: Masked_def PrefixFrom_def pfx_IsValid_def)
      then show ?thesis
        unfolding is_candidate_def using b ww
        by (intro bexI [OF _ assms(3)]) (simp add: conflict_keys_def)
    qed
  qed
qed

text \<open>The rows the fold keeps: of other pools, overlapping some input, each prefix once.\<close>

definition is_conflict :: "pfx list \<Rightarrow> pool_id \<Rightarrow> member_row \<Rightarrow> bool" where
  "is_conflict ps ex r \<longleftrightarrow> mt_pool r \<noteq> ex \<and> (\<exists>p \<in> set ps. Overlaps (mt_prefix r) p)"

definition conflict_of :: "member_row \<Rightarrow> conflict" where
  "conflict_of r = \<lparr>cf_Prefix = mt_prefix r, cf_PoolID = mt_pool r\<rparr>"

lemma add_conflict_fold:
  assumes "inj_on mt_prefix M" "set rs \<subseteq> M" "set out = conflict_of ` {r \<in> S. is_conflict ps ex r}" "S \<subseteq> M"
    and "distinct (map cf_Prefix out)"
  shows "set (foldl (add_conflict ps ex) out rs) = conflict_of ` {r \<in> S \<union> set rs. is_conflict ps ex r}
    \<and> distinct (map cf_Prefix (foldl (add_conflict ps ex) out rs))"
  using assms(2-)
proof (induction rs arbitrary: out S)
  case (Cons r rs)
  have dup: "r \<in> S" if d: "mt_prefix r \<in> cf_Prefix ` set out"
  proof -
    obtain r' where "r' \<in> S" "mt_prefix r' = mt_prefix r" "r' \<in> M"
      using d Cons.prems(2,3) by (auto simp: conflict_of_def)
    then show ?thesis using inj_onD [OF assms(1), of r' r] Cons.prems(1) by auto
  qed
  have step: "set (add_conflict ps ex out r) = conflict_of ` {x \<in> insert r S. is_conflict ps ex x}
      \<and> distinct (map cf_Prefix (add_conflict ps ex out r))"
  proof (cases "is_conflict ps ex r \<and> mt_prefix r \<notin> cf_Prefix ` set out")
    case True
    then have "add_conflict ps ex out r = out @ [conflict_of r]"
      by (auto simp: add_conflict_def is_conflict_def conflict_of_def)
    moreover have "{x \<in> insert r S. is_conflict ps ex x} = insert r {x \<in> S. is_conflict ps ex x}"
      using True by auto
    ultimately show ?thesis
      using True Cons.prems(2,4) by (auto simp: conflict_of_def)
  next
    case False
    then have "add_conflict ps ex out r = out"
      by (auto simp: add_conflict_def is_conflict_def)
    moreover have "{x \<in> insert r S. is_conflict ps ex x} = {x \<in> S. is_conflict ps ex x}"
      using False dup by auto
    ultimately show ?thesis using Cons.prems(2,4) by simp
  qed
  show ?case
    using Cons.IH [of "add_conflict ps ex out r" "insert r S"] step Cons.prems by auto
qed simp

lemma add_conflict_folds:
  assumes "inj_on mt_prefix (set M)" "set out = conflict_of ` {r \<in> S. is_conflict ps ex r}" "S \<subseteq> set M"
    and "distinct (map cf_Prefix out)"
  shows "set (foldl (\<lambda>out lp. foldl (add_conflict ps ex) out
            (filter (\<lambda>r. prefix lp (pfx_String (mt_prefix r))) M)) out likes) =
         conflict_of ` {r \<in> S \<union> {r \<in> set M. \<exists>lp \<in> set likes. prefix lp (pfx_String (mt_prefix r))}.
            is_conflict ps ex r}
    \<and> distinct (map cf_Prefix (foldl (\<lambda>out lp. foldl (add_conflict ps ex) out
            (filter (\<lambda>r. prefix lp (pfx_String (mt_prefix r))) M)) out likes))"
  using assms(2-)
proof (induction likes arbitrary: out S)
  case (Cons lp likes)
  let ?rs = "filter (\<lambda>r. prefix lp (pfx_String (mt_prefix r))) M"
  let ?rest = "\<lambda>lps. {r \<in> set M. \<exists>lp \<in> set lps. prefix lp (pfx_String (mt_prefix r))}"
  have st: "set (foldl (add_conflict ps ex) out ?rs) = conflict_of ` {r \<in> S \<union> set ?rs. is_conflict ps ex r}"
    "distinct (map cf_Prefix (foldl (add_conflict ps ex) out ?rs))"
    using add_conflict_fold [OF assms(1) _ Cons.prems(1,2,3), of ?rs] by auto
  have sub: "S \<union> set ?rs \<subseteq> set M" using Cons.prems(2) by auto
  have "S \<union> set ?rs \<union> ?rest likes = S \<union> ?rest (lp # likes)" by auto
  then show ?case using Cons.IH [OF st(1) sub st(2)] by simp
qed simp

lemma MemberConflicts_rows:
  assumes "tables_inv t"
  shows "set (q_MemberConflicts t ps ex) =
      conflict_of ` {r \<in> set (members t). is_candidate ps (mt_prefix r) \<and> is_conflict ps ex r}
    \<and> distinct (map cf_Prefix (q_MemberConflicts t ps ex))"
proof -
  let ?M = "members t"
  let ?keys = "remdups (concat (map conflict_keys ps))"
  let ?likes = "List.map_filter like_prefix ps"
  let ?S = "{r \<in> set ?M. mt_prefix r \<in> set ?keys}"
  have inj: "inj_on mt_prefix (set ?M)" using assms by (simp add: tables_inv_def distinct_map)
  let ?o1 = "foldl (add_conflict ps ex) [] (filter (\<lambda>r. mt_prefix r \<in> set ?keys) ?M)"
  let ?o2 = "foldl (\<lambda>out lp. foldl (add_conflict ps ex) out
            (filter (\<lambda>r. prefix lp (pfx_String (mt_prefix r))) ?M)) ?o1 ?likes"
  have o1: "set ?o1 = conflict_of ` {r \<in> ?S. is_conflict ps ex r}" "distinct (map cf_Prefix ?o1)"
    using add_conflict_fold [OF inj, of "filter (\<lambda>r. mt_prefix r \<in> set ?keys) ?M" "[]" "{}" ps ex]
    by auto
  have o2: "set ?o2 = conflict_of ` {r \<in> ?S \<union> {r \<in> set ?M. \<exists>lp \<in> set ?likes. prefix lp (pfx_String (mt_prefix r))}.
            is_conflict ps ex r}" "distinct (map cf_Prefix ?o2)"
    by (rule add_conflict_folds [OF inj o1(1) _ o1(2), THEN conjunct1], blast)
       (rule add_conflict_folds [OF inj o1(1) _ o1(2), THEN conjunct2], blast)
  have likes: "(\<exists>lp \<in> set ?likes. Q lp) \<longleftrightarrow> (\<exists>p \<in> set ps. \<exists>lp. like_prefix p = Some lp \<and> Q lp)" for Q
    by (induction ps) (auto simp: List.map_filter_simps split: option.splits)
  have "{r \<in> ?S \<union> {r \<in> set ?M. \<exists>lp \<in> set ?likes. prefix lp (pfx_String (mt_prefix r))}. is_conflict ps ex r} =
      {r \<in> set ?M. is_candidate ps (mt_prefix r) \<and> is_conflict ps ex r}"
    unfolding is_candidate_def likes by auto
  moreover have "q_MemberConflicts t ps ex = sort_by (less_key (\<lambda>c. pfx_String (cf_Prefix c))) ?o2"
    by (simp add: q_MemberConflicts_def Let_def)
  moreover have "distinct (map cf_Prefix (sort_by lt ?o2))" for lt
    using o2(2) by simp
  ultimately show ?thesis using o2(1) by simp
qed

text \<open>
  C13: The candidate-key search for overlapping members is equivalent to scanning the whole table
  with \<open>Overlaps\<close>: for prefixes of the admitted granularity it returns exactly the
  claims of other pools that share an address with one of the inputs, each once.
\<close>

theorem MemberConflicts_complete:
  assumes "tables_inv t" "\<forall>r \<in> set (members t). granular (mt_prefix r)" "\<forall>p \<in> set ps. granular p"
  shows "set (q_MemberConflicts t ps ex) =
      {\<lparr>cf_Prefix = mt_prefix r, cf_PoolID = mt_pool r\<rparr> |r. r \<in> set (members t) \<and> mt_pool r \<noteq> ex
         \<and> (\<exists>p \<in> set ps. addrs_of (mt_prefix r) \<inter> addrs_of p \<noteq> {})}
    \<and> distinct (map cf_Prefix (q_MemberConflicts t ps ex))"
proof -
  have o: "Overlaps (mt_prefix r) p \<longleftrightarrow> addrs_of (mt_prefix r) \<inter> addrs_of p \<noteq> {}"
    if "r \<in> set (members t)" "p \<in> set ps" for r p
    using that assms(2,3) by (simp add: Overlaps_meaning granular_valid)
  have "is_candidate ps (mt_prefix r)" if "r \<in> set (members t)" "is_conflict ps ex r" for r
    using that assms(2,3) overlap_is_candidate by (auto simp: is_conflict_def)
  then have "conflict_of ` {r \<in> set (members t). is_candidate ps (mt_prefix r) \<and> is_conflict ps ex r} =
      {conflict_of r |r. r \<in> set (members t) \<and> is_conflict ps ex r}" by auto
  also have "\<dots> = {conflict_of r |r. r \<in> set (members t) \<and> mt_pool r \<noteq> ex
         \<and> (\<exists>p \<in> set ps. addrs_of (mt_prefix r) \<inter> addrs_of p \<noteq> {})}"
    unfolding is_conflict_def using o by blast
  finally show ?thesis
    using MemberConflicts_rows [OF assms(1), of ps ex] unfolding conflict_of_def by simp
qed

section \<open>Faults\<close>

text \<open>
  Store writes are atomic under faults: whatever fault strikes, the tables afterwards are
  either untouched or the result of the whole transaction; a write that reports success
  applied it, a write refused by the transaction's own guards changed nothing, and only a lost
  commit acknowledgement can report an error for a write that took effect.
\<close>

theorem store_writes_are_atomic:
  assumes "write_tx tx s = (s', res)"
  shows "(tabs s' = tabs s \<or> tx (tabs s) = Inr (tabs s'))
    \<and> (res = Inr () \<longrightarrow> tx (tabs s) = Inr (tabs s'))
    \<and> (tx (tabs s) = Inl e \<longrightarrow> tabs s' = tabs s \<and> res \<noteq> Inr ())
    \<and> ((\<forall>m. Some (AckLost m) \<notin> set (faults s)) \<and> res \<noteq> Inr () \<longrightarrow> tabs s' = tabs s)
    \<and> snap s' = snap s"
  using assms
  by (cases "faults s"; cases "tx (tabs s)")
     (auto simp: write_tx_def next_fault_def split: fault.splits option.splits)

text \<open>
  A follower read answers from the snapshot as long as at most \<open>maxReadRetries\<close> read restarts
  precede the attempt that gets through, and gives up with an error after that; it never changes
  the tables.
\<close>

theorem followerRead_retries:
  fixes q :: "tables \<Rightarrow> 'a"
  assumes "faults s = replicate k (Some ReadRestart) @ None # rest"
  shows "snd (followerRead q s) = (if k \<le> maxReadRetries then Inr (q (snap s)) else Inl (ErrDB ''read''))
    \<and> tabs (fst (followerRead q s)) = tabs s"
proof -
  have "snd (follower_loop n q s) = (if k \<le> n then Inr (q (snap s)) else Inl (ErrDB ''read''))
      \<and> tabs (fst (follower_loop n q s)) = tabs s"
    if "faults s = replicate k (Some ReadRestart) @ None # rest" for n k and s :: store
    using that
  proof (induction n arbitrary: k s)
    case 0
    then show ?case by (cases k) (auto simp: followerReadOnce_def next_fault_def)
  next
    case (Suc n)
    show ?case
    proof (cases k)
      case (Suc j)
      then have "followerReadOnce q s = (s\<lparr>faults := replicate j (Some ReadRestart) @ None # rest\<rparr>, Inl ReadRestart)"
        using Suc.prems by (simp add: followerReadOnce_def next_fault_def)
      then show ?thesis
        using Suc.IH [of "s\<lparr>faults := replicate j (Some ReadRestart) @ None # rest\<rparr>" j] \<open>k = Suc j\<close> by simp
    qed (use Suc.prems in \<open>simp add: followerReadOnce_def next_fault_def\<close>)
  qed
  then show ?thesis using assms by (simp add: followerRead_def)
qed

section \<open>The cost column and UpdatePool\<close>

lemma find_map_id:
  "(\<And>r. t_id (f r) = t_id r) \<Longrightarrow>
   find (\<lambda>r. t_id r = i) (map f xs) = map_option f (find (\<lambda>r. t_id r = i) xs)"
  by (induction xs) auto

text \<open>
  \<open>UpdatePool\<close> writes the new token cost into the body only: the per-edge usage the placement
  reads (\<open>SUM(cost)\<close>) does not change whatever cost the update carries, and the next pivot
  write rebuilds the body with the old cost.
\<close>

theorem UpdatePool_ignores_new_cost:
  assumes "tx_UpdatePool t rec ms = Inr t'" "keys_ok t"
  shows "q_UsedByEdge t' = q_UsedByEdge t
    \<and> map_option y_Tokens (q_Get t' (p_ID (y_Pool rec))) = Some (y_Tokens rec)
    \<and> map_option v_Tokens (q_GetForReconcile t' (p_ID (y_Pool rec))) =
        map_option v_Tokens (q_GetForReconcile t (p_ID (y_Pool rec)))"
proof -
  let ?i = "p_ID (y_Pool rec)"
  let ?f = "\<lambda>r. if t_id r = ?i then r\<lparr>t_body := with_home rec, t_version := t_version r + 1\<rparr> else r"
  note u = tx_UpdatePool_Inr [OF assms(1)]
  have p: "pools t' = map ?f (pools t)" using u(2) by (simp add: set_body_def)
  have hc: "map (\<lambda>r. (t_home r, t_cost r)) (pools t') = map (\<lambda>r. (t_home r, t_cost r)) (pools t)"
    unfolding p by simp
  have used: "q_UsedByEdge x e = (if e \<in> set (map fst (map (\<lambda>r. (t_home r, t_cost r)) (pools x)))
      then Some (sum_list (map snd (filter (\<lambda>hc. fst hc = e) (map (\<lambda>r. (t_home r, t_cost r)) (pools x)))))
      else None)" for x e
    by (auto simp: q_UsedByEdge_def filter_map comp_def)
  have "q_UsedByEdge t' = q_UsedByEdge t" unfolding fun_eq_iff used hc by simp
  moreover obtain r where r: "row_of t ?i = Some r" using u(1) by auto
  moreover have "row_of t' ?i = map_option ?f (row_of t ?i)"
    unfolding row_of_def p by (rule find_map_id) simp
  ultimately show ?thesis
    using row_of_Some [OF r] by (simp add: q_Get_def q_GetForReconcile_def with_home_def)
qed

section \<open>A concrete history\<close>

definition demo_yb_pool :: "pool_id \<Rightarrow> pfx list \<Rightarrow> pool" where
  "demo_yb_pool i ps = \<lparr>p_ID = i, p_Members = map (\<lambda>p. \<lparr>m_Prefix = p\<rparr>) ps,
     p_IngressRate = \<lparr>r_Type = RateKbps, r_CIR = 1000, r_CommittedBurstBytes = 0, r_CommittedBurstPackets = 0\<rparr>,
     p_EgressRate = \<lparr>r_Type = RateKbps, r_CIR = 1000, r_CommittedBurstBytes = 0, r_CommittedBurstPackets = 0\<rparr>,
     p_Action = \<lparr>a_Kind = ActionRateLimit, a_ExpiryUnixMs = 0, a_RTBHCommunity = None, a_RTBHLargeCommunity = None\<rparr>,
     p_BindWorker = 0, p_HomeEdge = []\<rparr>"

definition demo_yb_rec :: "pool_id \<Rightarrow> pfx list \<Rightarrow> int \<Rightarrow> yb_record" where
  "demo_yb_rec i ps tok = \<lparr>y_Pool = demo_yb_pool i ps, y_Primary = ''e1'', y_Backup = ''e2'',
     y_Tokens = tok, y_RetiringEdge = []\<rparr>"

definition host4 :: "32 word \<Rightarrow> pfx" where
  "host4 w = \<lparr>pAddr = V4 w, pBits = 32\<rparr>"

definition demo_tables :: tables where
  "demo_tables = (case tx_CreatePool \<lparr>pools = [], members = []\<rparr> (demo_yb_rec 1 [host4 5] 100)
     [\<lparr>m_Prefix = host4 5\<rparr>] of Inr t \<Rightarrow> t | Inl _ \<Rightarrow> \<lparr>pools = [], members = []\<rparr>)"

lemma demo_create:
  "tx_CreatePool \<lparr>pools = [], members = []\<rparr> (demo_yb_rec 1 [host4 5] 100) [\<lparr>m_Prefix = host4 5\<rparr>] = Inr demo_tables"
  by (simp add: demo_tables_def tx_CreatePool_def row_of_def insert_member_def demo_yb_rec_def
      demo_yb_pool_def with_home_def Let_def)

lemma demo_tables_eq:
  "demo_tables = \<lparr>pools = [\<lparr>t_id = 1, t_body = with_home (demo_yb_rec 1 [host4 5] 100), t_home = ''e1'',
       t_backup = Some ''e2'', t_cost = 100, t_version = 1, t_retiring = False\<rparr>],
     members = [\<lparr>mt_prefix = host4 5, mt_pool = 1, mt_home = ''e1''\<rparr>]\<rparr>"
  using demo_create by (simp add: tx_CreatePool_Inr demo_yb_rec_def demo_yb_pool_def nullEdge_def)

lemma demo_tables_inv: "tables_inv demo_tables" "keys_ok demo_tables"
  by (simp_all add: demo_tables_eq tables_inv_def keys_ok_def with_home_def demo_yb_rec_def demo_yb_pool_def)

definition demo_pivot :: pivot_row where
  "demo_pivot = \<lparr>v_Pool = demo_yb_pool 1 [host4 5], v_PoolID = 1, v_Primary = ''e1'', v_Backup = ''e2'',
     v_Retiring = [], v_Tokens = 100, v_Version = 1\<rparr>"

lemma demo_cas: "\<exists>t1. tx_exec demo_tables (SCas demo_pivot 1 ''e2'' [] ''e1'') = Inr t1"
  by (simp add: tx_exec_def tx_UpdateCAS_Inr demo_tables_eq demo_pivot_def)

theorem no_double_failover_witness:
  "\<exists>t1. tx_exec demo_tables (SCas demo_pivot 1 ''e2'' [] ''e1'') = Inr t1 \<and>
     (\<exists>e. tx_exec (run_ops tx_exec t1 [SRemove 1 (host4 5)]) (SCas demo_pivot 1 ''e3'' [] ''e1'') = Inl e)"
proof -
  from demo_cas obtain t1 where t1: "tx_exec demo_tables (SCas demo_pivot 1 ''e2'' [] ''e1'') = Inr t1" ..
  have "\<exists>e. tx_exec (run_ops tx_exec t1 [SRemove 1 (host4 5)]) (SCas demo_pivot 1 ''e3'' [] ''e1'') = Inl e"
    by (rule no_double_failover [OF demo_tables_inv(2) t1]) (simp_all add: demo_pivot_def)
  with t1 show ?thesis by blast
qed

theorem tables_stay_consistent_witness:
  "tables_inv (run_ops tx_exec demo_tables
     [SCreate (demo_yb_rec 2 [host4 5] 7) [\<lparr>m_Prefix = host4 5\<rparr>], SCas demo_pivot 1 ''e2'' [] ''e1'', SDelete 1])"
  by (rule tables_stay_consistent) (simp_all add: demo_tables_inv demo_pivot_def demo_yb_pool_def)

theorem UpdatePool_syncs_members_witness:
  "\<exists>t'. tx_UpdatePool demo_tables (demo_yb_rec 1 [host4 5, host4 6] 100)
      [\<lparr>m_Prefix = host4 6\<rparr>, \<lparr>m_Prefix = host4 5\<rparr>] = Inr t' \<and> mem_keys t' 1 = {host4 5, host4 6}"
proof -
  have "\<exists>t'. tx_UpdatePool demo_tables (demo_yb_rec 1 [host4 5, host4 6] 100)
      [\<lparr>m_Prefix = host4 6\<rparr>, \<lparr>m_Prefix = host4 5\<rparr>] = Inr t'"
    by (auto simp: tx_UpdatePool_def demo_tables_eq Let_def row_of_def with_home_def demo_yb_rec_def
        demo_yb_pool_def set_body_def host4_def)
  then obtain t' where t': "tx_UpdatePool demo_tables (demo_yb_rec 1 [host4 5, host4 6] 100)
      [\<lparr>m_Prefix = host4 6\<rparr>, \<lparr>m_Prefix = host4 5\<rparr>] = Inr t'" ..
  from UpdatePool_syncs_members [OF demo_tables_inv(1) t'] t' show ?thesis
    by (auto simp: demo_yb_rec_def demo_yb_pool_def)
qed

theorem MemberConflicts_complete_witness:
  "set (q_MemberConflicts demo_tables [\<lparr>pAddr = V4 0, pBits = 24\<rparr>] 2) =
     {\<lparr>cf_Prefix = host4 5, cf_PoolID = 1\<rparr>}"
proof -
  let ?p = "\<lparr>pAddr = V4 0, pBits = 24\<rparr>"
  have g: "granular ?p" "granular (host4 5)"
    by (simp_all add: granular_def host4_def keep_top_def)
  have "mask_addr 24 (V4 5) = mask_addr 24 (V4 0)" by code_simp
  then have "V4 5 \<in> addrs_of (host4 5) \<inter> addrs_of ?p"
    by (simp add: addrs_of_def host4_def)
  then have "addrs_of (host4 5) \<inter> addrs_of ?p \<noteq> {}" by blast
  then show ?thesis
    using MemberConflicts_complete [OF demo_tables_inv(1), of "[?p]" 2] g by (simp add: demo_tables_eq)
qed

theorem store_writes_are_atomic_witness:
  "let s = \<lparr>tabs = demo_tables, snap = demo_tables, faults = [Some (Rollback ''io'')]\<rparr>
   in tabs (fst (DeleteCAS s 1 1)) = demo_tables"
proof -
  let ?s = "\<lparr>tabs = demo_tables, snap = demo_tables, faults = [Some (Rollback ''io'')]\<rparr>"
  obtain s' res where w: "write_tx (\<lambda>t. tx_DeleteCAS t 1 1) ?s = (s', res)"
    by (cases "write_tx (\<lambda>t. tx_DeleteCAS t 1 1) ?s")
  then have "res \<noteq> Inr ()" by (auto simp: write_tx_def next_fault_def)
  then show ?thesis
    using store_writes_are_atomic [OF w] w by (simp add: DeleteCAS_def Let_def)
qed

theorem followerRead_retries_witness:
  "snd (followerRead q_ListIDs \<lparr>tabs = demo_tables, snap = demo_tables,
      faults = [Some ReadRestart, Some ReadRestart, None]\<rparr>) = Inr (q_ListIDs demo_tables)"
  using followerRead_retries [of "\<lparr>tabs = demo_tables, snap = demo_tables,
      faults = [Some ReadRestart, Some ReadRestart, None]\<rparr>" 2 "[]" q_ListIDs]
  by (simp add: numeral_2_eq_2 maxReadRetries_def)

theorem UpdatePool_ignores_new_cost_witness:
  "\<exists>t'. tx_UpdatePool demo_tables (demo_yb_rec 1 [host4 5] 900) [\<lparr>m_Prefix = host4 5\<rparr>] = Inr t'
     \<and> q_UsedByEdge t' ''e1'' = Some 100 \<and> map_option y_Tokens (q_Get t' 1) = Some 900"
proof -
  have "\<exists>t'. tx_UpdatePool demo_tables (demo_yb_rec 1 [host4 5] 900) [\<lparr>m_Prefix = host4 5\<rparr>] = Inr t'"
    by (simp add: tx_UpdatePool_def demo_tables_eq Let_def row_of_def with_home_def demo_yb_rec_def
        demo_yb_pool_def set_body_def host4_def image_iff)
  then obtain t' where t': "tx_UpdatePool demo_tables (demo_yb_rec 1 [host4 5] 900) [\<lparr>m_Prefix = host4 5\<rparr>] = Inr t'" ..
  from UpdatePool_ignores_new_cost [OF t' demo_tables_inv(2)] t' show ?thesis
    by (intro exI [of _ t']) (simp add: demo_yb_rec_def demo_yb_pool_def q_UsedByEdge_def demo_tables_eq)
qed

end
