(* ===== verification/MemStore.thy ===== *)
theory MemStore
  imports YbStore "HOL-Library.AList"
begin

text \<open>
  The in-memory store (\<open>internal/ybstore/mem.go\<close>) and the capacity cache
  (\<open>internal/ybstore/capcache.go\<close>). Mem is the seam the service's tests run on; the lemmas
  show for which calls it refines the SQL store, and it satisfies the same \<open>version_cas\<close> contract.
  A Go map is an association list with distinct keys, a missing version reads 0.
\<close>

section \<open>State\<close>

record mem =
  m_pools :: "(pool_id \<times> yb_record) list"
  m_version :: "pool_id \<Rightarrow> int"

definition NewMem :: mem where
  "NewMem = \<lparr>m_pools = [], m_version = (\<lambda>_. 0)\<rparr>"

definition mem_Used :: "mem \<Rightarrow> edge_id \<Rightarrow> int" where
  "mem_Used m edge = sum_list (map (\<lambda>(i, r). if y_Primary r = edge then y_Tokens r else 0) (m_pools m))"

definition memberOwners :: "mem \<Rightarrow> pfx \<rightharpoonup> pool_id" where
  "memberOwners m = foldl (\<lambda>owners (i, r).
     foldl (\<lambda>owners x. owners(m_Prefix x \<mapsto> i)) owners (p_Members (y_Pool r))) Map.empty (m_pools m)"

definition conflictsForeign :: "mem \<Rightarrow> member list \<Rightarrow> pool_id \<Rightarrow> bool" where
  "conflictsForeign m ms i \<longleftrightarrow>
     (\<exists>x \<in> set ms. case memberOwners m (m_Prefix x) of None \<Rightarrow> False | Some owner \<Rightarrow> owner \<noteq> i)"

section \<open>Operations\<close>

definition mem_Get :: "mem \<Rightarrow> pool_id \<Rightarrow> yb_record option" where
  "mem_Get m i = map_of (m_pools m) i"

definition mem_put :: "mem \<Rightarrow> pool_id \<Rightarrow> yb_record \<Rightarrow> int \<Rightarrow> mem" where
  "mem_put m i r v = m\<lparr>m_pools := AList.update i r (m_pools m), m_version := (m_version m)(i := v)\<rparr>"

definition mem_rec :: "yb_record \<Rightarrow> member list \<Rightarrow> yb_record" where
  "mem_rec rec ms = rec\<lparr>y_Pool := (y_Pool rec)\<lparr>p_HomeEdge := y_Primary rec, p_Members := ms\<rparr>\<rparr>"

definition mem_CreatePool :: "mem \<Rightarrow> yb_record \<Rightarrow> member list \<Rightarrow> store_error + mem" where
  "mem_CreatePool m rec ms =
     (let i = p_ID (y_Pool rec) in
      if map_of (m_pools m) i \<noteq> None then Inl ErrExists
      else if conflictsForeign m ms i then Inl ErrMemberConflict
      else Inr (mem_put m i (mem_rec rec ms) 1))"

definition mem_UpdatePool :: "mem \<Rightarrow> yb_record \<Rightarrow> member list \<Rightarrow> store_error + mem" where
  "mem_UpdatePool m rec ms =
     (let i = p_ID (y_Pool rec) in
      if map_of (m_pools m) i = None then Inl ErrNotFound
      else if conflictsForeign m ms i then Inl ErrMemberConflict
      else Inr (mem_put m i (mem_rec rec ms) (m_version m i + 1)))"

definition mem_RemoveMember :: "mem \<Rightarrow> pool_id \<Rightarrow> pfx \<Rightarrow> store_error + mem" where
  "mem_RemoveMember m i pre =
     (case map_of (m_pools m) i of
        None \<Rightarrow> Inl ErrNotFound
      | Some rec \<Rightarrow> Inr (mem_put m i (rec\<lparr>y_Pool := (y_Pool rec)
            \<lparr>p_Members := filter (\<lambda>x. m_Prefix x \<noteq> pre) (p_Members (y_Pool rec))\<rparr>\<rparr>) (m_version m i + 1)))"

definition mem_Delete :: "mem \<Rightarrow> pool_id \<Rightarrow> store_error + mem" where
  "mem_Delete m i = Inr (m\<lparr>m_pools := AList.delete i (m_pools m), m_version := (m_version m)(i := 0)\<rparr>)"

definition mem_DestroyPool :: "mem \<Rightarrow> pool_id \<Rightarrow> store_error + mem" where
  "mem_DestroyPool m i = mem_Delete m i"

definition mem_poolsBy :: "mem \<Rightarrow> edge_id \<Rightarrow> bool \<Rightarrow> pool list" where
  "mem_poolsBy m edge primary = sort_by (less_key p_ID)
     (map (\<lambda>(i, r). (y_Pool r)\<lparr>p_HomeEdge := y_Primary r\<rparr>)
       (filter (\<lambda>(i, r). (primary \<and> y_Primary r = edge) \<or> (\<not> primary \<and> y_Backup r = edge)) (m_pools m)))"

definition mem_PoolsForHome :: "mem \<Rightarrow> edge_id \<Rightarrow> pool list" where
  "mem_PoolsForHome m edge = mem_poolsBy m edge True"

definition mem_PoolsForBackup :: "mem \<Rightarrow> edge_id \<Rightarrow> pool list" where
  "mem_PoolsForBackup m edge = mem_poolsBy m edge False"

definition mem_row :: "mem \<Rightarrow> pool_id \<Rightarrow> yb_record \<Rightarrow> pivot_row" where
  "mem_row m i r = \<lparr>v_Pool = y_Pool r, v_PoolID = i, v_Primary = y_Primary r, v_Backup = y_Backup r,
     v_Retiring = y_RetiringEdge r, v_Tokens = y_Tokens r, v_Version = m_version m i\<rparr>"

definition mem_GetForReconcile :: "mem \<Rightarrow> pool_id \<Rightarrow> pivot_row option" where
  "mem_GetForReconcile m i = map_option (mem_row m i) (map_of (m_pools m) i)"

definition mem_UpdateCAS ::
  "mem \<Rightarrow> pivot_row \<Rightarrow> int \<Rightarrow> edge_id \<Rightarrow> edge_id \<Rightarrow> edge_id \<Rightarrow> store_error + mem"
where
  "mem_UpdateCAS m row v np nb nr =
     (if m_version m (v_PoolID row) \<noteq> v then Inl ErrConflict
      else case map_of (m_pools m) (v_PoolID row) of
        None \<Rightarrow> Inl ErrConflict
      | Some rec \<Rightarrow> Inr (mem_put m (v_PoolID row) (rec\<lparr>y_Primary := np, y_Backup := nb,
            y_RetiringEdge := nr, y_Pool := (y_Pool rec)\<lparr>p_HomeEdge := np\<rparr>\<rparr>) (v + 1)))"

definition mem_DeleteCAS :: "mem \<Rightarrow> pool_id \<Rightarrow> int \<Rightarrow> store_error + mem" where
  "mem_DeleteCAS m i v = (if m_version m i \<noteq> v then Inl ErrConflict else mem_Delete m i)"

definition mem_PoolsForDeadEdge :: "mem \<Rightarrow> edge_id \<Rightarrow> pool_id list" where
  "mem_PoolsForDeadEdge m edge = sort_by (less_key id)
     (map fst (filter (\<lambda>(i, r). y_Primary r = edge \<or> y_Backup r = edge) (m_pools m)))"

definition mem_ListPivotsByPrimary :: "mem \<Rightarrow> edge_id \<Rightarrow> pivot_row list" where
  "mem_ListPivotsByPrimary m edge = sort_by (less_key v_PoolID)
     (map (\<lambda>(i, r). mem_row m i r) (filter (\<lambda>(i, r). y_Primary r = edge) (m_pools m)))"

definition mem_List :: "mem \<Rightarrow> yb_record list" where
  "mem_List m = sort_by (less_key (\<lambda>r. p_ID (y_Pool r))) (map snd (m_pools m))"

definition mem_ListIDs :: "mem \<Rightarrow> pool_id list" where
  "mem_ListIDs m = sort_by (less_key id) (map fst (m_pools m))"

text \<open>The three nested loops of \<open>MemberConflicts\<close>, in iteration order.\<close>

definition mem_MemberConflicts :: "mem \<Rightarrow> pfx list \<Rightarrow> pool_id \<Rightarrow> conflict list" where
  "mem_MemberConflicts m ps excludePool =
     sort_by (less_key (\<lambda>c. pfx_String (cf_Prefix c)))
       (foldl (\<lambda>out (i, r).
          if p_ID (y_Pool r) = excludePool then out
          else foldl (\<lambda>out x. foldl (\<lambda>out p.
                 if Overlaps (m_Prefix x) p \<and> m_Prefix x \<notin> set (map cf_Prefix out)
                 then out @ [\<lparr>cf_Prefix = m_Prefix x, cf_PoolID = p_ID (y_Pool r)\<rparr>] else out) out ps)
               out (p_Members (y_Pool r))) [] (m_pools m))"

section \<open>The capacity cache\<close>

record capacity_cache =
  cc_interval :: duration
  cc_used :: "edge_id \<rightharpoonup> int"
  cc_members :: "edge_id \<rightharpoonup> int"

definition NewCapacityCache :: "duration \<Rightarrow> capacity_cache" where
  "NewCapacityCache interval = \<lparr>cc_interval = (if interval \<le> 0 then seconds 5 else interval),
     cc_used = Map.empty, cc_members = Map.empty\<rparr>"

definition Refresh :: "capacity_cache \<Rightarrow> store \<Rightarrow> capacity_cache \<times> store \<times> store_error option" where
  "Refresh c s =
     (case UsedByEdge s of
        (s, Inl e) \<Rightarrow> (c, s, Some e)
      | (s, Inr used) \<Rightarrow>
          (case MembersByEdge s of
             (s, Inl e) \<Rightarrow> (c, s, Some e)
           | (s, Inr ms) \<Rightarrow> (c\<lparr>cc_used := used, cc_members := ms\<rparr>, s, None)))"

definition Used :: "capacity_cache \<Rightarrow> edge_id \<Rightarrow> int" where
  "Used c edge = (case cc_used c edge of None \<Rightarrow> 0 | Some u \<Rightarrow> u)"

definition Members :: "capacity_cache \<Rightarrow> edge_id \<Rightarrow> int" where
  "Members c edge = (case cc_members c edge of None \<Rightarrow> 0 | Some n \<Rightarrow> n)"

text \<open>\<open>Run\<close>: one refresh at once and one per tick; the snapshot the store serves moves in between.\<close>

fun Run :: "capacity_cache \<Rightarrow> store \<Rightarrow> tables list \<Rightarrow> capacity_cache \<times> store" where
  "Run c s [] = (case Refresh c s of (c, s, _) \<Rightarrow> (c, s))"
| "Run c s (t # ts) = (case Refresh c s of (c, s, _) \<Rightarrow> Run c (s\<lparr>snap := t\<rparr>) ts)"

section \<open>Mem keeps the version contract\<close>

definition mem_exec :: "mem \<Rightarrow> store_op \<Rightarrow> store_error + mem" where
  "mem_exec m op = (case op of
      SCreate rec ms \<Rightarrow> mem_CreatePool m rec ms
    | SUpdate rec ms \<Rightarrow> mem_UpdatePool m rec ms
    | SRemove i p \<Rightarrow> mem_RemoveMember m i p
    | SCas row v np nb nr \<Rightarrow> mem_UpdateCAS m row v np nb nr
    | SDelCas i v \<Rightarrow> mem_DeleteCAS m i v
    | SDelete i \<Rightarrow> mem_Delete m i)"

definition mem_version_of :: "mem \<Rightarrow> pool_id \<Rightarrow> int option" where
  "mem_version_of m i = map_option (\<lambda>_. m_version m i) (map_of (m_pools m) i)"

lemma mem_put_simps [simp]:
  "map_of (m_pools (mem_put m i r v)) = (map_of (m_pools m))(i \<mapsto> r)"
  "m_version (mem_put m i r v) = (m_version m)(i := v)"
  by (simp_all add: mem_put_def update_conv')

lemma mem_Delete_simps:
  "mem_Delete m i = Inr m' \<Longrightarrow> map_of (m_pools m') = (map_of (m_pools m))(i := None)
     \<and> m_version m' = (m_version m)(i := 0)"
  by (auto simp: mem_Delete_def delete_conv')

lemmas mem_ops = mem_exec_def mem_CreatePool_def mem_UpdatePool_def mem_RemoveMember_def
  mem_UpdateCAS_def mem_DeleteCAS_def Let_def

interpretation inmem: version_cas mem_version_of mem_exec "\<lambda>_. True"
proof unfold_locales
  fix m m' :: mem and op i and v w :: int
  assume x: "mem_exec m op = Inr m'"
  show "w = v" if "gate op = Some (i, v)" "mem_version_of m i = Some w"
    using x that by (cases op) (auto simp: mem_ops mem_version_of_def split: if_splits option.splits)
  show "mem_version_of m' i = Some (v + 1)" if "gate op = Some (i, v)" "\<not> destroys op i"
    using x that by (cases op) (auto simp: mem_ops mem_version_of_def split: if_splits option.splits)
  show "\<exists>v' \<ge> v. mem_version_of m' i = Some v'" if "\<not> destroys op i" "mem_version_of m i = Some v"
    using x that
    by (cases op) (auto simp: mem_ops mem_version_of_def split: if_splits option.splits dest!: mem_Delete_simps)
qed simp

section \<open>Mem refines the SQL store\<close>

text \<open>The dedicated columns of a row agree with its body.\<close>

definition cols_agree :: "pool_row \<Rightarrow> bool" where
  "cols_agree r \<longleftrightarrow> y_Primary (t_body r) = t_home r \<and> nullEdge (y_Backup (t_body r)) = t_backup r
     \<and> y_Tokens (t_body r) = t_cost r \<and> (t_retiring r \<longleftrightarrow> y_RetiringEdge (t_body r) \<noteq> [])
     \<and> p_HomeEdge (y_Pool (t_body r)) = t_home r"

definition refines :: "tables \<Rightarrow> mem \<Rightarrow> bool" where
  "refines t m \<longleftrightarrow> tables_inv t
     \<and> (\<forall>i. map_of (m_pools m) i = map_option t_body (row_of t i))
     \<and> (\<forall>i r. row_of t i = Some r \<longrightarrow> cols_agree r \<and> m_version m i = t_version r
           \<and> mem_keys t i = m_Prefix ` set (p_Members (y_Pool (t_body r))))
     \<and> (\<forall>i. row_of t i = None \<longrightarrow> m_version m i = 0)
     \<and> distinct (map fst (m_pools m))"

text \<open>
  A call the callers of the store make: a create carries the members of its record, once each; an
  update carries the placement it read; a pivot write carries the row it read at that version;
  no delete is gated on version 0, which no row has.
\<close>

fun faithful :: "tables \<Rightarrow> store_op \<Rightarrow> bool" where
  "faithful t (SCreate rec ms) \<longleftrightarrow>
     p_Members (y_Pool rec) = ms \<and> distinct (map m_Prefix ms) \<and> y_RetiringEdge rec = []"
| "faithful t (SUpdate rec ms) \<longleftrightarrow> p_Members (y_Pool rec) = ms \<and>
     (\<forall>r. row_of t (p_ID (y_Pool rec)) = Some r \<longrightarrow> y_Primary rec = t_home r \<and>
        nullEdge (y_Backup rec) = t_backup r \<and> y_Tokens rec = t_cost r \<and>
        (t_retiring r \<longleftrightarrow> y_RetiringEdge rec \<noteq> []))"
| "faithful t (SCas row v _ _ _) \<longleftrightarrow>
     (\<forall>r. row_of t (v_PoolID row) = Some r \<and> t_version r = v \<longrightarrow>
        v_Pool row = y_Pool (t_body r) \<and> v_Tokens row = t_cost r)"
| "faithful t (SDelCas _ v) \<longleftrightarrow> v \<noteq> 0"
| "faithful t _ \<longleftrightarrow> True"

lemma memberOwners_fold:
  fixes pl :: "(pool_id \<times> yb_record) list"
  defines "f \<equiv> \<lambda>owners (i, r). foldl (\<lambda>owners x. owners(m_Prefix x \<mapsto> i)) owners (p_Members (y_Pool r))"
  shows "(foldl f o0 pl p = Some i \<longrightarrow> o0 p = Some i \<or>
            (\<exists>r. (i, r) \<in> set pl \<and> p \<in> m_Prefix ` set (p_Members (y_Pool r))))
    \<and> ((o0 p \<noteq> None \<or> (\<exists>(j, r) \<in> set pl. p \<in> m_Prefix ` set (p_Members (y_Pool r)))) \<longrightarrow> foldl f o0 pl p \<noteq> None)"
proof (induction pl arbitrary: o0)
  case (Cons x pl)
  obtain j r where x: "x = (j, r)" by (cases x)
  have inner: "foldl (\<lambda>owners x. owners(m_Prefix x \<mapsto> j)) o0 ms p =
      (if p \<in> m_Prefix ` set ms then Some j else o0 p)" for ms :: "member list" and o0
    by (induction ms arbitrary: o0) auto
  have "f o0 x p = (if p \<in> m_Prefix ` set (p_Members (y_Pool r)) then Some j else o0 p)"
    by (simp add: f_def x inner)
  then show ?case using Cons.IH [of "f o0 x"] by (auto simp: x split: if_splits)
qed simp

lemma memberOwners_claims:
  assumes "refines t m"
  shows "memberOwners m p = Some i \<longleftrightarrow> p \<in> mem_keys t i"
proof -
  have inv: "tables_inv t" using assms by (simp add: refines_def)
  have hold: "(\<exists>r. (j, r) \<in> set (m_pools m) \<and> p \<in> m_Prefix ` set (p_Members (y_Pool r))) \<longleftrightarrow> p \<in> mem_keys t j"
    for j
  proof -
    have d: "distinct (map fst (m_pools m))" using assms by (simp add: refines_def)
    have "(j, r) \<in> set (m_pools m) \<longleftrightarrow> map_of (m_pools m) j = Some r" for r
      by (simp add: map_of_eq_Some_iff [OF d])
    moreover have "row_of t j \<noteq> None" if "p \<in> mem_keys t j"
      using that inv by (auto simp: mem_keys_def tables_inv_def row_of_None)
    ultimately show ?thesis
      using assms by (auto simp: refines_def)
  qed
  have uniq: "j = i" if "p \<in> mem_keys t j" "p \<in> mem_keys t i" for i j
    using that inv by (auto simp: mem_keys_def tables_inv_def distinct_map dest: inj_onD)
  note F = memberOwners_fold [of Map.empty "m_pools m" p]
  show ?thesis
  proof
    assume "memberOwners m p = Some i"
    then show "p \<in> mem_keys t i" using F [of i] hold [of i] unfolding memberOwners_def by simp
  next
    assume p: "p \<in> mem_keys t i"
    then have "memberOwners m p \<noteq> None" using F hold [of i] unfolding memberOwners_def by fastforce
    then obtain j where j: "memberOwners m p = Some j" by auto
    then have "p \<in> mem_keys t j" using F [of j] hold [of j] unfolding memberOwners_def by simp
    then show "memberOwners m p = Some i" using uniq p j by simp
  qed
qed

lemma conflictsForeign_claims:
  assumes "refines t m"
  shows "conflictsForeign m ms i \<longleftrightarrow> (\<exists>x \<in> set ms. \<exists>j. j \<noteq> i \<and> m_Prefix x \<in> mem_keys t j)"
proof -
  have "(case memberOwners m p of None \<Rightarrow> False | Some owner \<Rightarrow> owner \<noteq> i) \<longleftrightarrow>
      (\<exists>j. j \<noteq> i \<and> memberOwners m p = Some j)" for p
    by (auto split: option.splits)
  then show ?thesis by (simp add: conflictsForeign_def memberOwners_claims [OF assms])
qed

lemma refines_absent: "refines t m \<Longrightarrow> row_of t i = None \<Longrightarrow> mem_keys t i = {}"
  by (auto simp: refines_def tables_inv_def mem_keys_def row_of_None)

text \<open>The frame of one updated pool: every other pool keeps its row, version and claims.\<close>

lemma refines_update:
  assumes R: "refines t m" and inv: "tables_inv t'"
    and row: "row_of t' i = Some r'" "\<And>j. j \<noteq> i \<Longrightarrow> row_of t' j = row_of t j"
    and keys: "\<And>j. j \<noteq> i \<Longrightarrow> mem_keys t' j = mem_keys t j"
    and ok: "cols_agree r'" "mem_keys t' i = m_Prefix ` set (p_Members (y_Pool (t_body r')))"
  shows "refines t' (mem_put m i (t_body r') (t_version r'))"
proof -
  have "distinct (map fst (m_pools (mem_put m i (t_body r') (t_version r'))))"
    using R by (simp add: refines_def mem_put_def distinct_update)
  moreover have "map_of (m_pools (mem_put m i (t_body r') (t_version r'))) j = map_option t_body (row_of t' j)" for j
    using R row by (cases "j = i") (simp_all add: refines_def)
  moreover have "cols_agree r \<and> m_version (mem_put m i (t_body r') (t_version r')) j = t_version r
        \<and> mem_keys t' j = m_Prefix ` set (p_Members (y_Pool (t_body r)))"
    if "row_of t' j = Some r" for j r
    using R row keys ok that by (cases "j = i") (simp_all add: refines_def)
  moreover have "m_version (mem_put m i (t_body r') (t_version r')) j = 0" if "row_of t' j = None" for j
    using R row that by (cases "j = i") (simp_all add: refines_def)
  ultimately show ?thesis using inv unfolding refines_def by blast
qed

lemma row_of_map:
  "pools t' = map f (pools t) \<Longrightarrow> (\<And>r. t_id (f r) = t_id r) \<Longrightarrow> row_of t' j = map_option f (row_of t j)"
  unfolding row_of_def by (simp add: find_map_id)

lemma mem_keys_image: "mem_keys t i = mt_prefix ` {r \<in> set (members t). mt_pool r = i}"
  by (auto simp: mem_keys_def)

lemma mem_keys_filter: "mem_keys t i = mt_prefix ` set (filter (\<lambda>r. mt_pool r = i) (members t))"
  by (auto simp: mem_keys_def)

lemma find_snoc: "\<not> P x \<Longrightarrow> find P (xs @ [x]) = find P xs"
  by (induction xs) auto

lemma sim_create:
  assumes R: "refines t m" and F: "faithful t (SCreate rec ms)"
  shows "case mem_CreatePool m rec ms of Inl e \<Rightarrow> tx_CreatePool t rec ms = Inl e
    | Inr m' \<Rightarrow> \<exists>t'. tx_CreatePool t rec ms = Inr t' \<and> refines t' m'"
proof -
  let ?i = "p_ID (y_Pool rec)"
  let ?r = "\<lparr>t_id = ?i, t_body = with_home rec, t_home = y_Primary rec, t_backup = nullEdge (y_Backup rec),
      t_cost = y_Tokens rec, t_version = 1, t_retiring = False\<rparr>"
  have inv: "tables_inv t" using R by (simp add: refines_def)
  show ?thesis
  proof (cases "row_of t ?i")
    case (Some r)
    then show ?thesis
      using R by (simp add: mem_CreatePool_def tx_CreatePool_def Let_def with_home_def refines_def)
  next
    case None
    have none: "map_of (m_pools m) ?i = None" using R None by (simp add: refines_def)
    have conf: "conflictsForeign m ms ?i \<longleftrightarrow> m_Prefix ` set ms \<inter> mt_prefix ` set (members t) \<noteq> {}"
    proof -
      have "(\<exists>j. j \<noteq> ?i \<and> p \<in> mem_keys t j) \<longleftrightarrow> p \<in> mt_prefix ` set (members t)" for p
        using refines_absent [OF R None] by (auto simp: mem_keys_def)
      then show ?thesis by (auto simp: conflictsForeign_claims [OF R])
    qed
    show ?thesis
    proof (cases "conflictsForeign m ms ?i")
      case True
      have "tx_CreatePool t rec ms \<noteq> Inr t'" for t' using True conf by (auto simp: tx_CreatePool_Inr)
      moreover have "e = ErrMemberConflict" if "tx_CreatePool t rec ms = Inl e" for e
        using that None by (auto simp: tx_CreatePool_def Let_def with_home_def dest: insert_members_Inl)
      ultimately have "tx_CreatePool t rec ms = Inl ErrMemberConflict" by (metis sum.exhaust)
      then show ?thesis using True none by (simp add: mem_CreatePool_def Let_def)
    next
      case False
      define t' where "t' = \<lparr>pools = pools t @ [?r],
        members = members t @ map (\<lambda>x. \<lparr>mt_prefix = m_Prefix x, mt_pool = ?i, mt_home = y_Primary rec\<rparr>) ms\<rparr>"
      have p: "pools t' = pools t @ [?r]"
        and ms: "members t' = members t @ map (\<lambda>x. \<lparr>mt_prefix = m_Prefix x, mt_pool = ?i, mt_home = y_Primary rec\<rparr>) ms"
        by (simp_all add: t'_def)
      have t': "tx_CreatePool t rec ms = Inr t'"
        unfolding tx_CreatePool_Inr using False conf None F by (simp add: t'_def)
      have inv': "tables_inv t'" using inv t' by (rule tx_CreatePool_inv)
      have keys: "distinct (map t_id (pools t))" "distinct (map t_id (pools t'))"
        using inv inv' by (simp_all add: tables_inv_def)
      have rows: "row_of t' ?i = Some ?r" using keys(2) by (simp add: row_of_iff p)
      have other: "row_of t' j = row_of t j" if "j \<noteq> ?i" for j
        using that unfolding row_of_def p by (simp add: find_snoc)
      have mk: "mem_keys t' j = (if j = ?i then m_Prefix ` set ms else mem_keys t j)" for j
        using refines_absent [OF R None] unfolding mem_keys_filter ms
        by (cases "j = ?i") (simp_all add: filter_map comp_def image_image image_Un)
      have body: "t_body ?r = mem_rec rec ms" using F by (simp add: with_home_def mem_rec_def)
      have "refines t' (mem_put m ?i (t_body ?r) (t_version ?r))"
        by (rule refines_update [OF R inv' rows other])
           (use F in \<open>auto simp: mk cols_agree_def with_home_def\<close>)
      then have "refines t' (mem_put m ?i (mem_rec rec ms) 1)" using body by simp
      then show ?thesis using False none t' by (simp add: mem_CreatePool_def Let_def)
    qed
  qed
qed

lemma set_body_row:
  "pools t' = pools (set_body t i rec) \<Longrightarrow> row_of t' j =
     map_option (\<lambda>r. if t_id r = i then r\<lparr>t_body := rec, t_version := t_version r + 1\<rparr> else r) (row_of t j)"
  by (rule row_of_map) (auto simp: set_body_def)

lemma row_of_id: "row_of t i = Some r \<Longrightarrow> t_id r = i"
  using row_of_Some by blast

lemma set_body_rows:
  assumes "pools t' = pools (set_body t i rec)" "row_of t i = Some r"
  shows "row_of t' i = Some (r\<lparr>t_body := rec, t_version := t_version r + 1\<rparr>)"
    and "j \<noteq> i \<Longrightarrow> row_of t' j = row_of t j"
proof -
  show "row_of t' i = Some (r\<lparr>t_body := rec, t_version := t_version r + 1\<rparr>)"
    using assms(2) row_of_id [OF assms(2)] by (simp add: set_body_row [OF assms(1)])
  show "row_of t' j = row_of t j" if "j \<noteq> i"
    using that row_of_id [of t j] by (cases "row_of t j") (auto simp: set_body_row [OF assms(1)])
qed

lemma UpdatePool_fails:
  assumes inv: "tables_inv t" and row: "row_of t (p_ID (y_Pool rec)) \<noteq> None"
  shows "tx_UpdatePool t rec ms = Inl ErrMemberConflict \<or> (\<exists>t'. tx_UpdatePool t rec ms = Inr t')"
    and "(\<exists>x \<in> set ms. \<exists>j. j \<noteq> p_ID (y_Pool rec) \<and> m_Prefix x \<in> mem_keys t j) \<longleftrightarrow>
         tx_UpdatePool t rec ms = Inl ErrMemberConflict"
proof -
  let ?i = "p_ID (y_Pool rec)"
  have i: "p_ID (y_Pool (with_home rec)) = ?i" "members (set_body t ?i x) = members t" for x
    by (simp_all add: with_home_def set_body_def)
  show res: "tx_UpdatePool t rec ms = Inl ErrMemberConflict \<or> (\<exists>t'. tx_UpdatePool t rec ms = Inr t')"
    using row by (auto simp: tx_UpdatePool_def Let_def i)
  have "mem_keys t' ?i = m_Prefix ` set ms \<and> (\<forall>j. j \<noteq> ?i \<longrightarrow> mem_keys t' j = mem_keys t j)
      \<and> tables_inv t'" if "tx_UpdatePool t rec ms = Inr t'" for t'
    using that UpdatePool_claims [OF inv that] tx_UpdatePool_inv [OF inv that] by blast
  moreover have "j = k" if "tables_inv t'" "p \<in> mem_keys t' j" "p \<in> mem_keys t' k" for t' p j k
    using that by (auto simp: mem_keys_def tables_inv_def distinct_map dest: inj_onD)
  ultimately have ok: "\<not> (\<exists>x \<in> set ms. \<exists>j. j \<noteq> ?i \<and> m_Prefix x \<in> mem_keys t j)"
    if "tx_UpdatePool t rec ms = Inr t'" for t'
    using that by (metis image_eqI)
  have bad: "\<exists>x \<in> set ms. \<exists>j. j \<noteq> ?i \<and> m_Prefix x \<in> mem_keys t j"
    if c: "tx_UpdatePool t rec ms = Inl ErrMemberConflict"
  proof -
    have "\<exists>x \<in> set ms. m_Prefix x \<notin> mt_prefix ` {r \<in> set (members t). mt_pool r = ?i}
        \<and> (\<exists>r \<in> set (members t). mt_prefix r = m_Prefix x)"
      using c row by (auto simp: tx_UpdatePool_def Let_def i filter_all_length split: if_splits)
    then obtain x r where "x \<in> set ms" "r \<in> set (members t)" "mt_prefix r = m_Prefix x" "mt_pool r \<noteq> ?i"
      by (auto simp: image_iff) (metis (mono_tags, lifting))
    then show ?thesis
      by (intro bexI [of _ x] exI [of _ "mt_pool r"]) (auto simp: mem_keys_def intro!: exI [of _ r])
  qed
  show "(\<exists>x \<in> set ms. \<exists>j. j \<noteq> ?i \<and> m_Prefix x \<in> mem_keys t j) \<longleftrightarrow>
         tx_UpdatePool t rec ms = Inl ErrMemberConflict"
    using res ok bad by blast
qed

lemma sim_update:
  assumes R: "refines t m" and F: "faithful t (SUpdate rec ms)"
  shows "case mem_UpdatePool m rec ms of Inl e \<Rightarrow> tx_UpdatePool t rec ms = Inl e
    | Inr m' \<Rightarrow> \<exists>t'. tx_UpdatePool t rec ms = Inr t' \<and> refines t' m'"
proof -
  let ?i = "p_ID (y_Pool rec)"
  have inv: "tables_inv t" using R by (simp add: refines_def)
  show ?thesis
  proof (cases "row_of t ?i")
    case None
    then show ?thesis
      using R by (simp add: mem_UpdatePool_def tx_UpdatePool_def Let_def with_home_def refines_def)
  next
    case (Some r)
    have some: "map_of (m_pools m) ?i = Some (t_body r)" "m_version m ?i = t_version r" "cols_agree r"
      using R Some by (simp_all add: refines_def)
    have row: "row_of t ?i \<noteq> None" using Some by simp
    note U = UpdatePool_fails [OF inv row, of ms]
    show ?thesis
    proof (cases "conflictsForeign m ms ?i")
      case True
      then show ?thesis
        using U some by (simp add: mem_UpdatePool_def Let_def conflictsForeign_claims [OF R])
    next
      case False
      then obtain t' where t': "tx_UpdatePool t rec ms = Inr t'"
        using U by (auto simp: conflictsForeign_claims [OF R])
      note rows = set_body_rows [OF tx_UpdatePool_Inr(2) [OF t'] Some]
      let ?r = "r\<lparr>t_body := with_home rec, t_version := t_version r + 1\<rparr>"
      have body: "t_body ?r = mem_rec rec ms" using F by (simp add: with_home_def mem_rec_def)
      have "refines t' (mem_put m ?i (t_body ?r) (t_version ?r))"
        by (rule refines_update [OF R tx_UpdatePool_inv [OF inv t'] rows])
           (use F Some UpdatePool_claims [OF inv t'] in \<open>auto simp: cols_agree_def with_home_def\<close>)
      then show ?thesis using False some t' body by (simp add: mem_UpdatePool_def Let_def)
    qed
  qed
qed

lemma sim_remove:
  assumes R: "refines t m"
  shows "case mem_RemoveMember m i pre of Inl e \<Rightarrow> tx_RemoveMember t i pre = Inl e
    | Inr m' \<Rightarrow> \<exists>t'. tx_RemoveMember t i pre = Inr t' \<and> refines t' m'"
proof -
  let ?t = "t\<lparr>members := filter (\<lambda>r. \<not> (mt_prefix r = pre \<and> mt_pool r = i)) (members t)\<rparr>"
  have inv: "tables_inv t" using R by (simp add: refines_def)
  have ro: "row_of ?t j = row_of t j" for j by (simp add: row_of_def)
  show ?thesis
  proof (cases "row_of t i")
    case None
    then show ?thesis
      using R ro [of i] by (simp add: mem_RemoveMember_def tx_RemoveMember_def Let_def refines_def)
  next
    case (Some r)
    let ?rec = "(t_body r)\<lparr>y_Pool := (y_Pool (t_body r))\<lparr>p_Members :=
        filter (\<lambda>x. m_Prefix x \<noteq> pre) (p_Members (y_Pool (t_body r)))\<rparr>\<rparr>"
    let ?r = "r\<lparr>t_body := ?rec, t_version := t_version r + 1\<rparr>"
    define t' where "t' = set_body ?t i ?rec"
    have some: "map_of (m_pools m) i = Some (t_body r)" "m_version m i = t_version r" "cols_agree r"
      "mem_keys t i = m_Prefix ` set (p_Members (y_Pool (t_body r)))"
      using R Some by (simp_all add: refines_def)
    have t': "tx_RemoveMember t i pre = Inr t'"
      using Some ro [of i] by (simp add: tx_RemoveMember_def Let_def t'_def)
    have rows: "row_of t' i = Some ?r" "\<And>j. j \<noteq> i \<Longrightarrow> row_of t' j = row_of t j"
      using set_body_rows [of t' ?t i ?rec r] Some ro by (auto simp: t'_def)
    have mk: "mem_keys t' j = (if j = i then mem_keys t i - {pre} else mem_keys t j)" for j
      unfolding t'_def by (auto simp: mem_keys_def set_body_def)
    have "refines t' (mem_put m i (t_body ?r) (t_version ?r))"
      by (rule refines_update [OF R tx_RemoveMember_inv [OF inv t'] rows])
         (use some in \<open>auto simp: mk cols_agree_def\<close>)
    then show ?thesis using some t' by (simp add: mem_RemoveMember_def)
  qed
qed

lemma sim_cas:
  assumes R: "refines t m" and F: "faithful t (SCas row v np nb nr)"
  shows "case mem_UpdateCAS m row v np nb nr of Inl e \<Rightarrow> tx_UpdateCAS t row v np nb nr = Inl e
    | Inr m' \<Rightarrow> \<exists>t'. tx_UpdateCAS t row v np nb nr = Inr t' \<and> refines t' m'"
proof -
  let ?i = "v_PoolID row"
  have inv: "tables_inv t" using R by (simp add: refines_def)
  have keys: "distinct (map t_id (pools t))" using inv by (simp add: tables_inv_def)
  show ?thesis
  proof (cases "\<exists>r. row_of t ?i = Some r \<and> t_version r = v")
    case False
    then have "\<not> (\<exists>r \<in> set (pools t). t_id r = ?i \<and> t_version r = v)"
      using row_of_iff [OF keys] by blast
    then have "tx_UpdateCAS t row v np nb nr = Inl ErrConflict" by (simp add: tx_UpdateCAS_def Let_def)
    moreover have "mem_UpdateCAS m row v np nb nr = Inl ErrConflict"
      using R False by (cases "row_of t ?i") (simp_all add: mem_UpdateCAS_def refines_def)
    ultimately show ?thesis by simp
  next
    case True
    then obtain r where Some: "row_of t ?i = Some r" and v: "t_version r = v" by blast
    have some: "map_of (m_pools m) ?i = Some (t_body r)" "m_version m ?i = v" "cols_agree r"
      "mem_keys t ?i = m_Prefix ` set (p_Members (y_Pool (t_body r)))"
      using R Some v by (simp_all add: refines_def)
    have f: "v_Pool row = y_Pool (t_body r)" "v_Tokens row = t_cost r" using F Some v by simp_all
    have "\<exists>r \<in> set (pools t). t_id r = ?i \<and> t_version r = v" using Some v row_of_iff [OF keys] by blast
    then obtain t' where t': "tx_UpdateCAS t row v np nb nr = Inr t'"
      unfolding tx_UpdateCAS_Inr by blast
    let ?r = "cas_row row v np nb nr r"
    have "p_ID (v_Pool row) = ?i" using inv row_of_Some [OF Some] f by (simp add: tables_inv_def)
    with inv t' have inv': "tables_inv t'" by (rule tx_UpdateCAS_inv)
    have rm: "row_of t' j = map_option (cas_row row v np nb nr) (row_of t j)" for j
      by (rule row_of_map [OF tx_UpdateCAS_pools [OF t']]) simp
    have rows: "row_of t' ?i = Some ?r" using Some by (simp add: rm)
    have other: "row_of t' j = row_of t j" if "j \<noteq> ?i" for j
      using that row_of_id [of t j] by (cases "row_of t j") (auto simp: rm cas_row_def)
    have mk: "mem_keys t' j = mem_keys t j" for j
    proof -
      have M: "map (\<lambda>r. (mt_prefix r, mt_pool r)) (members t') = map (\<lambda>r. (mt_prefix r, mt_pool r)) (members t)"
        using t' by (auto simp: tx_UpdateCAS_Inr)
      have K: "mem_keys x j = fst ` {z \<in> set (map (\<lambda>r. (mt_prefix r, mt_pool r)) (members x)). snd z = j}" for x
        by (auto simp: mem_keys_def image_iff)
      show ?thesis unfolding K M ..
    qed
    have body: "t_body ?r = (t_body r)\<lparr>y_Primary := np, y_Backup := nb, y_RetiringEdge := nr,
        y_Pool := (y_Pool (t_body r))\<lparr>p_HomeEdge := np\<rparr>\<rparr>" "t_version ?r = v + 1"
      using row_of_id [OF Some] v f some(3) by (simp_all add: cas_row_def with_home_def cols_agree_def)
    have "refines t' (mem_put m ?i (t_body ?r) (t_version ?r))"
      by (rule refines_update [OF R inv' rows other])
         (use some body row_of_id [OF Some] v f in \<open>auto simp: mk cols_agree_def cas_row_def with_home_def\<close>)
    then show ?thesis using some t' body by (simp add: mem_UpdateCAS_def)
  qed
qed

lemma sim_delete:
  assumes R: "refines t m" and t': "pools t' = filter (\<lambda>r. t_id r \<noteq> i) (pools t)"
      "members t' = filter (\<lambda>r. mt_pool r \<noteq> i) (members t)" "tables_inv t'"
    and m': "mem_Delete m i = Inr m'"
  shows "refines t' m'"
proof -
  have F: "find (\<lambda>r. t_id r = j) (filter (\<lambda>r. t_id r \<noteq> i) xs) = (if j = i then None else find (\<lambda>r. t_id r = j) xs)" for j xs
    by (induction xs) auto
  have row: "row_of t' j = (if j = i then None else row_of t j)" for j
    unfolding row_of_def t'(1) by (rule F)
  have mk: "mem_keys t' j = (if j = i then {} else mem_keys t j)" for j
    by (auto simp: mem_keys_def t')
  have "distinct (map fst (m_pools m'))"
    using R m' by (auto simp: mem_Delete_def refines_def distinct_delete)
  then show ?thesis
    using R t'(3) mem_Delete_simps [OF m'] row mk by (auto simp: refines_def)
qed

lemma tx_DeleteCAS_Delete:
  assumes "keys_ok t" "version_of t i = Some v"
  shows "tx_DeleteCAS t i v = tx_Delete t i"
proof -
  have "t_id r = i \<and> t_version r = v \<longleftrightarrow> t_id r = i" if "r \<in> set (pools t)" for r
    using that assms row_of_unique [of t r] by (auto simp: version_of_def keys_ok_def)
  then have "filter (\<lambda>r. \<not> (t_id r = i \<and> t_version r = v)) (pools t) = filter (\<lambda>r. t_id r \<noteq> i) (pools t)"
    by (intro filter_cong) auto
  then show ?thesis
    using version_of_iff [OF assms(1)] assms(2) by (auto simp: tx_DeleteCAS_def tx_Delete_def Let_def)
qed



end
