(* ===== verification/Scheduler.thy ===== *)
theory Scheduler
  imports Prelude
begin

text \<open>
  Pool placement (\<open>internal/scheduler/scheduler.go\<close>): \<open>SelectHomes\<close> picks n distinct homes
  with enough bandwidth tokens and, when the session dimension is on, enough classify sessions.
  The lemmas give its result exactly: which candidates qualify, which error an infeasible
  request returns, and that the choice is worst-fit for every shuffle the tie-break may draw.
\<close>

section \<open>The selection\<close>

datatype select_error =
    ErrInsufficientCapacity
  | ErrInsufficientSessions
  | ErrRemaining string

text \<open>\<open>type Remaining func(ctx, edge) (int64, error)\<close>\<close>

type_synonym remaining = "edge_id \<Rightarrow> string + int"

record cand =
  c_edge :: edge_id
  c_free :: int

text \<open>The loop state: \<open>qual\<close> in append order, \<open>bwOK\<close> and the \<open>seen\<close> set.\<close>

record select_acc =
  a_qual :: "cand list"
  a_bwOK :: nat
  a_seen :: "edge_id set"

definition rem_err :: "string + int \<Rightarrow> select_error + int" where
  "rem_err r = (case r of Inl e \<Rightarrow> Inl (ErrRemaining e) | Inr v \<Rightarrow> Inr v)"

definition select_step ::
  "remaining \<Rightarrow> int \<Rightarrow> remaining option \<Rightarrow> int \<Rightarrow> select_acc \<Rightarrow> edge_id \<Rightarrow> select_error + select_acc"
where
  "select_step rem need remSess needSess a e =
     (if e \<in> a_seen a then Inr a
      else
        let a = a\<lparr>a_seen := insert e (a_seen a)\<rparr> in
        bindE (rem_err (rem e)) (\<lambda>free.
          if free < need then Inr a
          else
            let a = a\<lparr>a_bwOK := a_bwOK a + 1\<rparr>;
                take_it = a\<lparr>a_qual := a_qual a @ [\<lparr>c_edge = e, c_free = free\<rparr>]\<rparr>
            in (case remSess of
                  Some rs \<Rightarrow>
                    if needSess > 0 then
                      bindE (rem_err (rs e)) (\<lambda>freeSess.
                        if freeSess < needSess then Inr a else Inr take_it)
                    else Inr take_it
                | None \<Rightarrow> Inr take_it)))"

text \<open>
  \<open>randomTieBreak\<close> with the permutation \<open>rand.Shuffle\<close> draws, or the edge-id order of the
  tests (\<open>DisableRandomTieBreak\<close>).
\<close>

datatype tie_break = RandomTieBreak "cand list \<Rightarrow> cand list" | EdgeIdTieBreak

definition less_free :: "cand \<Rightarrow> cand \<Rightarrow> bool" where
  "less_free a b \<longleftrightarrow> c_free a > c_free b"

definition less_free_id :: "cand \<Rightarrow> cand \<Rightarrow> bool" where
  "less_free_id a b =
     (if c_free a \<noteq> c_free b then c_free a > c_free b else c_edge a < c_edge b)"

definition order_cands :: "tie_break \<Rightarrow> cand list \<Rightarrow> cand list" where
  "order_cands tb qual =
     (case tb of
        RandomTieBreak shuffle \<Rightarrow> sort_by less_free (shuffle qual)
      | EdgeIdTieBreak \<Rightarrow> sort_by less_free_id qual)"

definition SelectHomes ::
  "tie_break \<Rightarrow> edge_id list \<Rightarrow> remaining \<Rightarrow> int \<Rightarrow> remaining option \<Rightarrow> int \<Rightarrow> int \<Rightarrow>
   select_error + edge_id list"
where
  "SelectHomes tb candidates rem need remSess needSess n =
     (if n \<le> 0 then Inr []
      else
        bindE (foldE (select_step rem need remSess needSess)
                 \<lparr>a_qual = [], a_bwOK = 0, a_seen = {}\<rparr> candidates) (\<lambda>a.
          if int (length (a_qual a)) < n then
            (if remSess \<noteq> None \<and> needSess > 0 \<and> int (a_bwOK a) \<ge> n
             then Inl ErrInsufficientSessions
             else Inl ErrInsufficientCapacity)
          else Inr (map c_edge (take (nat n) (order_cands tb (a_qual a))))))"

section \<open>The loop computes the qualifying candidates\<close>

interpretation free: strict_weak less_free
  by unfold_locales (auto simp: less_free_def)

interpretation free_id: strict_weak less_free_id
  by unfold_locales (auto simp: less_free_id_def split: if_splits)

definition sess_on :: "remaining option \<Rightarrow> int \<Rightarrow> bool" where
  "sess_on remSess needSess \<longleftrightarrow> remSess \<noteq> None \<and> needSess > 0"

text \<open>The two constraints as predicates of an edge, for providers that answer.\<close>

definition has_bandwidth :: "remaining \<Rightarrow> int \<Rightarrow> edge_id \<Rightarrow> bool" where
  "has_bandwidth rem need e \<longleftrightarrow> (\<exists>v. rem e = Inr v \<and> need \<le> v)"

definition has_sessions :: "remaining option \<Rightarrow> int \<Rightarrow> edge_id \<Rightarrow> bool" where
  "has_sessions remSess needSess e \<longleftrightarrow>
     (case remSess of None \<Rightarrow> True
      | Some rs \<Rightarrow> needSess > 0 \<longrightarrow> (\<exists>v. rs e = Inr v \<and> needSess \<le> v))"

definition qualifies :: "remaining \<Rightarrow> int \<Rightarrow> remaining option \<Rightarrow> int \<Rightarrow> edge_id \<Rightarrow> bool" where
  "qualifies rem need remSess needSess e \<longleftrightarrow>
     has_bandwidth rem need e \<and> has_sessions remSess needSess e"

definition free_of :: "remaining \<Rightarrow> edge_id \<Rightarrow> int" where
  "free_of rem e = (case rem e of Inr v \<Rightarrow> v | Inl _ \<Rightarrow> 0)"

text \<open>No capacity lookup the loop makes fails.\<close>

definition answers :: "remaining \<Rightarrow> remaining option \<Rightarrow> edge_id list \<Rightarrow> bool" where
  "answers rem remSess es \<longleftrightarrow>
     (\<forall>e\<in>set es. (\<exists>v. rem e = Inr v) \<and>
        (case remSess of None \<Rightarrow> True | Some rs \<Rightarrow> \<exists>v. rs e = Inr v))"

definition loop_inv ::
  "remaining \<Rightarrow> int \<Rightarrow> remaining option \<Rightarrow> int \<Rightarrow> select_acc \<Rightarrow> bool"
where
  "loop_inv rem need remSess needSess a \<longleftrightarrow>
     distinct (map c_edge (a_qual a)) \<and> finite (a_seen a)
     \<and> set (map c_edge (a_qual a)) = {e \<in> a_seen a. qualifies rem need remSess needSess e}
     \<and> (\<forall>c \<in> set (a_qual a). rem (c_edge c) = Inr (c_free c))
     \<and> a_bwOK a = card {e \<in> a_seen a. has_bandwidth rem need e}"

lemma select_step_eq:
  assumes "select_step rem need remSess needSess a e = Inr a'" "e \<notin> a_seen a"
  shows "a' = \<lparr>a_qual = a_qual a @ (if qualifies rem need remSess needSess e
                     then [\<lparr>c_edge = e, c_free = free_of rem e\<rparr>] else []),
               a_bwOK = a_bwOK a + (if has_bandwidth rem need e then 1 else 0),
               a_seen = insert e (a_seen a)\<rparr>"
    and "\<exists>v. rem e = Inr v"
proof -
  obtain v where v: "rem e = Inr v"
    using assms by (auto simp: select_step_def Let_def bindE_Inr_iff rem_err_def split: sum.splits)
  then show "\<exists>v. rem e = Inr v" by simp
  show "a' = \<lparr>a_qual = a_qual a @ (if qualifies rem need remSess needSess e
                     then [\<lparr>c_edge = e, c_free = free_of rem e\<rparr>] else []),
               a_bwOK = a_bwOK a + (if has_bandwidth rem need e then 1 else 0),
               a_seen = insert e (a_seen a)\<rparr>"
    using assms v
    by (cases a) (auto simp: select_step_def Let_def bindE_Inr_iff rem_err_def qualifies_def
        has_bandwidth_def has_sessions_def free_of_def split: if_splits sum.splits option.splits)
qed

lemma select_step_inv:
  assumes inv: "loop_inv rem need remSess needSess a"
    and step: "select_step rem need remSess needSess a e = Inr a'"
  shows "loop_inv rem need remSess needSess a' \<and> a_seen a' = insert e (a_seen a)"
proof (cases "e \<in> a_seen a")
  case True
  then show ?thesis using inv step by (auto simp: select_step_def insert_absorb)
next
  case False
  note a' = select_step_eq [OF step False]
  have fin: "finite {x \<in> a_seen a. has_bandwidth rem need x}"
    using inv by (simp add: loop_inv_def)
  have ins: "{x \<in> insert e (a_seen a). Q x} =
      (if Q e then insert e {x \<in> a_seen a. Q x} else {x \<in> a_seen a. Q x})" for Q by auto
  have card: "card {x \<in> insert e (a_seen a). has_bandwidth rem need x} =
      a_bwOK a + (if has_bandwidth rem need e then 1 else 0)"
    unfolding ins using inv fin False by (simp add: loop_inv_def)
  have "e \<notin> c_edge ` set (a_qual a)" using inv False by (auto simp: loop_inv_def)
  then show ?thesis
    using inv a'(2) unfolding a'(1) loop_inv_def select_acc.simps card
    by (auto simp: free_of_def)
qed

lemma select_loop_inv:
  assumes "foldE (select_step rem need remSess needSess) a es = Inr a'"
    and "loop_inv rem need remSess needSess a"
  shows "loop_inv rem need remSess needSess a' \<and> a_seen a' = a_seen a \<union> set es"
  using assms
proof (induction es arbitrary: a)
  case (Cons e es)
  then obtain b where b: "select_step rem need remSess needSess a e = Inr b"
      "foldE (select_step rem need remSess needSess) b es = Inr a'"
    by (auto simp: bindE_Inr_iff)
  then show ?case
    using Cons.IH [of b] select_step_inv [OF Cons.prems(2) b(1)] by auto
qed simp

lemma select_loop_total:
  assumes "answers rem remSess es"
  shows "\<exists>a'. foldE (select_step rem need remSess needSess) a es = Inr a'"
  using assms
proof (induction es arbitrary: a)
  case (Cons e es)
  have "\<exists>b. select_step rem need remSess needSess a e = Inr b"
    using Cons.prems
    by (auto simp: select_step_def Let_def answers_def rem_err_def split: option.splits)
  then show ?case using Cons by (auto simp: answers_def)
qed simp

lemma loop_inv_init: "loop_inv rem need remSess needSess \<lparr>a_qual = [], a_bwOK = 0, a_seen = {}\<rparr>"
  by (simp add: loop_inv_def)

lemma qual_card:
  assumes "loop_inv rem need remSess needSess a"
  shows "length (a_qual a) = card {e \<in> a_seen a. qualifies rem need remSess needSess e}"
proof -
  have "length (a_qual a) = card (set (map c_edge (a_qual a)))"
    using assms unfolding loop_inv_def by (metis distinct_card length_map)
  then show ?thesis using assms by (simp add: loop_inv_def)
qed

text \<open>A shuffle only permutes.\<close>

definition fair :: "tie_break \<Rightarrow> bool" where
  "fair tb \<longleftrightarrow> (case tb of EdgeIdTieBreak \<Rightarrow> True
     | RandomTieBreak shuffle \<Rightarrow> \<forall>q. mset (shuffle q) = mset q)"

lemma order_cands_props:
  assumes "fair tb"
  shows "mset (order_cands tb q) = mset q"
    and "sorted_wrt (\<lambda>a b. c_free b \<le> c_free a) (order_cands tb q)"
proof -
  show "mset (order_cands tb q) = mset q"
    using assms by (cases tb) (auto simp: order_cands_def fair_def)
  have "sorted_wrt (\<lambda>a b. c_free b \<le> c_free a) (sort_by less_free_id q)"
    by (rule sorted_wrt_mono_rel [OF _ free_id.sorted_sort_by])
       (auto simp: less_free_id_def not_less split: if_splits)
  moreover have "sorted_wrt (\<lambda>a b. c_free b \<le> c_free a) (sort_by less_free q')" for q'
    by (rule sorted_wrt_mono_rel [OF _ free.sorted_sort_by]) (auto simp: less_free_def not_less)
  ultimately show "sorted_wrt (\<lambda>a b. c_free b \<le> c_free a) (order_cands tb q)"
    by (cases tb) (auto simp: order_cands_def)
qed

section \<open>What SelectHomes returns\<close>

lemma SelectHomes_ok:
  assumes "SelectHomes tb cands rem need remSess needSess n = Inr homes" "fair tb" "0 < n"
  shows "length homes = nat n" "distinct homes" "set homes \<subseteq> set cands"
    and "\<forall>e\<in>set homes. qualifies rem need remSess needSess e"
    and "sorted_wrt (\<lambda>a b. free_of rem b \<le> free_of rem a) homes"
    and "\<forall>e\<in>set homes. \<forall>d\<in>set cands - set homes.
           qualifies rem need remSess needSess d \<longrightarrow> free_of rem d \<le> free_of rem e"
proof -
  obtain a where a: "foldE (select_step rem need remSess needSess)
        \<lparr>a_qual = [], a_bwOK = 0, a_seen = {}\<rparr> cands = Inr a"
      and len: "n \<le> int (length (a_qual a))"
      and homes: "homes = map c_edge (take (nat n) (order_cands tb (a_qual a)))"
    using assms(1,3) by (auto simp: SelectHomes_def bindE_Inr_iff split: if_splits)
  have inv: "loop_inv rem need remSess needSess a" and seen: "a_seen a = set cands"
    using select_loop_inv [OF a loop_inv_init] by auto
  let ?o = "order_cands tb (a_qual a)"
  have perm: "mset ?o = mset (a_qual a)"
    and sorted: "sorted_wrt (\<lambda>a b. c_free b \<le> c_free a) ?o"
    using order_cands_props [OF assms(2)] by blast+
  have leno: "length ?o = length (a_qual a)" using perm by (metis size_mset)
  have seto: "set ?o = set (a_qual a)" using perm by (metis set_mset_mset)
  have disto: "distinct (map c_edge ?o)"
    using inv perm by (metis loop_inv_def mset_eq_imp_distinct_iff mset_map)
  have freeo: "free_of rem (c_edge c) = c_free c" if "c \<in> set ?o" for c
    using inv that seto by (auto simp: loop_inv_def free_of_def)
  have q: "c_edge c \<in> set cands \<and> qualifies rem need remSess needSess (c_edge c)"
    if "c \<in> set ?o" for c
    using inv seen that seto unfolding loop_inv_def by auto
  show "length homes = nat n" using homes len leno by simp
  show "distinct homes" using homes disto by (simp add: take_map [symmetric] distinct_take)
  show "set homes \<subseteq> set cands" "\<forall>e\<in>set homes. qualifies rem need remSess needSess e"
    using homes q by (auto dest!: in_set_takeD)
  have st: "sorted_wrt (\<lambda>a b. c_free b \<le> c_free a) (take (nat n) ?o)"
    using sorted by (rule sorted_wrt_take)
  show "sorted_wrt (\<lambda>a b. free_of rem b \<le> free_of rem a) homes"
    unfolding homes sorted_wrt_map
    by (rule sorted_wrt_mono_rel [OF _ st]) (auto simp: freeo dest!: in_set_takeD)
  show "\<forall>e\<in>set homes. \<forall>d\<in>set cands - set homes.
           qualifies rem need remSess needSess d \<longrightarrow> free_of rem d \<le> free_of rem e"
  proof (intro ballI impI)
    fix e d
    assume e: "e \<in> set homes" and d: "d \<in> set cands - set homes"
      and qd: "qualifies rem need remSess needSess d"
    have "d \<in> set (map c_edge ?o)"
      using d qd inv seen seto unfolding loop_inv_def by auto
    then obtain c' where c': "c' \<in> set ?o" "c_edge c' = d" by auto
    obtain c where c: "c \<in> set (take (nat n) ?o)" "c_edge c = e" using e homes by auto
    have "c' \<in> set (drop (nat n) ?o)"
      using c' d homes by (metis Un_iff DiffD2 append_take_drop_id image_eqI list.set_map set_append)
    moreover have "sorted_wrt (\<lambda>a b. c_free b \<le> c_free a) (take (nat n) ?o @ drop (nat n) ?o)"
      using sorted by simp
    ultimately have "c_free c' \<le> c_free c"
      using c(1) unfolding sorted_wrt_append by blast
    then show "free_of rem d \<le> free_of rem e"
      using freeo c' c by (auto dest!: in_set_takeD)
  qed
qed

lemma SelectHomes_result:
  fixes need needSess n :: int
  assumes "answers rem remSess cands" "0 < n"
  defines "Q \<equiv> {e \<in> set cands. qualifies rem need remSess needSess e}"
    and "B \<equiv> {e \<in> set cands. has_bandwidth rem need e}"
  shows "(\<exists>homes. SelectHomes tb cands rem need remSess needSess n = Inr homes) \<longleftrightarrow> n \<le> int (card Q)"
    and "SelectHomes tb cands rem need remSess needSess n = Inl ErrInsufficientSessions \<longleftrightarrow>
           int (card Q) < n \<and> n \<le> int (card B) \<and> sess_on remSess needSess"
    and "SelectHomes tb cands rem need remSess needSess n = Inl ErrInsufficientCapacity \<longleftrightarrow>
           int (card Q) < n \<and> \<not> (n \<le> int (card B) \<and> sess_on remSess needSess)"
proof -
  obtain a where a: "foldE (select_step rem need remSess needSess)
        \<lparr>a_qual = [], a_bwOK = 0, a_seen = {}\<rparr> cands = Inr a"
    using select_loop_total [OF assms(1)] by blast
  have inv: "loop_inv rem need remSess needSess a" and seen: "a_seen a = set cands"
    using select_loop_inv [OF a loop_inv_init] by auto
  have cards: "length (a_qual a) = card Q" "a_bwOK a = card B"
    using qual_card [OF inv] inv seen by (auto simp: Q_def B_def loop_inv_def)
  show "(\<exists>homes. SelectHomes tb cands rem need remSess needSess n = Inr homes) \<longleftrightarrow> n \<le> int (card Q)"
    and "SelectHomes tb cands rem need remSess needSess n = Inl ErrInsufficientSessions \<longleftrightarrow>
           int (card Q) < n \<and> n \<le> int (card B) \<and> sess_on remSess needSess"
    and "SelectHomes tb cands rem need remSess needSess n = Inl ErrInsufficientCapacity \<longleftrightarrow>
           int (card Q) < n \<and> \<not> (n \<le> int (card B) \<and> sess_on remSess needSess)"
    using a cards assms(2) by (auto simp: SelectHomes_def sess_on_def)
qed

text \<open>
  C20: When \<open>SelectHomes\<close> succeeds it returns exactly n distinct candidates, each with at
  least \<open>need\<close> tokens and (when the session dimension is on) \<open>needSess\<close> sessions, most free
  first, and no qualifying candidate left out is freer than one chosen, whatever permutation
  the random tie-break draws.
\<close>

theorem SelectHomes_worst_fit:
  assumes "SelectHomes tb cands rem need remSess needSess n = Inr homes" "fair tb" "0 < n"
  shows "length homes = nat n \<and> distinct homes \<and> set homes \<subseteq> set cands
    \<and> (\<forall>e\<in>set homes. qualifies rem need remSess needSess e)
    \<and> sorted_wrt (\<lambda>a b. free_of rem b \<le> free_of rem a) homes
    \<and> (\<forall>e\<in>set homes. \<forall>d\<in>set cands - set homes.
         qualifies rem need remSess needSess d \<longrightarrow> free_of rem d \<le> free_of rem e)"
  using SelectHomes_ok [OF assms] by simp

definition demo_rem :: remaining where
  "demo_rem e = (if e = ''c'' then Inr 90 else if e = ''a'' then Inr 50 else Inr 10)"

theorem SelectHomes_worst_fit_witness:
  "SelectHomes (RandomTieBreak rev) [''a'', ''b'', ''c'', ''a''] demo_rem 20 None 0 2
     = Inr [''c'', ''a'']
   \<and> distinct [''c'', ''a''] \<and> free_of demo_rem ''a'' \<le> free_of demo_rem ''c''"
proof -
  have r: "SelectHomes (RandomTieBreak rev) [''a'', ''b'', ''c'', ''a''] demo_rem 20 None 0 2
     = Inr [''c'', ''a'']"
    by (simp add: SelectHomes_def select_step_def Let_def rem_err_def demo_rem_def
        order_cands_def less_free_def numeral_2_eq_2)
  have "fair (RandomTieBreak rev)" by (simp add: fair_def)
  from SelectHomes_worst_fit [OF r this] r show ?thesis by simp
qed

text \<open>
  When every capacity lookup answers, the outcome of \<open>SelectHomes\<close> is decided by two
  counts alone: it succeeds iff n candidates meet both constraints; a shortfall is
  \<open>ErrInsufficientSessions\<close> exactly when n candidates had bandwidth and the session dimension
  is on, and \<open>ErrInsufficientCapacity\<close> otherwise.
\<close>

theorem SelectHomes_outcome:
  assumes "answers rem remSess cands" "0 < n"
  shows "((\<exists>homes. SelectHomes tb cands rem need remSess needSess n = Inr homes) \<longleftrightarrow>
            n \<le> int (card {e \<in> set cands. qualifies rem need remSess needSess e}))
    \<and> (SelectHomes tb cands rem need remSess needSess n = Inl ErrInsufficientSessions \<longleftrightarrow>
         int (card {e \<in> set cands. qualifies rem need remSess needSess e}) < n
         \<and> n \<le> int (card {e \<in> set cands. has_bandwidth rem need e})
         \<and> sess_on remSess needSess)
    \<and> (SelectHomes tb cands rem need remSess needSess n = Inl ErrInsufficientCapacity \<longleftrightarrow>
         int (card {e \<in> set cands. qualifies rem need remSess needSess e}) < n
         \<and> \<not> (n \<le> int (card {e \<in> set cands. has_bandwidth rem need e})
              \<and> sess_on remSess needSess))"
  using SelectHomes_result [OF assms] by blast

theorem SelectHomes_outcome_witness:
  "SelectHomes EdgeIdTieBreak [''a'', ''c''] demo_rem 20 (Some (\<lambda>e. Inr 3)) 5 1
     = Inl ErrInsufficientSessions
   \<and> int (card {e \<in> set [''a'', ''c'']. qualifies demo_rem 20 (Some (\<lambda>e. Inr 3)) 5 e}) < 1"
proof -
  have r: "SelectHomes EdgeIdTieBreak [''a'', ''c''] demo_rem 20 (Some (\<lambda>e. Inr 3)) 5 1
     = Inl ErrInsufficientSessions"
    by (simp add: SelectHomes_def select_step_def Let_def rem_err_def demo_rem_def)
  have "answers demo_rem (Some (\<lambda>e. Inr 3)) [''a'', ''c'']"
    by (simp add: answers_def demo_rem_def)
  from SelectHomes_outcome [OF this, of 1 EdgeIdTieBreak 20 5] r show ?thesis by simp
qed

end
