(* ===== verification/Render.thy ===== *)
theory Render
  imports Contract
begin

text \<open>
  The renderer (\<open>internal/render/desired.go\<close>): pools and their homes to the per-edge desired
  state. Every renderer function appends to the state it is given, so the lemmas reduce each
  entry point to the concatenation of per-pool contributions.
\<close>

section \<open>Options and errors\<close>

record options =
  o_Generation :: nat
  o_EdgeAddrs :: "edge_id \<rightharpoonup> addr"
  o_EdgeAddrs6 :: "edge_id \<rightharpoonup> addr"
  o_HomeMarker :: "(edge_id \<Rightarrow> large_community option) option"
  o_Suppress :: "(edge_id \<Rightarrow> pfx \<Rightarrow> bool) option"

datatype render_error =
    NoHomeEdge pool_id
  | UnsupportedAction pool_id actionKind
  | BadMember pool_id pfx string
  | BadMask pool_id pfx direction string
  | NeedNextHop4 edge_id pool_id
  | NeedNextHop6 edge_id pool_id

section \<open>Policers and classify sessions\<close>

definition unlimitedCIRKbps :: u64 where
  "unlimitedCIRKbps = 100000000"

definition policerSpec :: "contract \<Rightarrow> pool \<Rightarrow> direction \<Rightarrow> rate_spec \<Rightarrow> policer_spec" where
  "policerSpec cx p dir r =
     (let (cir, rt, cb, exceed) =
            (if r_CIR r = 0
             then (unlimitedCIRKbps, RateKbps,
                   if r_CommittedBurstBytes r = 0 then 12500000 else r_CommittedBurstBytes r,
                   PolicerTransmit)
             else (r_CIR r, r_Type r, r_CommittedBurstBytes r, PolicerDrop))
      in \<lparr>ps_Name = PolicerName cx (p_ID p) dir,
          ps_PoolID = p_ID p,
          ps_Direction = dir,
          ps_Type = Policer1R2C,
          ps_RateType = rt,
          ps_CIR = cir,
          ps_CommittedBurstBytes = cb,
          ps_CommittedBurstPackets = r_CommittedBurstPackets r,
          ps_ConformAction = PolicerTransmit,
          ps_ExceedAction = exceed,
          ps_BindWorker = p_BindWorker p\<rparr>)"

definition classifySession ::
  "contract \<Rightarrow> pool \<Rightarrow> member \<Rightarrow> direction \<Rightarrow> render_error + classify_session"
where
  "classifySession cx p m dir =
     (case Member_MaskKind cx m dir of
        Inl err \<Rightarrow> Inl (BadMask (p_ID p) (m_Prefix m) dir err)
      | Inr mk \<Rightarrow> Inr \<lparr>k_PoolID = p_ID p, k_Prefix = m_Prefix m, k_Direction = dir,
          k_Mask = mk, k_PolicerName = PolicerName cx (p_ID p) dir\<rparr>)"

definition addClassify ::
  "contract \<Rightarrow> pool \<Rightarrow> edge_desired_state \<Rightarrow> member \<Rightarrow> render_error + edge_desired_state"
where
  "addClassify cx p st m =
     (case Member_Validate cx m of
        Some err \<Rightarrow> Inl (BadMember (p_ID p) (m_Prefix m) err)
      | None \<Rightarrow>
          bindE (classifySession cx p m DirectionIngress) (\<lambda>ing.
          bindE (classifySession cx p m DirectionEgress) (\<lambda>eg.
            Inr (st\<lparr>d_ClassifySessions := d_ClassifySessions st @ [ing, eg]\<rparr>))))"

definition addPolicersClassify ::
  "contract \<Rightarrow> edge_desired_state \<Rightarrow> pool \<Rightarrow> member list \<Rightarrow> render_error + edge_desired_state"
where
  "addPolicersClassify cx st p members =
     foldE (addClassify cx p)
       (st\<lparr>d_Policers := d_Policers st @
            [policerSpec cx p DirectionIngress (p_IngressRate p),
             policerSpec cx p DirectionEgress (p_EgressRate p)]\<rparr>) members"

section \<open>Pool roles on an edge\<close>

definition renderStandby ::
  "contract \<Rightarrow> edge_desired_state \<Rightarrow> pool \<Rightarrow> member list \<Rightarrow> render_error + edge_desired_state"
where
  "renderStandby cx st p members =
     (if a_Kind (p_Action p) \<noteq> ActionRateLimit then Inr st
      else addPolicersClassify cx st p members)"

definition suppressed :: "options \<Rightarrow> edge_id \<Rightarrow> member \<Rightarrow> bool" where
  "suppressed opt home m =
     (case o_Suppress opt of None \<Rightarrow> False | Some f \<Rightarrow> f home (m_Prefix m))"

definition marker_of :: "options \<Rightarrow> edge_id \<Rightarrow> large_community option" where
  "marker_of opt home = (case o_HomeMarker opt of None \<Rightarrow> None | Some f \<Rightarrow> f home)"

text \<open>The advertising loop of \<open>renderRateLimit\<close>: state, \<open>haveV4\<close>, \<open>haveV6\<close>.\<close>

definition advertise ::
  "options \<Rightarrow> edge_id \<Rightarrow> edge_desired_state \<times> bool \<times> bool \<Rightarrow> member \<Rightarrow>
   edge_desired_state \<times> bool \<times> bool"
where
  "advertise opt home = (\<lambda>(st, haveV4, haveV6) m.
     if suppressed opt home m then (st, haveV4, haveV6)
     else
       let a = \<lparr>an_Prefix = m_Prefix m, an_Communities = [],
                an_LargeCommunities = (case marker_of opt home of None \<Rightarrow> [] | Some lc \<Rightarrow> [lc])\<rparr>;
           st = st\<lparr>d_Anchors := d_Anchors st @ [a],
                   d_FlowRedirects := d_FlowRedirects st @ [\<lparr>f_SrcPrefix = m_Prefix m\<rparr>]\<rparr>
       in if Is6 (pAddr (m_Prefix m)) then (st, haveV4, True) else (st, True, haveV6))"

definition set_nexthop4 ::
  "options \<Rightarrow> edge_id \<Rightarrow> pool \<Rightarrow> bool \<Rightarrow> edge_desired_state \<Rightarrow> render_error + edge_desired_state"
where
  "set_nexthop4 opt home p have st =
     (if \<not> have then Inr st
      else case o_EdgeAddrs opt home of
        None \<Rightarrow> Inl (NeedNextHop4 home (p_ID p))
      | Some a \<Rightarrow> if \<not> addr_IsValid a \<or> \<not> Is4 a then Inl (NeedNextHop4 home (p_ID p))
                  else Inr (st\<lparr>d_RedirectNextHop := a\<rparr>))"

definition set_nexthop6 ::
  "options \<Rightarrow> edge_id \<Rightarrow> pool \<Rightarrow> bool \<Rightarrow> edge_desired_state \<Rightarrow> render_error + edge_desired_state"
where
  "set_nexthop6 opt home p have st =
     (if \<not> have then Inr st
      else case o_EdgeAddrs6 opt home of
        None \<Rightarrow> Inl (NeedNextHop6 home (p_ID p))
      | Some a \<Rightarrow> if \<not> addr_IsValid a \<or> \<not> Is6 a then Inl (NeedNextHop6 home (p_ID p))
                  else Inr (st\<lparr>d_RedirectNextHopV6 := a\<rparr>))"

definition renderRateLimit ::
  "contract \<Rightarrow> options \<Rightarrow> edge_id \<Rightarrow> edge_desired_state \<Rightarrow> pool \<Rightarrow> member list \<Rightarrow>
   render_error + edge_desired_state"
where
  "renderRateLimit cx opt home st p members =
     bindE (addPolicersClassify cx st p members) (\<lambda>st.
       case foldl (advertise opt home) (st, False, False) members of
         (st, haveV4, haveV6) \<Rightarrow>
           bindE (set_nexthop4 opt home p haveV4 st) (set_nexthop6 opt home p haveV6))"

definition renderBlackhole ::
  "options \<Rightarrow> edge_id \<Rightarrow> edge_desired_state \<Rightarrow> pool \<Rightarrow> member list \<Rightarrow> edge_desired_state"
where
  "renderBlackhole opt home st p members =
     foldl (\<lambda>st m.
       if suppressed opt home m then st
       else st\<lparr>d_Anchors := d_Anchors st @
         [\<lparr>an_Prefix = m_Prefix m,
           an_Communities = (case a_RTBHCommunity (p_Action p) of None \<Rightarrow> [] | Some c \<Rightarrow> [c]),
           an_LargeCommunities =
             (case a_RTBHLargeCommunity (p_Action p) of None \<Rightarrow> [] | Some c \<Rightarrow> [c])\<rparr>]\<rparr>) st members"

definition sort_members :: "member list \<Rightarrow> member list" where
  "sort_members = sort_by (less_key (\<lambda>m. pfx_String (m_Prefix m)))"

definition sort_pools :: "pool list \<Rightarrow> pool list" where
  "sort_pools = sort_by (less_key p_ID)"

definition empty_state :: "edge_id \<Rightarrow> options \<Rightarrow> edge_desired_state" where
  "empty_state edge opt = \<lparr>d_EdgeID = edge, d_Generation = o_Generation opt, d_Policers = [],
     d_ClassifySessions = [], d_Anchors = [], d_FlowRedirects = [],
     d_RedirectNextHop = AddrInvalid, d_RedirectNextHopV6 = AddrInvalid\<rparr>"

text \<open>The \<open>switch p.Action.Kind\<close> of a primary home.\<close>

definition renderPrimary ::
  "contract \<Rightarrow> options \<Rightarrow> edge_id \<Rightarrow> edge_desired_state \<Rightarrow> pool \<Rightarrow> member list \<Rightarrow>
   render_error + edge_desired_state"
where
  "renderPrimary cx opt home st p members =
     (case a_Kind (p_Action p) of
        ActionRateLimit \<Rightarrow> renderRateLimit cx opt home st p members
      | ActionBlackhole \<Rightarrow> Inr (renderBlackhole opt home st p members)
      | k \<Rightarrow> Inl (UnsupportedAction (p_ID p) k))"

section \<open>The three entry points\<close>

definition ForPool ::
  "contract \<Rightarrow> options \<Rightarrow> edge_id \<Rightarrow> pool \<Rightarrow> bool \<Rightarrow> render_error + pool_delta"
where
  "ForPool cx opt edge p standby =
     (let members = sort_members (p_Members p) in
      bindE (if standby then renderStandby cx (empty_state edge opt) p members
             else renderPrimary cx opt edge (empty_state edge opt) p members) (\<lambda>st.
        Inr \<lparr>pd_PoolID = p_ID p, pd_Policers = d_Policers st,
             pd_ClassifySessions = d_ClassifySessions st, pd_Anchors = d_Anchors st,
             pd_FlowRedirects = d_FlowRedirects st,
             pd_RedirectNextHop = d_RedirectNextHop st,
             pd_RedirectNextHopV6 = d_RedirectNextHopV6 st\<rparr>))"

definition ForEdge ::
  "contract \<Rightarrow> options \<Rightarrow> edge_id \<Rightarrow> pool list \<Rightarrow> pool list \<Rightarrow> render_error + edge_desired_state"
where
  "ForEdge cx opt edge primary backup =
     bindE (foldE (\<lambda>st p. renderPrimary cx opt edge st p (sort_members (p_Members p)))
              (empty_state edge opt) (sort_pools primary)) (\<lambda>st.
       foldE (\<lambda>st p. renderStandby cx st p (sort_members (p_Members p))) st (sort_pools backup))"

definition DesiredStates ::
  "contract \<Rightarrow> options \<Rightarrow> pool list \<Rightarrow> render_error + (edge_id \<rightharpoonup> edge_desired_state)"
where
  "DesiredStates cx opt pools =
     foldE (\<lambda>states p.
       if p_HomeEdge p = [] then Inl (NoHomeEdge (p_ID p))
       else
         let st = (case states (p_HomeEdge p) of Some s \<Rightarrow> s
                   | None \<Rightarrow> empty_state (p_HomeEdge p) opt)
         in bindE (renderPrimary cx opt (p_HomeEdge p) st p (sort_members (p_Members p)))
              (\<lambda>st. Inr (states(p_HomeEdge p \<mapsto> st))))
       Map.empty (sort_pools pools)"


section \<open>Every renderer appends\<close>

text \<open>The state \<open>s\<close> contributes on top of \<open>st\<close>: lists are appended, a set next hop wins.\<close>

definition merge :: "edge_desired_state \<Rightarrow> edge_desired_state \<Rightarrow> edge_desired_state" where
  "merge st s = st\<lparr>d_Policers := d_Policers st @ d_Policers s,
     d_ClassifySessions := d_ClassifySessions st @ d_ClassifySessions s,
     d_Anchors := d_Anchors st @ d_Anchors s,
     d_FlowRedirects := d_FlowRedirects st @ d_FlowRedirects s,
     d_RedirectNextHop := (if addr_IsValid (d_RedirectNextHop s) then d_RedirectNextHop s
                           else d_RedirectNextHop st),
     d_RedirectNextHopV6 := (if addr_IsValid (d_RedirectNextHopV6 s) then d_RedirectNextHopV6 s
                           else d_RedirectNextHopV6 st)\<rparr>"

lemma merge_empty [simp]: "merge st (empty_state edge opt) = st"
  by (simp add: merge_def empty_state_def addr_IsValid_def)

lemma empty_merge:
  "d_EdgeID s = edge \<Longrightarrow> d_Generation s = o_Generation opt \<Longrightarrow> merge (empty_state edge opt) s = s"
  by (cases s) (auto simp: merge_def empty_state_def addr_IsValid_def)

lemma merge_assoc: "merge (merge a b) c = merge a (merge b c)"
  by (simp add: merge_def)

text \<open>
  \<open>appends f\<close>: running the state transformer \<open>f\<close> on \<open>st\<close> is running it on the empty state
  and merging.
\<close>

definition appends ::
  "edge_id \<Rightarrow> options \<Rightarrow> (edge_desired_state \<Rightarrow> render_error + edge_desired_state) \<Rightarrow> bool"
where
  "appends edge opt f \<longleftrightarrow>
     (\<forall>st. f st = bindE (f (empty_state edge opt)) (\<lambda>s. Inr (merge st s)))
     \<and> (\<forall>st s. f st = Inr s \<longrightarrow> d_EdgeID s = d_EdgeID st \<and> d_Generation s = d_Generation st)"

lemma appendsD: "appends edge opt f \<Longrightarrow> f st = bindE (f (empty_state edge opt)) (\<lambda>s. Inr (merge st s))"
  unfolding appends_def by blast

lemma appends_id: "appends edge opt Inr"
  by (simp add: appends_def)

lemma appends_bind:
  assumes f: "appends edge opt f" and g: "appends edge opt g"
  shows "appends edge opt (\<lambda>st. bindE (f st) g)"
proof -
  have "bindE (f st) g = bindE (bindE (f (empty_state edge opt)) g) (\<lambda>s. Inr (merge st s))" for st
  proof (cases "f (empty_state edge opt)")
    case (Inl e)
    then show ?thesis by (subst appendsD [OF f]) simp
  next
    case (Inr s)
    have "bindE (f st) g = g (merge st s)" by (subst appendsD [OF f]) (simp add: Inr)
    also have "\<dots> = bindE (g (empty_state edge opt)) (\<lambda>t. Inr (merge (merge st s) t))"
      by (rule appendsD [OF g])
    also have "\<dots> = bindE (g s) (\<lambda>s. Inr (merge st s))"
      by (subst (2) appendsD [OF g]) (simp add: bindE_assoc merge_assoc)
    finally show ?thesis by (simp add: Inr)
  qed
  moreover have "d_EdgeID s = d_EdgeID st \<and> d_Generation s = d_Generation st"
    if "bindE (f st) g = Inr s" for st s
    using that f g unfolding appends_def bindE_Inr_iff by metis
  ultimately show ?thesis unfolding appends_def by blast
qed

lemma appends_foldE:
  "(\<And>x. x \<in> set xs \<Longrightarrow> appends edge opt (\<lambda>st. f st x)) \<Longrightarrow> appends edge opt (\<lambda>st. foldE f st xs)"
proof (induction xs)
  case (Cons x xs)
  then show ?case
    using appends_bind [of edge opt "\<lambda>st. f st x" "\<lambda>st. foldE f st xs"] by simp
qed (simp add: appends_id)

lemma appends_if: "appends edge opt f \<Longrightarrow> appends edge opt g \<Longrightarrow>
   appends edge opt (\<lambda>st. if b then f st else g st)"
  by (cases b) simp_all

lemma appends_addClassify: "appends edge opt (\<lambda>st. addClassify cx p st m)"
  by (auto simp: appends_def addClassify_def merge_def empty_state_def addr_IsValid_def
      bindE_Inr_iff bindE_assoc split: option.splits)

lemma appends_addPolicersClassify: "appends edge opt (\<lambda>st. addPolicersClassify cx st p members)"
proof -
  let ?g = "\<lambda>st. Inr (st\<lparr>d_Policers := d_Policers st @
      [policerSpec cx p DirectionIngress (p_IngressRate p),
       policerSpec cx p DirectionEgress (p_EgressRate p)]\<rparr>)"
  have "appends edge opt ?g"
    by (auto simp: appends_def merge_def empty_state_def addr_IsValid_def)
  from appends_bind [OF this appends_foldE [OF appends_addClassify]]
  show ?thesis by (simp add: addPolicersClassify_def)
qed

text \<open>The advertising loop in closed form.\<close>

definition advertised :: "options \<Rightarrow> edge_id \<Rightarrow> member list \<Rightarrow> member list" where
  "advertised opt home members = filter (\<lambda>m. \<not> suppressed opt home m) members"

definition rl_anchor :: "options \<Rightarrow> edge_id \<Rightarrow> member \<Rightarrow> anchor" where
  "rl_anchor opt home m = \<lparr>an_Prefix = m_Prefix m, an_Communities = [],
     an_LargeCommunities = (case marker_of opt home of None \<Rightarrow> [] | Some lc \<Rightarrow> [lc])\<rparr>"

lemma advertise_fold:
  "foldl (advertise opt home) (st, v4, v6) members =
     (st\<lparr>d_Anchors := d_Anchors st @ map (rl_anchor opt home) (advertised opt home members),
         d_FlowRedirects := d_FlowRedirects st @
           map (\<lambda>m. \<lparr>f_SrcPrefix = m_Prefix m\<rparr>) (advertised opt home members)\<rparr>,
      v4 \<or> (\<exists>m \<in> set (advertised opt home members). \<not> Is6 (pAddr (m_Prefix m))),
      v6 \<or> (\<exists>m \<in> set (advertised opt home members). Is6 (pAddr (m_Prefix m))))"
  by (induction members arbitrary: st v4 v6)
     (auto simp: advertise_def advertised_def rl_anchor_def Let_def)

lemma appends_nexthop4: "appends edge opt (\<lambda>st. set_nexthop4 opt' home p b st)"
  by (auto simp: appends_def set_nexthop4_def merge_def empty_state_def addr_IsValid_def
      split: option.splits)

lemma appends_nexthop6: "appends edge opt (\<lambda>st. set_nexthop6 opt' home p b st)"
  by (auto simp: appends_def set_nexthop6_def merge_def empty_state_def addr_IsValid_def
      split: option.splits)

lemma appends_renderRateLimit: "appends edge opt (\<lambda>st. renderRateLimit cx opt' home st p members)"
proof -
  have adv: "appends edge opt (\<lambda>st. Inr (st
      \<lparr>d_Anchors := d_Anchors st @ as, d_FlowRedirects := d_FlowRedirects st @ fs\<rparr>))" for as fs
    by (auto simp: appends_def merge_def empty_state_def addr_IsValid_def)
  show ?thesis
    unfolding renderRateLimit_def advertise_fold
    by (simp, rule appends_bind [OF appends_addPolicersClassify])
       (rule appends_bind [OF adv appends_bind [OF appends_nexthop4 appends_nexthop6], simplified])
qed

lemma renderBlackhole_fold:
  "renderBlackhole opt home st p members = st\<lparr>d_Anchors := d_Anchors st @
     map (\<lambda>m. \<lparr>an_Prefix = m_Prefix m,
        an_Communities = (case a_RTBHCommunity (p_Action p) of None \<Rightarrow> [] | Some c \<Rightarrow> [c]),
        an_LargeCommunities =
          (case a_RTBHLargeCommunity (p_Action p) of None \<Rightarrow> [] | Some c \<Rightarrow> [c])\<rparr>)
       (advertised opt home members)\<rparr>"
  unfolding renderBlackhole_def
  by (induction members arbitrary: st) (auto simp: advertised_def)

lemma appends_renderPrimary: "appends edge opt (\<lambda>st. renderPrimary cx opt' home st p members)"
proof -
  have "appends edge opt (\<lambda>st. Inr (renderBlackhole opt' home st p members))"
    by (auto simp: renderBlackhole_fold appends_def merge_def empty_state_def addr_IsValid_def)
  moreover have "appends edge opt (\<lambda>st. Inl err)" for err by (simp add: appends_def)
  ultimately show ?thesis
    by (cases "a_Kind (p_Action p)") (simp_all add: renderPrimary_def appends_renderRateLimit)
qed

lemma appends_renderStandby: "appends edge opt (\<lambda>st. renderStandby cx st p members)"
  unfolding renderStandby_def
  by (rule appends_if [OF appends_id appends_addPolicersClassify])

lemmas renderers_append = appends_renderPrimary appends_renderStandby

section \<open>Whole-edge states are sums of per-pool deltas\<close>

text \<open>The state an edge holds after applying a list of pool deltas to the empty state.\<close>

definition last_valid :: "addr list \<Rightarrow> addr" where
  "last_valid as = (case rev (filter addr_IsValid as) of [] \<Rightarrow> AddrInvalid | a # _ \<Rightarrow> a)"

definition assemble :: "edge_id \<Rightarrow> options \<Rightarrow> pool_delta list \<Rightarrow> edge_desired_state" where
  "assemble edge opt ds =
     \<lparr>d_EdgeID = edge, d_Generation = o_Generation opt,
      d_Policers = concat (map pd_Policers ds),
      d_ClassifySessions = concat (map pd_ClassifySessions ds),
      d_Anchors = concat (map pd_Anchors ds),
      d_FlowRedirects = concat (map pd_FlowRedirects ds),
      d_RedirectNextHop = last_valid (map pd_RedirectNextHop ds),
      d_RedirectNextHopV6 = last_valid (map pd_RedirectNextHopV6 ds)\<rparr>"

definition state_of_delta :: "edge_id \<Rightarrow> options \<Rightarrow> pool_delta \<Rightarrow> edge_desired_state" where
  "state_of_delta edge opt d =
     \<lparr>d_EdgeID = edge, d_Generation = o_Generation opt, d_Policers = pd_Policers d,
      d_ClassifySessions = pd_ClassifySessions d, d_Anchors = pd_Anchors d,
      d_FlowRedirects = pd_FlowRedirects d, d_RedirectNextHop = pd_RedirectNextHop d,
      d_RedirectNextHopV6 = pd_RedirectNextHopV6 d\<rparr>"

text \<open>One pool in one role, on an arbitrary starting state.\<close>

definition renderRole ::
  "contract \<Rightarrow> options \<Rightarrow> edge_id \<Rightarrow> pool \<times> bool \<Rightarrow> edge_desired_state \<Rightarrow>
   render_error + edge_desired_state"
where
  "renderRole cx opt edge = (\<lambda>(p, standby) st.
     if standby then renderStandby cx st p (sort_members (p_Members p))
     else renderPrimary cx opt edge st p (sort_members (p_Members p)))"

lemma appends_renderRole: "appends edge opt (renderRole cx opt' home r)"
  by (cases r) (simp add: renderRole_def appends_if renderers_append)

lemma renderRole_ForPool:
  "renderRole cx opt edge (p, sb) st =
     bindE (ForPool cx opt edge p sb) (\<lambda>d. Inr (merge st (state_of_delta edge opt d)))"
proof -
  let ?r = "renderRole cx opt edge (p, sb) (empty_state edge opt)"
  have "ForPool cx opt edge p sb = bindE ?r (\<lambda>st. Inr \<lparr>pd_PoolID = p_ID p,
      pd_Policers = d_Policers st, pd_ClassifySessions = d_ClassifySessions st,
      pd_Anchors = d_Anchors st, pd_FlowRedirects = d_FlowRedirects st,
      pd_RedirectNextHop = d_RedirectNextHop st,
      pd_RedirectNextHopV6 = d_RedirectNextHopV6 st\<rparr>)"
    by (simp add: ForPool_def renderRole_def Let_def)
  moreover have "renderRole cx opt edge (p, sb) st = bindE ?r (\<lambda>s. Inr (merge st s))"
    by (rule appendsD [OF appends_renderRole])
  ultimately show ?thesis
    by (cases ?r) (simp_all add: state_of_delta_def merge_def)
qed

lemma last_valid_snoc:
  "last_valid (as @ [a]) = (if addr_IsValid a then a else last_valid as)"
  by (simp add: last_valid_def)

lemma assemble_snoc: "assemble edge opt (ds @ [d]) = merge (assemble edge opt ds) (state_of_delta edge opt d)"
  by (simp add: assemble_def merge_def state_of_delta_def last_valid_snoc)

lemma assemble_Nil: "assemble edge opt [] = empty_state edge opt"
  by (simp add: assemble_def empty_state_def last_valid_def)

lemma renderRoles_assemble:
  "foldE (\<lambda>st r. renderRole cx opt edge r st) (assemble edge opt acc) rs =
     bindE (mapE (\<lambda>(p, sb). ForPool cx opt edge p sb) rs) (\<lambda>ds. Inr (assemble edge opt (acc @ ds)))"
proof (induction rs arbitrary: acc)
  case (Cons r rs)
  obtain p sb where r: "r = (p, sb)" by (cases r)
  show ?case
    using Cons.IH [of "acc @ [_]"]
    by (cases "ForPool cx opt edge p sb") (simp_all add: r renderRole_ForPool bindE_assoc flip: assemble_snoc)
qed simp

definition roles :: "pool list \<Rightarrow> pool list \<Rightarrow> (pool \<times> bool) list" where
  "roles primary backup =
     map (\<lambda>p. (p, False)) (sort_pools primary) @ map (\<lambda>p. (p, True)) (sort_pools backup)"

lemma foldE_map: "foldE f s (map g xs) = foldE (\<lambda>s x. f s (g x)) s xs"
  by (induction xs arbitrary: s) auto

lemma ForEdge_roles:
  "ForEdge cx opt edge primary backup =
     foldE (\<lambda>st r. renderRole cx opt edge r st) (empty_state edge opt) (roles primary backup)"
  by (simp add: ForEdge_def roles_def foldE_append foldE_map renderRole_def)

lemma ForEdge_deltas:
  "ForEdge cx opt edge primary backup =
     bindE (mapE (\<lambda>(p, sb). ForPool cx opt edge p sb) (roles primary backup))
       (\<lambda>ds. Inr (assemble edge opt ds))"
  using renderRoles_assemble [of cx opt edge "[]"] by (simp add: ForEdge_roles assemble_Nil)

lemma ForEdge_Inr_iff:
  "ForEdge cx opt edge primary backup = Inr st \<longleftrightarrow>
     (\<exists>ds. map (\<lambda>(p, sb). ForPool cx opt edge p sb) (roles primary backup) = map Inr ds
           \<and> st = assemble edge opt ds)"
  by (auto simp: ForEdge_deltas bindE_Inr_iff mapE_Inr_iff)

section \<open>What one pool contributes\<close>

definition pool_policers :: "contract \<Rightarrow> pool \<Rightarrow> policer_spec list" where
  "pool_policers cx p =
     (if a_Kind (p_Action p) = ActionRateLimit
      then [policerSpec cx p DirectionIngress (p_IngressRate p),
            policerSpec cx p DirectionEgress (p_EgressRate p)] else [])"

text \<open>The members whose machinery a pool needs: none for a blackhole.\<close>

definition limited_members :: "pool \<Rightarrow> member list" where
  "limited_members p =
     (if a_Kind (p_Action p) = ActionRateLimit then sort_members (p_Members p) else [])"

definition machinery_ok :: "contract \<Rightarrow> pool \<Rightarrow> bool" where
  "machinery_ok cx p \<longleftrightarrow> (\<forall>m \<in> set (limited_members p). Member_Validate cx m = None
     \<and> (\<forall>dir. \<exists>k. Member_MaskKind cx m dir = Inr k))"

lemma all_direction: "(\<forall>dir. P dir) \<longleftrightarrow> P DirectionIngress \<and> P DirectionEgress"
  by (metis direction.exhaust)

lemma addClassify_Inr_iff:
  "(\<exists>st'. addClassify cx p st m = Inr st') \<longleftrightarrow>
     Member_Validate cx m = None \<and> (\<forall>dir. \<exists>k. Member_MaskKind cx m dir = Inr k)"
  by (auto simp: addClassify_def classifySession_def bindE_Inr_iff all_direction
      split: option.splits sum.splits)

lemma addClassify_shape:
  assumes "addClassify cx p st m = Inr st'"
  obtains ing eg where "st' = st\<lparr>d_ClassifySessions := d_ClassifySessions st @ [ing, eg]\<rparr>"
    "k_Prefix ing = m_Prefix m" "k_Prefix eg = m_Prefix m"
    "k_Direction ing = DirectionIngress" "k_Direction eg = DirectionEgress"
    "k_PoolID ing = p_ID p" "k_PoolID eg = p_ID p"
    "k_PolicerName ing = PolicerName cx (p_ID p) DirectionIngress"
    "k_PolicerName eg = PolicerName cx (p_ID p) DirectionEgress"
  using assms
  by (auto simp: addClassify_def classifySession_def bindE_Inr_iff split: option.splits sum.splits)

text \<open>The (pool, prefix, direction, policer) a session ties together.\<close>

definition session_key :: "classify_session \<Rightarrow> pool_id \<times> pfx \<times> direction \<times> string" where
  "session_key k = (k_PoolID k, k_Prefix k, k_Direction k, k_PolicerName k)"

definition member_keys :: "contract \<Rightarrow> pool \<Rightarrow> (pool_id \<times> pfx \<times> direction \<times> string) list" where
  "member_keys cx p = concat (map (\<lambda>m. map (\<lambda>dir. (p_ID p, m_Prefix m, dir, PolicerName cx (p_ID p) dir))
     [DirectionIngress, DirectionEgress]) (limited_members p))"

lemma addClassify_fold:
  assumes "foldE (addClassify cx p) st members = Inr st'"
  shows "\<exists>ks. st' = st\<lparr>d_ClassifySessions := d_ClassifySessions st @ ks\<rparr>
     \<and> map session_key ks = concat (map (\<lambda>m. map (\<lambda>dir. (p_ID p, m_Prefix m, dir,
         PolicerName cx (p_ID p) dir)) [DirectionIngress, DirectionEgress]) members)"
  using assms
proof (induction members arbitrary: st)
  case Nil
  then show ?case by (intro exI [of _ "[]"]) auto
next
  case (Cons m ms)
  then obtain s1 where s1: "addClassify cx p st m = Inr s1"
      "foldE (addClassify cx p) s1 ms = Inr st'"
    by (auto simp: bindE_Inr_iff)
  then obtain ing eg where i: "s1 = st\<lparr>d_ClassifySessions := d_ClassifySessions st @ [ing, eg]\<rparr>"
    "session_key ing = (p_ID p, m_Prefix m, DirectionIngress, PolicerName cx (p_ID p) DirectionIngress)"
    "session_key eg = (p_ID p, m_Prefix m, DirectionEgress, PolicerName cx (p_ID p) DirectionEgress)"
    by (auto simp: session_key_def elim!: addClassify_shape)
  obtain ks where ks: "st' = s1\<lparr>d_ClassifySessions := d_ClassifySessions s1 @ ks\<rparr>"
    "map session_key ks = concat (map (\<lambda>m. map (\<lambda>dir. (p_ID p, m_Prefix m, dir,
         PolicerName cx (p_ID p) dir)) [DirectionIngress, DirectionEgress]) ms)"
    using Cons.IH s1 by blast
  then show ?case using i by (intro exI [of _ "ing # eg # ks"]) auto
qed

lemma addClassify_fold_ok:
  "(\<exists>st'. foldE (addClassify cx p) st members = Inr st') \<longleftrightarrow>
     (\<forall>m \<in> set members. Member_Validate cx m = None
        \<and> (\<forall>dir. \<exists>k. Member_MaskKind cx m dir = Inr k))"
proof (induction members arbitrary: st)
  case (Cons m ms)
  show ?case
  proof (cases "addClassify cx p st m")
    case (Inl e)
    then show ?thesis using addClassify_Inr_iff [of cx p st m] by auto
  next
    case (Inr s1)
    then show ?thesis using Cons.IH [of s1] addClassify_Inr_iff [of cx p st m] by auto
  qed
qed simp

text \<open>Next hops a primary home needs, by the family of the members it advertises.\<close>

definition shown :: "options \<Rightarrow> edge_id \<Rightarrow> pool \<Rightarrow> member list" where
  "shown opt edge p = advertised opt edge (sort_members (p_Members p))"

definition needs4 :: "options \<Rightarrow> edge_id \<Rightarrow> pool \<Rightarrow> bool" where
  "needs4 opt edge p \<longleftrightarrow> a_Kind (p_Action p) = ActionRateLimit
     \<and> (\<exists>m \<in> set (shown opt edge p). \<not> Is6 (pAddr (m_Prefix m)))"

definition needs6 :: "options \<Rightarrow> edge_id \<Rightarrow> pool \<Rightarrow> bool" where
  "needs6 opt edge p \<longleftrightarrow> a_Kind (p_Action p) = ActionRateLimit
     \<and> (\<exists>m \<in> set (shown opt edge p). Is6 (pAddr (m_Prefix m)))"

definition nexthop4_ok :: "options \<Rightarrow> edge_id \<Rightarrow> bool" where
  "nexthop4_ok opt edge \<longleftrightarrow> (\<exists>a. o_EdgeAddrs opt edge = Some a \<and> Is4 a)"

definition nexthop6_ok :: "options \<Rightarrow> edge_id \<Rightarrow> bool" where
  "nexthop6_ok opt edge \<longleftrightarrow> (\<exists>a. o_EdgeAddrs6 opt edge = Some a \<and> Is6 a)"

lemma family_valid: "Is4 a \<Longrightarrow> addr_IsValid a" "Is6 a \<Longrightarrow> addr_IsValid a"
  by (cases a; simp add: addr_IsValid_def)+

lemma set_nexthop4_Inr_iff:
  "set_nexthop4 opt edge p b st = Inr st' \<longleftrightarrow>
     (b \<longrightarrow> nexthop4_ok opt edge) \<and>
     st' = (if b then st\<lparr>d_RedirectNextHop := the (o_EdgeAddrs opt edge)\<rparr> else st)"
  by (auto simp: set_nexthop4_def nexthop4_ok_def family_valid split: option.splits)

lemma set_nexthop6_Inr_iff:
  "set_nexthop6 opt edge p b st = Inr st' \<longleftrightarrow>
     (b \<longrightarrow> nexthop6_ok opt edge) \<and>
     st' = (if b then st\<lparr>d_RedirectNextHopV6 := the (o_EdgeAddrs6 opt edge)\<rparr> else st)"
  by (auto simp: set_nexthop6_def nexthop6_ok_def family_valid split: option.splits)

definition role_ok :: "contract \<Rightarrow> options \<Rightarrow> edge_id \<Rightarrow> pool \<Rightarrow> bool \<Rightarrow> bool" where
  "role_ok cx opt edge p standby \<longleftrightarrow> machinery_ok cx p \<and>
     (standby \<or> (a_Kind (p_Action p) \<noteq> ActionScrub
        \<and> (needs4 opt edge p \<longrightarrow> nexthop4_ok opt edge)
        \<and> (needs6 opt edge p \<longrightarrow> nexthop6_ok opt edge)))"

lemma ForPool_ok_iff: "(\<exists>d. ForPool cx opt edge p sb = Inr d) \<longleftrightarrow> role_ok cx opt edge p sb"
proof (cases "a_Kind (p_Action p)")
  case ActionRateLimit
  let ?ms = "sort_members (p_Members p)"
  have m: "machinery_ok cx p \<longleftrightarrow>
      (\<exists>st'. addPolicersClassify cx (empty_state edge opt) p ?ms = Inr st')"
    by (simp add: addPolicersClassify_def addClassify_fold_ok machinery_ok_def
        limited_members_def ActionRateLimit)
  show ?thesis
    using ActionRateLimit m
    by (auto simp: ForPool_def Let_def bindE_Inr_iff role_ok_def renderStandby_def
        renderPrimary_def renderRateLimit_def advertise_fold set_nexthop4_Inr_iff
        set_nexthop6_Inr_iff needs4_def needs6_def shown_def)
qed (cases sb; simp add: ForPool_def Let_def renderStandby_def renderPrimary_def role_ok_def
        machinery_ok_def limited_members_def needs4_def needs6_def)+

definition pool_anchors :: "options \<Rightarrow> edge_id \<Rightarrow> pool \<Rightarrow> anchor list" where
  "pool_anchors opt edge p =
     (if a_Kind (p_Action p) = ActionRateLimit then map (rl_anchor opt edge) (shown opt edge p)
      else map (\<lambda>m. \<lparr>an_Prefix = m_Prefix m,
        an_Communities = (case a_RTBHCommunity (p_Action p) of None \<Rightarrow> [] | Some c \<Rightarrow> [c]),
        an_LargeCommunities =
          (case a_RTBHLargeCommunity (p_Action p) of None \<Rightarrow> [] | Some c \<Rightarrow> [c])\<rparr>)
       (shown opt edge p))"

lemma addPolicersClassify_shape:
  assumes "addPolicersClassify cx (empty_state edge opt) p (sort_members (p_Members p)) = Inr st'"
    and "a_Kind (p_Action p) = ActionRateLimit"
  obtains ks where "st' = empty_state edge opt
        \<lparr>d_Policers := pool_policers cx p, d_ClassifySessions := ks\<rparr>"
      "map session_key ks = member_keys cx p"
proof -
  obtain ks where "st' = empty_state edge opt\<lparr>d_Policers := pool_policers cx p\<rparr>
        \<lparr>d_ClassifySessions := [] @ ks\<rparr>" "map session_key ks = member_keys cx p"
    using addClassify_fold [OF assms(1) [unfolded addPolicersClassify_def]] assms(2)
    by (auto simp: empty_state_def pool_policers_def member_keys_def limited_members_def)
  then show thesis using that by simp
qed

lemma ForPool_shape:
  assumes "ForPool cx opt edge p sb = Inr d"
  shows "pd_PoolID d = p_ID p \<and> pd_Policers d = pool_policers cx p
    \<and> map session_key (pd_ClassifySessions d) = member_keys cx p
    \<and> pd_Anchors d = (if sb then [] else pool_anchors opt edge p)
    \<and> pd_FlowRedirects d =
      (if \<not> sb \<and> a_Kind (p_Action p) = ActionRateLimit
       then map (\<lambda>m. \<lparr>f_SrcPrefix = m_Prefix m\<rparr>) (shown opt edge p) else [])
    \<and> pd_RedirectNextHop d =
      (if \<not> sb \<and> needs4 opt edge p then the (o_EdgeAddrs opt edge) else AddrInvalid)
    \<and> pd_RedirectNextHopV6 d =
      (if \<not> sb \<and> needs6 opt edge p then the (o_EdgeAddrs6 opt edge) else AddrInvalid)"
proof (cases "a_Kind (p_Action p)")
  case ActionRateLimit
  let ?ms = "sort_members (p_Members p)"
  obtain st' where st': "addPolicersClassify cx (empty_state edge opt) p ?ms = Inr st'"
    using assms ActionRateLimit
    by (cases sb) (auto simp: ForPool_def Let_def bindE_Inr_iff renderStandby_def
      renderPrimary_def renderRateLimit_def)
  then obtain ks where "st' = empty_state edge opt
        \<lparr>d_Policers := pool_policers cx p, d_ClassifySessions := ks\<rparr>"
      "map session_key ks = member_keys cx p"
    using ActionRateLimit by (rule addPolicersClassify_shape)
  then show ?thesis
    using assms ActionRateLimit st'
    by (cases sb)
       (auto simp: ForPool_def Let_def bindE_Inr_iff renderStandby_def empty_state_def
        renderPrimary_def renderRateLimit_def advertise_fold set_nexthop4_Inr_iff
        set_nexthop6_Inr_iff needs4_def needs6_def shown_def pool_anchors_def)
qed (use assms in \<open>cases sb; auto simp: ForPool_def Let_def renderStandby_def renderPrimary_def
        empty_state_def pool_policers_def member_keys_def limited_members_def needs4_def needs6_def
        renderBlackhole_fold pool_anchors_def shown_def\<close>)+

section \<open>Properties of the rendered states\<close>

text \<open>
  C18: An edge's full desired state is the concatenation of the per-pool deltas of the
  pools it is home to, primaries first and each group by pool id, and \<open>ForEdge\<close> fails exactly
  when one of those \<open>ForPool\<close> calls fails, with the first error: the whole-edge and the
  incremental path cannot drift.
\<close>

theorem ForEdge_is_sum_of_ForPool:
  "ForEdge cx opt edge primary backup =
     bindE (mapE (\<lambda>(p, standby). ForPool cx opt edge p standby) (roles primary backup))
       (\<lambda>deltas. Inr (assemble edge opt deltas))"
  by (rule ForEdge_deltas)

lemma ForEdge_field:
  assumes "ForEdge cx opt edge primary backup = Inr st"
    and "\<And>ds. F (assemble edge opt ds) = concat (map G ds)"
    and "\<And>p sb d. ForPool cx opt edge p sb = Inr d \<Longrightarrow> h (G d) = H (p, sb)"
    and "\<And>xss. h (concat xss) = concat (map h xss)"
  shows "h (F st) = concat (map H (roles primary backup))"
proof -
  obtain ds where ds: "map (\<lambda>(p, sb). ForPool cx opt edge p sb) (roles primary backup) = map Inr ds"
    and st: "st = assemble edge opt ds"
    using assms(1) unfolding ForEdge_Inr_iff by blast
  have "map (\<lambda>d. h (G d)) ds = map H (roles primary backup)"
  proof (rule nth_equalityI)
    show "length (map (\<lambda>d. h (G d)) ds) = length (map H (roles primary backup))"
      using arg_cong [OF ds, of length] by simp
    fix i assume "i < length (map (\<lambda>d. h (G d)) ds)"
    then have i: "i < length ds" "i < length (roles primary backup)"
      using arg_cong [OF ds, of length] by auto
    have "(\<lambda>(p, sb). ForPool cx opt edge p sb) (roles primary backup ! i) = Inr (ds ! i)"
      using arg_cong [OF ds, of "\<lambda>xs. xs ! i"] i by simp
    then show "map (\<lambda>d. h (G d)) ds ! i = map H (roles primary backup) ! i"
      using i assms(3) by (cases "roles primary backup ! i") auto
  qed
  then show ?thesis using st assms(2,4) by (simp add: comp_def)
qed

lemma concat_map_empty: "(\<And>x. x \<in> set xs \<Longrightarrow> f x = []) \<Longrightarrow> concat (map f xs) = []"
  by (induction xs) auto

lemma concat_roles:
  "concat (map H (roles primary backup)) =
     concat (map (\<lambda>p. H (p, False)) (sort_pools primary)) @
     concat (map (\<lambda>p. H (p, True)) (sort_pools backup))"
  by (simp add: roles_def comp_def)

text \<open>
  C19: Bidirectional homing. An edge advertises the unsuppressed members of its primary pools
  and nothing else (a standby pool is never advertised), and the prefixes it asks the route
  reflector to redirect to itself are exactly the advertised members of its rate-limit pools,
  in the same order: ingress and egress of a rate-limited member are homed on the same edge.
\<close>

theorem ForEdge_bidirectional_homing:
  assumes "ForEdge cx opt edge primary backup = Inr st"
  shows "map an_Prefix (d_Anchors st) =
      concat (map (\<lambda>p. map m_Prefix (shown opt edge p)) (sort_pools primary))
    \<and> map f_SrcPrefix (d_FlowRedirects st) =
      concat (map (\<lambda>p. if a_Kind (p_Action p) = ActionRateLimit
                       then map m_Prefix (shown opt edge p) else []) (sort_pools primary))"
proof -
  have "map an_Prefix (d_Anchors st) = concat (map (\<lambda>(p, sb). if sb then []
      else map m_Prefix (shown opt edge p)) (roles primary backup))"
    by (rule ForEdge_field [OF assms, where G = pd_Anchors])
       (auto simp: assemble_def pool_anchors_def rl_anchor_def map_concat dest!: ForPool_shape)
  moreover have "map f_SrcPrefix (d_FlowRedirects st) = concat (map (\<lambda>(p, sb).
      if \<not> sb \<and> a_Kind (p_Action p) = ActionRateLimit
      then map m_Prefix (shown opt edge p) else []) (roles primary backup))"
    by (rule ForEdge_field [OF assms, where G = pd_FlowRedirects])
       (auto simp: assemble_def map_concat dest!: ForPool_shape)
  ultimately show ?thesis by (simp add: concat_roles concat_map_empty)
qed

text \<open>
  The limiting machinery does not depend on role or suppression: every rate-limit pool,
  primary or standby, gets its two policers, and every member its ingress and egress classify
  session pointing at the policer of that direction, also when its advertisement is suppressed.
\<close>

theorem ForEdge_machinery:
  assumes "ForEdge cx opt edge primary backup = Inr st"
  shows "d_Policers st = concat (map (pool_policers cx) (sort_pools primary @ sort_pools backup))
    \<and> map session_key (d_ClassifySessions st) =
        concat (map (member_keys cx) (sort_pools primary @ sort_pools backup))"
proof -
  have "d_Policers st = concat (map (\<lambda>(p, sb). pool_policers cx p) (roles primary backup))"
    by (rule ForEdge_field [OF assms, where G = pd_Policers and h = "\<lambda>x. x"])
       (auto simp: assemble_def dest!: ForPool_shape)
  moreover have "map session_key (d_ClassifySessions st) =
      concat (map (\<lambda>(p, sb). member_keys cx p) (roles primary backup))"
    by (rule ForEdge_field [OF assms, where G = pd_ClassifySessions])
       (auto simp: assemble_def map_concat dest!: ForPool_shape)
  ultimately show ?thesis by (simp add: concat_roles)
qed

lemma ForEdge_ok_iff:
  "(\<exists>st. ForEdge cx opt edge primary backup = Inr st) \<longleftrightarrow>
     (\<forall>p \<in> set primary. role_ok cx opt edge p False) \<and>
     (\<forall>p \<in> set backup. role_ok cx opt edge p True)"
proof -
  have "(\<exists>ds. mapE f xs = Inr ds) \<longleftrightarrow> (\<forall>x \<in> set xs. \<exists>d. f x = Inr d)"
    for f :: "pool \<times> bool \<Rightarrow> render_error + pool_delta" and xs
  proof (induction xs)
    case (Cons x xs)
    then show ?case by (cases "f x") (auto simp: bindE_Inr_iff)
  qed simp
  then have "(\<exists>st. ForEdge cx opt edge primary backup = Inr st) \<longleftrightarrow>
      (\<forall>x \<in> set (roles primary backup). \<exists>d. (\<lambda>(p, sb). ForPool cx opt edge p sb) x = Inr d)"
    by (auto simp: ForEdge_deltas bindE_Inr_iff)
  also have "\<dots> \<longleftrightarrow> (\<forall>p \<in> set primary. role_ok cx opt edge p False) \<and>
     (\<forall>p \<in> set backup. role_ok cx opt edge p True)"
    by (auto simp: roles_def sort_pools_def ForPool_ok_iff ball_Un)
  finally show ?thesis .
qed

text \<open>
  Exactly when rendering succeeds: a full state exists iff every pool's members pass
  validation and have masks, no primary pool is a scrub pool, and the edge has a redirect next
  hop of each family its advertised rate-limit members use.
\<close>

theorem ForEdge_succeeds_iff:
  "(\<exists>st. ForEdge cx opt edge primary backup = Inr st) \<longleftrightarrow>
     (\<forall>p \<in> set primary. role_ok cx opt edge p False) \<and>
     (\<forall>p \<in> set backup. role_ok cx opt edge p True)"
  by (rule ForEdge_ok_iff)

section \<open>Order independence\<close>

text \<open>The members of each pool print differently, as distinct valid prefixes do.\<close>

definition distinct_members :: "pool \<Rightarrow> bool" where
  "distinct_members p \<longleftrightarrow> distinct (map (\<lambda>m. pfx_String (m_Prefix m)) (p_Members p))"

text \<open>The same pool with its members listed in another order.\<close>

definition same_pool :: "pool \<Rightarrow> pool \<Rightarrow> bool" where
  "same_pool p q \<longleftrightarrow> mset (p_Members p) = mset (p_Members q) \<and> p\<lparr>p_Members := []\<rparr> = q\<lparr>p_Members := []\<rparr>"

lemma sort_members_perm:
  assumes "distinct_members p" "mset (p_Members p) = mset ms"
  shows "sort_members (p_Members p) = sort_members ms"
  using assms unfolding sort_members_def distinct_members_def
  by (intro sort_by_key_perm) (auto simp: distinct_map)

lemma render_other_members:
  "policerSpec cx (p\<lparr>p_Members := ms\<rparr>) dir r = policerSpec cx p dir r"
  "addClassify cx (p\<lparr>p_Members := ms\<rparr>) st m = addClassify cx p st m"
  "set_nexthop4 opt edge (p\<lparr>p_Members := ms\<rparr>) b st = set_nexthop4 opt edge p b st"
  "set_nexthop6 opt edge (p\<lparr>p_Members := ms\<rparr>) b st = set_nexthop6 opt edge p b st"
  "renderBlackhole opt edge st (p\<lparr>p_Members := ms\<rparr>) = renderBlackhole opt edge st p"
  by (simp_all add: fun_eq_iff renderBlackhole_fold policerSpec_def addClassify_def classifySession_def set_nexthop4_def
      set_nexthop6_def split: option.split sum.split)

lemma ForPool_same_pool:
  assumes "distinct_members p" "same_pool p q"
  shows "ForPool cx opt edge p sb = ForPool cx opt edge q sb"
proof -
  have ms: "sort_members (p_Members p) = sort_members (p_Members q)"
    using assms by (simp add: same_pool_def sort_members_perm)
  obtain m where "q = p\<lparr>p_Members := m\<rparr>"
    using assms(2) unfolding same_pool_def by (cases p, cases q) auto
  moreover have "addClassify cx (p\<lparr>p_Members := m\<rparr>) = addClassify cx p"
    "set_nexthop4 opt edge (p\<lparr>p_Members := m\<rparr>) = set_nexthop4 opt edge p"
    "set_nexthop6 opt edge (p\<lparr>p_Members := m\<rparr>) = set_nexthop6 opt edge p" for m
    by (simp_all add: fun_eq_iff render_other_members)
  ultimately show ?thesis
    using ms
    by (cases "a_Kind (p_Action p)")
       (simp_all add: ForPool_def Let_def renderStandby_def renderPrimary_def
        renderRateLimit_def addPolicersClassify_def render_other_members)
qed

lemma sort_pools_perm:
  "distinct (map p_ID ps) \<Longrightarrow> mset ps = mset qs \<Longrightarrow> sort_pools ps = sort_pools qs"
  unfolding sort_pools_def by (intro sort_by_key_perm) (auto simp: distinct_map)

text \<open>
  Rendering is deterministic: pools in any order, with their members in any order, give the
  same edge state (or the same error), as long as pool ids and a pool's member prefixes are
  distinct.
\<close>

theorem ForEdge_order_independent:
  assumes "distinct (map p_ID primary)" "distinct (map p_ID backup)"
    and "mset primary = mset primary'" "mset backup = mset backup'"
    and "list_all2 same_pool primary' primary''" "list_all2 same_pool backup' backup''"
    and "\<forall>p \<in> set primary \<union> set backup. distinct_members p"
  shows "ForEdge cx opt edge primary backup = ForEdge cx opt edge primary'' backup''"
proof -
  have resp: "list_all2 same_pool (sort_pools ps) (sort_pools qs)"
    if "list_all2 same_pool ps qs" for ps qs
  proof -
    have id: "same_pool p q \<Longrightarrow> p_ID p = p_ID q" for p q
      by (cases p; cases q) (auto simp: same_pool_def)
    have ins: "list_all2 same_pool (ins_by (less_key p_ID) p ps) (ins_by (less_key p_ID) q qs)"
      if "list_all2 same_pool ps qs" "same_pool p q" for p q ps qs
      using that by (induction rule: list_all2_induct) (auto simp: less_key_def id)
    show ?thesis unfolding sort_pools_def using that
      by (induction rule: list_all2_induct) (auto intro: ins)
  qed
  have one: "mapE (\<lambda>(p, sb). ForPool cx opt edge p sb) (map (\<lambda>p. (p, sb)) ps) =
        mapE (\<lambda>(p, sb). ForPool cx opt edge p sb) (map (\<lambda>p. (p, sb)) qs)"
    if "list_all2 same_pool ps qs" "\<forall>p \<in> set ps. distinct_members p" for ps qs sb
    using that by (induction rule: list_all2_induct) (auto simp: ForPool_same_pool)
  have "sort_pools primary = sort_pools primary'" "sort_pools backup = sort_pools backup'"
    using assms(1-4) by (auto intro: sort_pools_perm)
  moreover have "\<forall>p \<in> set (sort_pools primary'). distinct_members p"
      "\<forall>p \<in> set (sort_pools backup'). distinct_members p"
    using assms(7) mset_eq_setD [OF assms(3)] mset_eq_setD [OF assms(4)]
    by (auto simp: sort_pools_def)
  ultimately show ?thesis
    unfolding ForEdge_deltas roles_def mapE_append
    by (simp add: one [OF resp [OF assms(5)]] one [OF resp [OF assms(6)]])
qed

section \<open>All edges at once\<close>

definition ds_step ::
  "contract \<Rightarrow> options \<Rightarrow> (edge_id \<rightharpoonup> edge_desired_state) \<Rightarrow> pool \<Rightarrow>
   render_error + (edge_id \<rightharpoonup> edge_desired_state)"
where
  "ds_step cx opt states p =
     (if p_HomeEdge p = [] then Inl (NoHomeEdge (p_ID p))
      else bindE (renderPrimary cx opt (p_HomeEdge p)
             (case states (p_HomeEdge p) of Some s \<Rightarrow> s | None \<Rightarrow> empty_state (p_HomeEdge p) opt)
             p (sort_members (p_Members p)))
           (\<lambda>st. Inr (states(p_HomeEdge p \<mapsto> st))))"

lemma DesiredStates_steps:
  "DesiredStates cx opt pools = foldE (ds_step cx opt) Map.empty (sort_pools pools)"
  unfolding DesiredStates_def ds_step_def [abs_def] Let_def by (rule refl)

text \<open>What the loop holds for edge \<open>e\<close> after the pools \<open>ps\<close>.\<close>

definition edge_part ::
  "contract \<Rightarrow> options \<Rightarrow> edge_id \<Rightarrow> pool list \<Rightarrow> render_error + edge_desired_state"
where
  "edge_part cx opt e ps =
     foldE (\<lambda>st p. renderPrimary cx opt e st p (sort_members (p_Members p))) (empty_state e opt)
       (filter (\<lambda>p. p_HomeEdge p = e) ps)"

lemma ForEdge_part:
  "ForEdge cx opt e (filter (\<lambda>p. p_HomeEdge p = e) ps) [] = edge_part cx opt e (sort_pools ps)"
  by (cases "edge_part cx opt e (sort_pools ps)")
     (simp_all add: ForEdge_def edge_part_def sort_pools_def key.sort_by_filter)

definition ds_inv ::
  "contract \<Rightarrow> options \<Rightarrow> pool list \<Rightarrow> (edge_id \<rightharpoonup> edge_desired_state) \<Rightarrow> bool"
where
  "ds_inv cx opt ps states \<longleftrightarrow>
     (\<forall>e. edge_part cx opt e ps =
            Inr (case states e of Some s \<Rightarrow> s | None \<Rightarrow> empty_state e opt)
        \<and> (states e \<noteq> None \<longleftrightarrow> (\<exists>p \<in> set ps. p_HomeEdge p = e)))
     \<and> (\<forall>p \<in> set ps. p_HomeEdge p \<noteq> [])"

lemma ds_inv_at:
  assumes "ds_inv cx opt ps states"
  shows "states e = None \<longleftrightarrow> \<not> (\<exists>p \<in> set ps. p_HomeEdge p = e)"
    and "edge_part cx opt e ps = Inr (case states e of Some s \<Rightarrow> s | None \<Rightarrow> empty_state e opt)"
  using assms unfolding ds_inv_def by blast+

lemma edge_part_snoc:
  "edge_part cx opt e (ps @ [p]) =
     (if p_HomeEdge p = e
      then bindE (edge_part cx opt e ps)
             (\<lambda>st. renderPrimary cx opt e st p (sort_members (p_Members p)))
      else edge_part cx opt e ps)"
  by (cases "edge_part cx opt e ps") (auto simp: edge_part_def foldE_append bindE_def split: sum.splits)

lemma ds_step_inv:
  assumes "ds_inv cx opt ps states" "ds_step cx opt states p = Inr states'"
  shows "ds_inv cx opt (ps @ [p]) states'"
  using assms unfolding ds_inv_def ds_step_def
  by (auto simp: edge_part_snoc bindE_Inr_iff split: if_splits)

lemma ds_loop:
  assumes "ds_inv cx opt ps states"
  shows "foldE (ds_step cx opt) states qs = Inr states' \<Longrightarrow> ds_inv cx opt (ps @ qs) states'"
    and "\<forall>q \<in> set qs. p_HomeEdge q \<noteq> [] \<Longrightarrow>
         \<forall>e. \<exists>st. edge_part cx opt e (ps @ qs) = Inr st \<Longrightarrow>
         \<exists>states'. foldE (ds_step cx opt) states qs = Inr states'"
  using assms
proof (induction qs arbitrary: ps states)
  case (Cons q qs)
  {
    case 1
    then obtain s1 where "ds_step cx opt states q = Inr s1"
        "foldE (ds_step cx opt) s1 qs = Inr states'"
      by (auto simp: bindE_Inr_iff)
    then show ?case using Cons.IH(1) [of s1 "ps @ [q]"] ds_step_inv [OF 1(2)] by simp
  next
    case 2
    let ?e = "p_HomeEdge q"
    have split: "edge_part cx opt ?e (ps @ q # qs) =
        bindE (edge_part cx opt ?e (ps @ [q])) (\<lambda>st.
          foldE (\<lambda>st p. renderPrimary cx opt ?e st p (sort_members (p_Members p))) st
            (filter (\<lambda>p. p_HomeEdge p = ?e) qs))"
      by (simp add: edge_part_def foldE_append bindE_assoc)
    obtain st0 where "edge_part cx opt ?e (ps @ q # qs) = Inr st0"
      using spec [OF 2(2), of ?e] by (elim exE)
    then obtain st where "edge_part cx opt ?e (ps @ [q]) = Inr st"
      unfolding split bindE_Inr_iff by (elim exE conjE)
    then have "renderPrimary cx opt ?e (case states ?e of Some s \<Rightarrow> s | None \<Rightarrow> empty_state ?e opt)
        q (sort_members (p_Members q)) = Inr st"
      using ds_inv_at(2) [OF 2(3), of ?e] by (simp add: edge_part_snoc)
    then obtain s1 where s1: "ds_step cx opt states q = Inr s1"
      using 2(1) by (simp add: ds_step_def)
    then have "ds_inv cx opt (ps @ [q]) s1" using 2(3) ds_step_inv by blast
    then show ?case using Cons.IH(2) [of "ps @ [q]" s1] 2 s1 by auto
  }
qed auto

text \<open>
  The fleet-wide render agrees with the per-edge render: \<open>DesiredStates\<close> holds a state for
  exactly the edges that are home to a pool, and it is the one \<open>ForEdge\<close> renders from the pools
  homed there; it succeeds iff every pool has a home and every per-edge render succeeds.
\<close>

theorem DesiredStates_agrees_with_ForEdge:
  "(\<forall>states. DesiredStates cx opt pools = Inr states \<longrightarrow>
      (\<forall>e. (case states e of
              None \<Rightarrow> \<not> (\<exists>p \<in> set pools. p_HomeEdge p = e)
            | Some st \<Rightarrow> (\<exists>p \<in> set pools. p_HomeEdge p = e)
                \<and> ForEdge cx opt e (filter (\<lambda>p. p_HomeEdge p = e) pools) [] = Inr st)))
   \<and> ((\<exists>states. DesiredStates cx opt pools = Inr states) \<longleftrightarrow>
        (\<forall>p \<in> set pools. p_HomeEdge p \<noteq> []) \<and>
        (\<forall>e. \<exists>st. ForEdge cx opt e (filter (\<lambda>p. p_HomeEdge p = e) pools) [] = Inr st))"
proof -
  have init: "ds_inv cx opt [] Map.empty" by (simp add: ds_inv_def edge_part_def)
  have run: "ds_inv cx opt (sort_pools pools) states" if "DesiredStates cx opt pools = Inr states"
    for states
    using ds_loop(1) [OF init] that by (simp add: DesiredStates_steps)
  have sets: "set (sort_pools pools) = set pools" by (simp add: sort_pools_def)
  have "\<exists>states. DesiredStates cx opt pools = Inr states"
    if "\<forall>p \<in> set pools. p_HomeEdge p \<noteq> []"
      "\<forall>e. \<exists>st. ForEdge cx opt e (filter (\<lambda>p. p_HomeEdge p = e) pools) [] = Inr st"
    using ds_loop(2) [OF init, of "sort_pools pools"] that sets
    by (simp add: DesiredStates_steps ForEdge_part)
  moreover have "case states e of
              None \<Rightarrow> \<not> (\<exists>p \<in> set pools. p_HomeEdge p = e)
            | Some st \<Rightarrow> (\<exists>p \<in> set pools. p_HomeEdge p = e)
                \<and> ForEdge cx opt e (filter (\<lambda>p. p_HomeEdge p = e) pools) [] = Inr st"
    if "DesiredStates cx opt pools = Inr states" for states e
    using ds_inv_at [OF run [OF that], of e] unfolding ForEdge_part sets
    by (cases "states e") simp_all
  moreover have "(\<forall>p \<in> set pools. p_HomeEdge p \<noteq> []) \<and>
      (\<forall>e. \<exists>st. ForEdge cx opt e (filter (\<lambda>p. p_HomeEdge p = e) pools) [] = Inr st)"
    if "DesiredStates cx opt pools = Inr states" for states
    using run [OF that] unfolding ForEdge_part ds_inv_def sets by blast
  ultimately show ?thesis by blast
qed

section \<open>Concrete renders\<close>

definition demo_cx :: contract where
  "demo_cx = \<lparr>Member_Validate = (\<lambda>m. if pfx_IsValid (m_Prefix m) then None else Some ''bad prefix''),
     Member_MaskKind = (\<lambda>m dir. Inr (case dir of DirectionIngress \<Rightarrow> ''dst'' | DirectionEgress \<Rightarrow> ''src'')),
     PolicerName = (\<lambda>i dir. (case dir of DirectionIngress \<Rightarrow> ''in'' | DirectionEgress \<Rightarrow> ''eg'')),
     IsHost = (\<lambda>p. pBits p = BitLen (pAddr p)),
     FailOpenOnDoubleDeath = (\<lambda>p. a_Kind (p_Action p) = ActionRateLimit)\<rparr>"

definition demo_rate :: rate_spec where
  "demo_rate = \<lparr>r_Type = RateKbps, r_CIR = 1000, r_CommittedBurstBytes = 0, r_CommittedBurstPackets = 0\<rparr>"

definition demo_host :: "32 word \<Rightarrow> member" where
  "demo_host w = \<lparr>m_Prefix = \<lparr>pAddr = V4 w, pBits = 32\<rparr>\<rparr>"

definition demo_pool :: "pool_id \<Rightarrow> actionKind \<Rightarrow> 32 word \<Rightarrow> pool" where
  "demo_pool i k w = \<lparr>p_ID = i, p_Members = [demo_host w], p_IngressRate = demo_rate,
     p_EgressRate = demo_rate, p_Action = \<lparr>a_Kind = k, a_ExpiryUnixMs = 0,
       a_RTBHCommunity = None, a_RTBHLargeCommunity = None\<rparr>, p_BindWorker = 0, p_HomeEdge = ''e1''\<rparr>"

definition demo_opt :: options where
  "demo_opt = \<lparr>o_Generation = 7, o_EdgeAddrs = [''e1'' \<mapsto> V4 0x0A000001], o_EdgeAddrs6 = Map.empty,
     o_HomeMarker = None, o_Suppress = None\<rparr>"

lemmas demo_render = demo_cx_def demo_rate_def demo_host_def demo_pool_def demo_opt_def
  sort_pools_def sort_members_def less_key_def role_ok_def machinery_ok_def limited_members_def
  needs4_def needs6_def shown_def advertised_def suppressed_def nexthop4_ok_def nexthop6_ok_def
  pfx_IsValid_def distinct_members_def same_pool_def

lemma demo_role_ok:
  "k \<noteq> ActionScrub \<Longrightarrow> role_ok demo_cx demo_opt ''e1'' (demo_pool i k w) sb"
  by (cases k) (auto simp: demo_render)

theorem ForEdge_succeeds_iff_witness:
  "\<exists>st. ForEdge demo_cx demo_opt ''e1'' [demo_pool 2 ActionRateLimit 5] [demo_pool 1 ActionRateLimit 6] = Inr st"
  by (rule ForEdge_succeeds_iff [THEN iffD2]) (simp add: demo_role_ok)

lemma demo_ForEdge:
  "\<exists>st. ForEdge demo_cx demo_opt ''e1'' [demo_pool 2 ActionRateLimit 5, demo_pool 1 ActionBlackhole 9]
       [demo_pool 3 ActionRateLimit 6] = Inr st"
  by (rule ForEdge_ok_iff [THEN iffD2]) (simp add: demo_role_ok)

theorem ForEdge_bidirectional_homing_witness:
  "\<exists>st. ForEdge demo_cx demo_opt ''e1'' [demo_pool 2 ActionRateLimit 5, demo_pool 1 ActionBlackhole 9]
       [demo_pool 3 ActionRateLimit 6] = Inr st
     \<and> map f_SrcPrefix (d_FlowRedirects st) = [m_Prefix (demo_host 5)]
     \<and> map an_Prefix (d_Anchors st) = [m_Prefix (demo_host 9), m_Prefix (demo_host 5)]"
proof -
  from demo_ForEdge obtain st where st: "ForEdge demo_cx demo_opt ''e1'' [demo_pool 2 ActionRateLimit 5,
      demo_pool 1 ActionBlackhole 9] [demo_pool 3 ActionRateLimit 6] = Inr st" ..
  from ForEdge_bidirectional_homing [OF st] st show ?thesis
    by (intro exI [of _ st]) (simp add: demo_render)
qed

theorem ForEdge_machinery_witness:
  "\<exists>st. ForEdge demo_cx demo_opt ''e1'' [demo_pool 2 ActionRateLimit 5, demo_pool 1 ActionBlackhole 9]
       [demo_pool 3 ActionRateLimit 6] = Inr st
     \<and> map ps_PoolID (d_Policers st) = [2, 2, 3, 3]
     \<and> map session_key (d_ClassifySessions st) =
         [(2, m_Prefix (demo_host 5), DirectionIngress, ''in''),
          (2, m_Prefix (demo_host 5), DirectionEgress, ''eg''),
          (3, m_Prefix (demo_host 6), DirectionIngress, ''in''),
          (3, m_Prefix (demo_host 6), DirectionEgress, ''eg'')]"
proof -
  from demo_ForEdge obtain st where st: "ForEdge demo_cx demo_opt ''e1'' [demo_pool 2 ActionRateLimit 5,
      demo_pool 1 ActionBlackhole 9] [demo_pool 3 ActionRateLimit 6] = Inr st" ..
  from ForEdge_machinery [OF st] st show ?thesis
    by (intro exI [of _ st]) (simp add: demo_render pool_policers_def member_keys_def policerSpec_def)
qed

text \<open>Two pools, listed in both orders, one with its two members swapped.\<close>

definition demo_pair :: "bool \<Rightarrow> pool" where
  "demo_pair b = (demo_pool 1 ActionRateLimit 9)
     \<lparr>p_Members := (if b then [demo_host 9, demo_host 8] else [demo_host 8, demo_host 9])\<rparr>"

theorem ForEdge_order_independent_witness:
  "ForEdge demo_cx demo_opt ''e1'' [demo_pair True, demo_pool 2 ActionRateLimit 5] [] =
   ForEdge demo_cx demo_opt ''e1'' [demo_pool 2 ActionRateLimit 5, demo_pair False] []"
proof (rule ForEdge_order_independent [where primary' = "[demo_pool 2 ActionRateLimit 5, demo_pair True]"
      and backup' = "[]"])
  have "pfx_String (m_Prefix (demo_host 9)) = ''0.0.0.9/32''"
    "pfx_String (m_Prefix (demo_host 8)) = ''0.0.0.8/32''"
    by code_simp+
  then show "\<forall>p \<in> set [demo_pair True, demo_pool 2 ActionRateLimit 5] \<union> set []. distinct_members p"
    by (simp add: distinct_members_def demo_pair_def demo_pool_def)
qed (simp_all add: demo_pair_def demo_pool_def same_pool_def)

theorem DesiredStates_agrees_with_ForEdge_witness:
  "\<exists>states. DesiredStates demo_cx demo_opt [demo_pool 2 ActionRateLimit 5] = Inr states"
proof -
  have "\<exists>st. ForEdge demo_cx demo_opt e
      (filter (\<lambda>p. p_HomeEdge p = e) [demo_pool 2 ActionRateLimit 5]) [] = Inr st" for e
    by (rule ForEdge_ok_iff [THEN iffD2]) (cases "e = ''e1''", auto simp: demo_role_ok demo_pool_def
        intro: demo_role_ok [unfolded demo_pool_def])
  moreover have "p_HomeEdge (demo_pool 2 ActionRateLimit 5) \<noteq> []" by (simp add: demo_pool_def)
  ultimately show ?thesis
    using DesiredStates_agrees_with_ForEdge [of demo_cx demo_opt "[demo_pool 2 ActionRateLimit 5]"]
    by simp
qed

end
