(* ===== verification/Etcd.thy ===== *)
theory Etcd
  imports Netip "HOL-Library.Sublist"
begin

text \<open>
  The etcd client as the server uses it. etcd is not part of the repository: a client is a record
  of functions on an opaque state \<open>'s\<close>, an argument of every definition that talks to etcd.
  What the code relies on is the locale \<open>etcd_client\<close>: the cluster keeps one log of committed
  transactions, every call takes effect at one point of that log between its start and its end
  (linearizability), other clients may append before and after, and a failed call may or may
  not have taken effect. The second half gives the text encodings the server stores.
\<close>

section \<open>Values and transactions\<close>

text \<open>
  A value is text, or the JSON text of a record; a record is kept decoded, and text that
  is not the encoding of a record does not unmarshal.
\<close>

record agent =
  ag_EdgeID :: edge_id
  ag_CapacityBps :: u64
  ag_RegisteredAt :: int

record reservation =
  rv_Agent :: string
  rv_Amount :: int
  rv_State :: string
  rv_Pool :: string
  rv_CreatedAt :: int
  rv_ExpireAt :: int
  rv_Shard :: int

record controller =
  ct_ID :: string
  ct_GRPCEndpoint :: string
  ct_RegisteredAt :: int

datatype etcd_val = Txt string | JAgent agent | JResv reservation | JCtrl controller

datatype etcd_op = OpPut string etcd_val | OpDelete string

datatype etcd_cmp = CmpMod string int | CmpCreate string int

type_synonym etcd_log = "etcd_op list list"

record kv =
  kv_Value :: etcd_val
  kv_CreateRevision :: int
  kv_ModRevision :: int

text \<open>The transaction at position n of the log has revision n + 2: the empty store is at revision 1.\<close>

definition apply_op :: "int \<Rightarrow> string \<Rightarrow> kv option \<Rightarrow> etcd_op \<Rightarrow> kv option" where
  "apply_op r k cur op =
     (case op of
        OpPut k' v \<Rightarrow> if k' = k then
            Some \<lparr>kv_Value = v,
                  kv_CreateRevision = (case cur of None \<Rightarrow> r | Some x \<Rightarrow> kv_CreateRevision x),
                  kv_ModRevision = r\<rparr>
          else cur
      | OpDelete k' \<Rightarrow> if k' = k then None else cur)"

definition apply_ops :: "int \<Rightarrow> string \<Rightarrow> kv option \<Rightarrow> etcd_op list \<Rightarrow> kv option" where
  "apply_ops r k cur ops = foldl (apply_op r k) cur ops"

fun kv_from :: "int \<Rightarrow> string \<Rightarrow> kv option \<Rightarrow> etcd_log \<Rightarrow> kv option" where
  "kv_from r k cur [] = cur"
| "kv_from r k cur (ops # l) = kv_from (r + 1) k (apply_ops r k cur ops) l"

definition kv_at :: "etcd_log \<Rightarrow> string \<Rightarrow> kv option" where
  "kv_at l k = kv_from 2 k None l"

definition revision :: "etcd_log \<Rightarrow> int" where
  "revision l = int (length l) + 1"

definition mod_rev :: "etcd_log \<Rightarrow> string \<Rightarrow> int" where
  "mod_rev l k = (case kv_at l k of None \<Rightarrow> 0 | Some x \<Rightarrow> kv_ModRevision x)"

definition create_rev :: "etcd_log \<Rightarrow> string \<Rightarrow> int" where
  "create_rev l k = (case kv_at l k of None \<Rightarrow> 0 | Some x \<Rightarrow> kv_CreateRevision x)"

definition cmp_holds :: "etcd_log \<Rightarrow> etcd_cmp \<Rightarrow> bool" where
  "cmp_holds l c = (case c of CmpMod k r \<Rightarrow> mod_rev l k = r | CmpCreate k r \<Rightarrow> create_rev l k = r)"

definition op_key :: "etcd_op \<Rightarrow> string" where
  "op_key op = (case op of OpPut k v \<Rightarrow> k | OpDelete k \<Rightarrow> k)"

definition touches :: "string \<Rightarrow> etcd_op list \<Rightarrow> bool" where
  "touches k ops \<longleftrightarrow> k \<in> op_key ` set ops"

text \<open>All pairs under a key prefix, in key order.\<close>

definition log_keys :: "etcd_log \<Rightarrow> string list" where
  "log_keys l = sort_by (less_key id) (remdups (map op_key (concat l)))"

definition kvs_under :: "string \<Rightarrow> etcd_log \<Rightarrow> (string \<times> kv) list" where
  "kvs_under pre l = List.map_filter (\<lambda>k. map_option (Pair k) (kv_at l k))
     (filter (\<lambda>k. prefix pre k) (log_keys l))"

text \<open>The changes of keys under a prefix from revision \<open>r\<close> on, in log order.\<close>

definition changes_under :: "string \<Rightarrow> int \<Rightarrow> etcd_log \<Rightarrow> etcd_op list" where
  "changes_under pre r l = filter (\<lambda>op. prefix pre (op_key op)) (concat (drop (nat (r - 2)) l))"

section \<open>The client\<close>

record 's etcd =
  E_Get :: "string \<Rightarrow> 's \<Rightarrow> (string + kv option) \<times> 's"
  E_List :: "string \<Rightarrow> 's \<Rightarrow> (string + (string \<times> kv) list \<times> int) \<times> 's"
  E_Txn :: "etcd_cmp list \<Rightarrow> etcd_op list \<Rightarrow> 's \<Rightarrow> (string + bool) \<times> 's"
  E_Watch :: "string \<Rightarrow> int \<Rightarrow> 's \<Rightarrow> etcd_op list"

text \<open>A plain put or delete is the unconditional transaction of one operation.\<close>

definition E_Do :: "'s etcd \<Rightarrow> etcd_op \<Rightarrow> 's \<Rightarrow> (string + unit) \<times> 's" where
  "E_Do cl op s = (case E_Txn cl [] [op] s of (Inl e, s) \<Rightarrow> (Inl e, s) | (Inr b, s) \<Rightarrow> (Inr (), s))"

locale etcd_client =
  fixes cl :: "'s etcd" and log :: "'s \<Rightarrow> etcd_log"
  assumes get_ok: "E_Get cl k s = (Inr r, s') \<Longrightarrow>
      \<exists>l. prefix (log s) l \<and> prefix l (log s') \<and> r = kv_at l k"
    and get_err: "E_Get cl k s = (Inl e, s') \<Longrightarrow> prefix (log s) (log s')"
    and list_ok: "E_List cl pre s = (Inr (kvs, rv), s') \<Longrightarrow>
      \<exists>l. prefix (log s) l \<and> prefix l (log s') \<and> kvs = kvs_under pre l \<and> rv = revision l"
    and list_err: "E_List cl pre s = (Inl e, s') \<Longrightarrow> prefix (log s) (log s')"
    and txn_true: "E_Txn cl cmps ops s = (Inr True, s') \<Longrightarrow>
      \<exists>l. prefix (log s) l \<and> list_all (cmp_holds l) cmps \<and> prefix (l @ [ops]) (log s')"
    and txn_false: "E_Txn cl cmps ops s = (Inr False, s') \<Longrightarrow>
      \<exists>l. prefix (log s) l \<and> \<not> list_all (cmp_holds l) cmps \<and> prefix l (log s')"
    and txn_err: "E_Txn cl cmps ops s = (Inl e, s') \<Longrightarrow> prefix (log s) (log s')"
    and watch_ok: "E_Watch cl pre rv s = changes_under pre rv (log s)"
begin

lemma get_grows: "E_Get cl k s = (r, s') \<Longrightarrow> prefix (log s) (log s')"
  by (cases r) (auto dest: get_ok get_err prefix_order.trans)

lemma txn_grows: "E_Txn cl cmps ops s = (r, s') \<Longrightarrow> prefix (log s) (log s')"
proof -
  assume t: "E_Txn cl cmps ops s = (r, s')"
  consider e where "r = Inl e" | "r = Inr True" | "r = Inr False" by (cases r) auto
  then show ?thesis
  proof cases
    case 1
    then show ?thesis using t txn_err by blast
  next
    case 2
    then obtain l where "prefix (log s) l" "prefix (l @ [ops]) (log s')"
      using t txn_true by blast
    then show ?thesis by (meson append_prefixD prefix_order.trans)
  next
    case 3
    then obtain l where "prefix (log s) l" "prefix l (log s')" using t txn_false by blast
    then show ?thesis by (rule prefix_order.trans)
  qed
qed

end

section \<open>Facts about the log\<close>

lemma kv_from_append:
  "kv_from r k cur (l @ l') = kv_from (r + int (length l)) k (kv_from r k cur l) l'"
  by (induction l arbitrary: r cur) (auto simp: algebra_simps)

lemma kv_at_Nil [simp]: "kv_at [] k = None"
  by (simp add: kv_at_def)

lemma kv_at_snoc: "kv_at (l @ [ops]) k = apply_ops (revision l + 1) k (kv_at l k) ops"
  by (simp add: kv_at_def kv_from_append revision_def algebra_simps)

lemma apply_ops_untouched: "\<not> touches k ops \<Longrightarrow> apply_ops r k cur ops = cur"
proof (induction ops arbitrary: cur)
  case (Cons op ops)
  then have "apply_op r k cur op = cur"
    by (cases op) (auto simp: touches_def op_key_def apply_op_def)
  moreover have "\<not> touches k ops" using Cons.prems by (auto simp: touches_def)
  ultimately show ?case using Cons.IH [of cur] by (simp add: apply_ops_def)
qed (simp add: apply_ops_def)

lemma kv_at_snoc_untouched: "\<not> touches k ops \<Longrightarrow> kv_at (l @ [ops]) k = kv_at l k"
  by (simp add: kv_at_snoc apply_ops_untouched)

lemma apply_ops_mod:
  assumes "apply_ops r k cur ops = Some x"
  shows "kv_ModRevision x = r \<or> cur = Some x"
  using assms unfolding apply_ops_def
proof (induction ops arbitrary: cur)
  case (Cons op ops)
  then have "kv_ModRevision x = r \<or> apply_op r k cur op = Some x" by simp
  then show ?case by (auto simp: apply_op_def split: etcd_op.splits if_splits)
qed simp

lemma kv_at_mod_range:
  "kv_at l k = Some x \<Longrightarrow> 2 \<le> kv_ModRevision x \<and> kv_ModRevision x \<le> revision l"
proof (induction l arbitrary: x rule: rev_induct)
  case (snoc ops l)
  then have "kv_ModRevision x = revision l + 1 \<or> kv_at l k = Some x"
    using apply_ops_mod [of "revision l + 1" k "kv_at l k" ops x] by (simp add: kv_at_snoc)
  then show ?case using snoc.IH [of x] by (auto simp: revision_def)
qed simp

lemma mod_rev_range: "mod_rev l k \<le> revision l" "0 \<le> mod_rev l k"
proof -
  have "mod_rev l k \<le> revision l \<and> 0 \<le> mod_rev l k"
    using kv_at_mod_range [of l k]
    by (cases "kv_at l k") (fastforce simp: mod_rev_def revision_def)+
  then show "mod_rev l k \<le> revision l" "0 \<le> mod_rev l k" by auto
qed

lemma kv_at_write:
  assumes "kv_at l k = Some x"
  shows "kv_at (take (nat (kv_ModRevision x - 1)) l) k = Some x"
  using assms
proof (induction l arbitrary: x rule: rev_induct)
  case (snoc ops l)
  show ?case
  proof (cases "kv_at l k = Some x")
    case True
    then have "kv_ModRevision x \<le> revision l" using kv_at_mod_range by blast
    then have "nat (kv_ModRevision x - 1) \<le> length l" by (simp add: revision_def)
    then show ?thesis using snoc.IH [OF True] by simp
  next
    case False
    then have "kv_ModRevision x = revision l + 1"
      using apply_ops_mod snoc.prems by (metis kv_at_snoc)
    then show ?thesis using snoc.prems by (simp add: revision_def)
  qed
qed simp

text \<open>A compare on the modification revision is a compare on the whole pair.\<close>

lemma mod_rev_no_ABA:
  assumes "mod_rev l k = mod_rev l' k" "prefix l l'"
  shows "kv_at l k = kv_at l' k"
proof (cases "kv_at l k")
  case None
  then have "mod_rev l' k = 0" using assms(1) by (simp add: mod_rev_def)
  then show ?thesis
    using None kv_at_mod_range [of l' k] by (cases "kv_at l' k") (fastforce simp: mod_rev_def)+
next
  case (Some x)
  have "2 \<le> kv_ModRevision x" and le: "kv_ModRevision x \<le> revision l"
    using kv_at_mod_range [OF Some] by auto
  moreover have "mod_rev l' k = kv_ModRevision x" using Some assms(1) by (simp add: mod_rev_def)
  ultimately obtain y where y: "kv_at l' k = Some y" "kv_ModRevision y = kv_ModRevision x"
    by (cases "kv_at l' k") (auto simp: mod_rev_def)
  obtain r where l': "l' = l @ r" using assms(2) by (auto simp: prefix_def)
  have "nat (kv_ModRevision x - 1) \<le> length l" using le by (simp add: revision_def)
  then have "take (nat (kv_ModRevision x - 1)) l' = take (nat (kv_ModRevision x - 1)) l"
    using l' by simp
  then show ?thesis using kv_at_write [OF Some] kv_at_write [OF y(1)] y Some by simp
qed

lemma kv_at_in_keys: "kv_at l k = Some x \<Longrightarrow> k \<in> set (log_keys l)"
proof (induction l arbitrary: x rule: rev_induct)
  case (snoc ops l)
  then show ?case
    by (cases "touches k ops")
       (auto simp: log_keys_def touches_def kv_at_snoc_untouched)
qed simp

lemma kvs_under_iff: "(k, x) \<in> set (kvs_under pre l) \<longleftrightarrow> prefix pre k \<and> kv_at l k = Some x"
  by (auto simp: kvs_under_def map_filter_def kv_at_in_keys intro!: image_eqI [of _ _ k])

lemma distinct_kvs_under: "distinct (map fst (kvs_under pre l))"
proof -
  have "distinct (filter P (log_keys l))" for P by (simp add: log_keys_def)
  moreover have "map fst (List.map_filter (\<lambda>k. map_option (Pair k) (kv_at l k)) ks)
      = filter (\<lambda>k. kv_at l k \<noteq> None) ks" for ks
    by (induction ks) (auto simp: map_filter_simps)
  ultimately show ?thesis by (simp add: kvs_under_def)
qed

section \<open>A cluster with peers and faults\<close>

text \<open>
  A client with the documented behaviour: before each call the peers commit the next
  batch of the script, and the call may fail before or after it took effect.
\<close>

datatype etcd_fault = Unavailable | ReplyLost

record cluster =
  cl_log :: etcd_log
  cl_peers :: "etcd_log list"
  cl_faults :: "etcd_fault option list"

definition cluster_step :: "cluster \<Rightarrow> etcd_fault option \<times> cluster" where
  "cluster_step s =
     (let s = (case cl_peers s of [] \<Rightarrow> s
               | b # bs \<Rightarrow> s\<lparr>cl_log := cl_log s @ b, cl_peers := bs\<rparr>)
      in (case cl_faults s of [] \<Rightarrow> (None, s) | f # fs \<Rightarrow> (f, s\<lparr>cl_faults := fs\<rparr>)))"

definition cluster_read :: "(etcd_log \<Rightarrow> 'a) \<Rightarrow> cluster \<Rightarrow> (string + 'a) \<times> cluster" where
  "cluster_read q s =
     (let (f, s) = cluster_step s in
      case f of None \<Rightarrow> (Inr (q (cl_log s)), s) | Some _ \<Rightarrow> (Inl ''unavailable'', s))"

definition cluster_txn ::
  "etcd_cmp list \<Rightarrow> etcd_op list \<Rightarrow> cluster \<Rightarrow> (string + bool) \<times> cluster"
where
  "cluster_txn cmps ops s =
     (let (f, s) = cluster_step s;
          b = list_all (cmp_holds (cl_log s)) cmps;
          s' = (if b then s\<lparr>cl_log := cl_log s @ [ops]\<rparr> else s)
      in case f of
           None \<Rightarrow> (Inr b, s')
         | Some Unavailable \<Rightarrow> (Inl ''unavailable'', s)
         | Some ReplyLost \<Rightarrow> (Inl ''timeout'', s'))"

definition cluster_client :: "cluster etcd" where
  "cluster_client =
     \<lparr>E_Get = (\<lambda>k. cluster_read (\<lambda>l. kv_at l k)),
      E_List = (\<lambda>pre. cluster_read (\<lambda>l. (kvs_under pre l, revision l))),
      E_Txn = cluster_txn,
      E_Watch = (\<lambda>pre r s. changes_under pre r (cl_log s))\<rparr>"

lemma cluster_step_grows: "cluster_step s = (f, s') \<Longrightarrow> prefix (cl_log s) (cl_log s')"
  by (auto simp: cluster_step_def Let_def split: list.splits)

lemma cluster_read_grows:
  assumes "cluster_read q s = (r, s')"
  shows "prefix (cl_log s) (cl_log s') \<and> (\<forall>x. r = Inr x \<longrightarrow> x = q (cl_log s'))"
proof -
  obtain f s1 where st: "cluster_step s = (f, s1)" by fastforce
  then have "prefix (cl_log s) (cl_log s1)" by (rule cluster_step_grows)
  then show ?thesis using assms st by (cases f) (auto simp: cluster_read_def)
qed

lemma cluster_txn_cases:
  fixes s s' :: cluster
  assumes "cluster_txn cmps ops s = (r, s')"
  shows "\<exists>l. prefix (cl_log s) l \<and> prefix l (cl_log s')
    \<and> (r = Inr True \<longrightarrow> list_all (cmp_holds l) cmps \<and> cl_log s' = l @ [ops])
    \<and> (r = Inr False \<longrightarrow> \<not> list_all (cmp_holds l) cmps \<and> cl_log s' = l)"
proof -
  obtain f s1 where st: "cluster_step s = (f, s1)" by fastforce
  then have p: "prefix (cl_log s) (cl_log s1)" by (rule cluster_step_grows)
  let ?b = "list_all (cmp_holds (cl_log s1)) cmps"
  let ?s' = "if ?b then s1\<lparr>cl_log := cl_log s1 @ [ops]\<rparr> else s1"
  consider "f = None" "r = Inr ?b" "s' = ?s'" | e where "r = Inl e" "s' = s1 \<or> s' = ?s'"
    using assms st unfolding cluster_txn_def
    by (cases f) (auto simp: Let_def split: etcd_fault.splits)
  then show ?thesis
    by cases (use p in \<open>cases ?b; force\<close>)+
qed

interpretation cluster: etcd_client cluster_client cl_log
proof
  show "\<exists>l. prefix (cl_log s) l \<and> prefix l (cl_log s') \<and> r = kv_at l k"
    if "E_Get cluster_client k s = (Inr r, s')" for k s r s'
    using cluster_read_grows [of "\<lambda>l. kv_at l k" s "Inr r" s'] that
    by (auto simp: cluster_client_def)
  show "prefix (cl_log s) (cl_log s')" if "E_Get cluster_client k s = (Inl e, s')" for k s e s'
    using cluster_read_grows [of "\<lambda>l. kv_at l k" s "Inl e" s'] that
    by (auto simp: cluster_client_def)
  show "\<exists>l. prefix (cl_log s) l \<and> prefix l (cl_log s') \<and> kvs = kvs_under pre l \<and> rv = revision l"
    if "E_List cluster_client pre s = (Inr (kvs, rv), s')" for pre s kvs rv s'
    using cluster_read_grows [of "\<lambda>l. (kvs_under pre l, revision l)" s "Inr (kvs, rv)" s'] that
    by (auto simp: cluster_client_def)
  show "prefix (cl_log s) (cl_log s')" if "E_List cluster_client pre s = (Inl e, s')" for pre s e s'
    using cluster_read_grows [of "\<lambda>l. (kvs_under pre l, revision l)" s "Inl e" s'] that
    by (auto simp: cluster_client_def)
  show "\<exists>l. prefix (cl_log s) l \<and> list_all (cmp_holds l) cmps \<and> prefix (l @ [ops]) (cl_log s')"
    if "E_Txn cluster_client cmps ops s = (Inr True, s')" for cmps ops s s'
    using cluster_txn_cases [of cmps ops s _ s'] that by (fastforce simp: cluster_client_def)
  show "\<exists>l. prefix (cl_log s) l \<and> \<not> list_all (cmp_holds l) cmps \<and> prefix l (cl_log s')"
    if "E_Txn cluster_client cmps ops s = (Inr False, s')" for cmps ops s s'
    using cluster_txn_cases [of cmps ops s _ s'] that by (fastforce simp: cluster_client_def)
  show "prefix (cl_log s) (cl_log s')"
    if "E_Txn cluster_client cmps ops s = (Inl e, s')" for cmps ops s e s'
    using cluster_txn_cases [of cmps ops s _ s'] that
    by (auto simp: cluster_client_def intro: prefix_order.trans)
  show "E_Watch cluster_client pre rv s = changes_under pre rv (cl_log s)" for pre rv s
    by (simp add: cluster_client_def)
qed

section \<open>Text encodings\<close>

definition digit_val :: "char \<Rightarrow> int option" where
  "digit_val c = (let n = (of_char c :: int) in if 48 \<le> n \<and> n \<le> 57 then Some (n - 48) else None)"

fun parse_digits :: "int \<Rightarrow> string \<Rightarrow> int option" where
  "parse_digits acc [] = Some acc"
| "parse_digits acc (c # cs) =
     (case digit_val c of None \<Rightarrow> None | Some d \<Rightarrow> parse_digits (acc * 10 + d) cs)"

text \<open>\<open>strconv.ParseUint(s, 10, 64)\<close>, \<open>strconv.FormatUint(n, 10)\<close>\<close>

definition ParseUint :: "string \<Rightarrow> u64 option" where
  "ParseUint s = (if s = [] then None else
     case parse_digits 0 s of
       None \<Rightarrow> None
     | Some n \<Rightarrow> if n < 2 ^ 64 then Some (word_of_int n) else None)"

definition FormatUint :: "u64 \<Rightarrow> string" where
  "FormatUint n = show_dec (uint n)"

text \<open>\<open>strconv.ParseInt(s, 10, 64)\<close>, \<open>strconv.FormatInt(n, 10)\<close>\<close>

definition ParseInt :: "string \<Rightarrow> int option" where
  "ParseInt s =
     (let (neg, body) = (case s of
            [] \<Rightarrow> (False, [])
          | c # cs \<Rightarrow> if c = CHR ''-'' then (True, cs) else if c = CHR ''+'' then (False, cs)
                     else (False, s))
      in if body = [] then None else
         case parse_digits 0 body of
           None \<Rightarrow> None
         | Some n \<Rightarrow> if (\<not> neg \<and> n < 2 ^ 63) \<or> (neg \<and> n \<le> 2 ^ 63)
                     then Some (if neg then - n else n) else None)"

definition FormatInt :: "int \<Rightarrow> string" where
  "FormatInt n = (if n < 0 then CHR ''-'' # show_dec (- n) else show_dec n)"

lemma digit_cases: "0 \<le> d \<Longrightarrow> d < 10 \<Longrightarrow> d \<in> {0, 1, 2, 3, 4, 5, 6, 7, 8, 9 :: int}"
  unfolding insert_iff empty_iff by presburger

lemma digit_val_char: "0 \<le> d \<Longrightarrow> d < 10 \<Longrightarrow> digit_val (digit_char d) = Some d"
  by (drule (1) digit_cases)
     (elim insertE emptyE; simp add: digit_val_def digit_char_def)

lemma parse_digits_snoc:
  "parse_digits acc (cs @ [c]) =
     (case parse_digits acc cs of None \<Rightarrow> None
      | Some n \<Rightarrow> map_option (\<lambda>d. n * 10 + d) (digit_val c))"
  by (induction cs arbitrary: acc) (auto split: option.splits)

lemma parse_digits_rev:
  "0 \<le> n \<Longrightarrow> n < 10 ^ k \<Longrightarrow> 0 < k \<Longrightarrow> parse_digits 0 (rev (digits_rev k 10 n)) = Some n"
proof (induction k arbitrary: n)
  case (Suc k)
  have d: "digit_val (digit_char (n mod 10)) = Some (n mod 10)" by (rule digit_val_char) simp_all
  show ?case
  proof (cases "n div 10 = 0")
    case True
    then have "n mod 10 = n" using Suc.prems by presburger
    then show ?thesis using True d by simp
  next
    case False
    then have "0 < k" using Suc.prems by (cases k) auto
    moreover have "n div 10 < 10 ^ k" using Suc.prems(2) by auto
    ultimately have "parse_digits 0 (rev (digits_rev k 10 (n div 10))) = Some (n div 10)"
      using Suc.prems by (intro Suc.IH) auto
    moreover have "n div 10 * 10 + n mod 10 = n" by simp
    ultimately show ?thesis using False d by (simp add: parse_digits_snoc)
  qed
qed simp

lemma parse_show_dec: "0 \<le> n \<Longrightarrow> n < 10 ^ 20 \<Longrightarrow> parse_digits 0 (show_dec n) = Some n"
  unfolding show_dec_def by (rule parse_digits_rev) simp_all

lemma show_dec_not_Nil: "show_dec n \<noteq> []"
  by (simp add: show_dec_def numeral_eq_Suc)

lemma ParseUint_FormatUint [simp]: "ParseUint (FormatUint n) = Some n"
proof -
  have lt: "uint n < 2 ^ 64" using uint_lt2p [of n] by simp
  then have "uint n < 10 ^ 20" by simp
  then have "parse_digits 0 (show_dec (uint n)) = Some (uint n)" by (simp add: parse_show_dec)
  then show ?thesis using lt by (simp add: ParseUint_def FormatUint_def show_dec_not_Nil)
qed

section \<open>Directories\<close>

text \<open>
  Records kept under the keys of their own identifiers below one prefix, as the edges of the registry and the controllers are. The locale
  is the contract of the keys; a listing is what a prefix read at one point of the log decodes to.
\<close>

definition entry_at :: "(etcd_val \<Rightarrow> 'a option) \<Rightarrow> (string \<Rightarrow> string) \<Rightarrow> etcd_log \<Rightarrow> string \<Rightarrow> 'a option" where
  "entry_at dec key l i = (case kv_at l (key i) of None \<Rightarrow> None | Some x \<Rightarrow> dec (kv_Value x))"

definition own_keys :: "(etcd_val \<Rightarrow> 'a option) \<Rightarrow> (string \<Rightarrow> string) \<Rightarrow> ('a \<Rightarrow> string) \<Rightarrow> etcd_log \<Rightarrow> bool" where
  "own_keys dec key ident l \<longleftrightarrow> (\<forall>i a. entry_at dec key l i = Some a \<longrightarrow> ident a = i)"

definition decoded :: "(etcd_val \<Rightarrow> 'a option) \<Rightarrow> (string \<times> kv) list \<Rightarrow> 'a list" where
  "decoded dec kvs = List.map_filter (\<lambda>(k, x). dec (kv_Value x)) kvs"

definition listing :: "(etcd_val \<Rightarrow> 'a option) \<Rightarrow> ('a \<Rightarrow> string) \<Rightarrow> string \<Rightarrow> etcd_log \<Rightarrow> 'a list" where
  "listing dec ident pre l = sort_by (less_key ident) (decoded dec (kvs_under pre l))"

lemma set_decoded: "a \<in> set (decoded dec kvs) \<longleftrightarrow> (\<exists>k x. (k, x) \<in> set kvs \<and> dec (kv_Value x) = Some a)"
  by (induction kvs) (auto simp: decoded_def map_filter_simps split: option.splits)

lemma sorted_listing: "sorted_wrt (\<lambda>a b. ident a \<le> ident b) (listing dec ident pre l)"
  unfolding listing_def using key.sorted_sort_by [of ident] by (simp add: less_key_def not_less)

locale directory =
  fixes dec :: "etcd_val \<Rightarrow> 'a option" and key :: "string \<Rightarrow> string" and ident :: "'a \<Rightarrow> string" and pre :: string
  assumes key_prefix: "prefix pre k \<longleftrightarrow> (\<exists>i. k = key i)"
    and key_inj: "key i = key j \<longleftrightarrow> i = j"
begin

lemma set_listing: "set (listing dec ident pre l) = ran (entry_at dec key l)"
proof -
  have "a \<in> set (decoded dec (kvs_under pre l)) \<longleftrightarrow> (\<exists>i. entry_at dec key l i = Some a)" for a
  proof -
    have "a \<in> set (decoded dec (kvs_under pre l)) \<longleftrightarrow> (\<exists>i x. kv_at l (key i) = Some x \<and> dec (kv_Value x) = Some a)"
      unfolding set_decoded kvs_under_iff key_prefix by blast
    also have "\<dots> \<longleftrightarrow> (\<exists>i. entry_at dec key l i = Some a)" by (auto simp: entry_at_def split: option.splits)
    finally show ?thesis .
  qed
  then show ?thesis by (auto simp: listing_def ran_def)
qed

lemma own_key:
  assumes "own_keys dec key ident l" "(k, x) \<in> set (kvs_under pre l)" "dec (kv_Value x) = Some a"
  shows "k = key (ident a)"
proof -
  obtain i where i: "k = key i" "kv_at l k = Some x" using assms(2) by (auto simp: kvs_under_iff key_prefix)
  then have "entry_at dec key l i = Some a" using assms(3) by (simp add: entry_at_def)
  then show ?thesis using assms(1) i by (auto simp: own_keys_def)
qed

lemma distinct_decoded:
  assumes "own_keys dec key ident l"
  shows "set kvs \<subseteq> set (kvs_under pre l) \<Longrightarrow> distinct (map fst kvs) \<Longrightarrow> distinct (map ident (decoded dec kvs))"
proof (induction kvs)
  case (Cons p kvs)
  obtain k x where p: "p = (k, x)" by (cases p)
  show ?case
  proof (cases "dec (kv_Value x)")
    case (Some a)
    have "ident a \<noteq> ident b" if b: "b \<in> set (decoded dec kvs)" for b
    proof -
      obtain k' x' where k': "(k', x') \<in> set kvs" "dec (kv_Value x') = Some b" using b unfolding set_decoded by blast
      then have "k' = key (ident b)" "k = key (ident a)" using own_key [OF assms] Cons.prems(1) p Some by auto
      moreover have "k' \<noteq> k" using Cons.prems(2) p k'(1) by force
      ultimately show ?thesis by auto
    qed
    then show ?thesis using Cons Some p by (auto simp: decoded_def map_filter_simps)
  qed (use Cons p in \<open>simp add: decoded_def map_filter_simps\<close>)
qed (simp add: decoded_def map_filter_simps)

lemma distinct_listing: "own_keys dec key ident l \<Longrightarrow> distinct (map ident (listing dec ident pre l))"
  using distinct_decoded [of l "kvs_under pre l"] by (simp add: listing_def distinct_kvs_under)

lemma own_put:
  assumes "own_keys dec key ident l" "dec v = Some a" "ident a = i"
  shows "own_keys dec key ident (l @ [[OpPut (key i) v]])"
  using assms by (auto simp: own_keys_def entry_at_def kv_at_snoc apply_ops_def apply_op_def key_inj)

lemma own_delete: "own_keys dec key ident l \<Longrightarrow> own_keys dec key ident (l @ [[OpDelete (key i)]])"
  by (auto simp: own_keys_def entry_at_def kv_at_snoc apply_ops_def apply_op_def key_inj)

lemma dom_listing: "own_keys dec key ident l \<Longrightarrow> set (map ident (listing dec ident pre l)) = dom (entry_at dec key l)"
  by (force simp: set_listing own_keys_def ran_def)

end

end
