(* ===== verification/EdgeVer.thy ===== *)
theory EdgeVer
  imports Etcd
begin

text \<open>
  The per-edge desired and applied versions in etcd (\<open>internal/edgever/edgever.go\<close>): \<open>Bump\<close> and
  \<open>Advance\<close> are read / compare-and-put loops with at most \<open>maxRetries\<close> attempts, \<open>WatchDesired\<close>
  is a snapshot followed by the changes after its revision. The lemmas hold for every client
  that meets \<open>etcd_client\<close>, whatever other replicas commit in between.
\<close>

section \<open>The store\<close>

record 's edgever =
  ev_cli :: "'s etcd"
  ev_prefix :: string

datatype ev_error = EvConflict | EvClient string | EvSyntax

definition maxRetries :: nat where
  "maxRetries = 64"

definition desiredPrefix :: "'s edgever \<Rightarrow> string" where
  "desiredPrefix ev = ev_prefix ev @ ''edgever/''"

definition desiredKey :: "'s edgever \<Rightarrow> edge_id \<Rightarrow> string" where
  "desiredKey ev e = desiredPrefix ev @ e"

definition appliedKey :: "'s edgever \<Rightarrow> edge_id \<Rightarrow> string" where
  "appliedKey ev e = ev_prefix ev @ ''edgeapplied/'' @ e"

definition parse_val :: "etcd_val \<Rightarrow> u64 option" where
  "parse_val v = (case v of Txt t \<Rightarrow> ParseUint t | _ \<Rightarrow> None)"

definition read_ver :: "'s edgever \<Rightarrow> string \<Rightarrow> 's \<Rightarrow> (ev_error + u64 \<times> int) \<times> 's" where
  "read_ver ev key s =
     (case E_Get (ev_cli ev) key s of
        (Inl e, s) \<Rightarrow> (Inl (EvClient e), s)
      | (Inr None, s) \<Rightarrow> (Inr (0, 0), s)
      | (Inr (Some x), s) \<Rightarrow>
          (case parse_val (kv_Value x) of
             None \<Rightarrow> (Inl EvSyntax, s)
           | Some v \<Rightarrow> (Inr (v, kv_ModRevision x), s)))"

text \<open>\<open>Txn().If(ModRevision(k) = rev).Then(OpPut(k, FormatUint(v)))\<close>\<close>

definition put_if :: "'s edgever \<Rightarrow> string \<Rightarrow> int \<Rightarrow> u64 \<Rightarrow> 's \<Rightarrow> (string + bool) \<times> 's" where
  "put_if ev k rv v = E_Txn (ev_cli ev) [CmpMod k rv] [OpPut k (Txt (FormatUint v))]"

fun bump_loop :: "nat \<Rightarrow> 's edgever \<Rightarrow> string \<Rightarrow> 's \<Rightarrow> (ev_error + u64) \<times> 's" where
  "bump_loop 0 ev k s = (Inl EvConflict, s)"
| "bump_loop (Suc n) ev k s =
     (case read_ver ev k s of
        (Inl e, s) \<Rightarrow> (Inl e, s)
      | (Inr (cur, rv), s) \<Rightarrow>
          (case put_if ev k rv (cur + 1) s of
             (Inl e, s) \<Rightarrow> (Inl (EvClient e), s)
           | (Inr b, s) \<Rightarrow> if b then (Inr (cur + 1), s) else bump_loop n ev k s))"

definition Bump :: "'s edgever \<Rightarrow> edge_id \<Rightarrow> 's \<Rightarrow> (ev_error + u64) \<times> 's" where
  "Bump ev e s = bump_loop maxRetries ev (desiredKey ev e) s"

definition ver_of :: "(ev_error + u64 \<times> int) \<times> 's \<Rightarrow> (ev_error + u64) \<times> 's" where
  "ver_of r = (map_sum id fst (fst r), snd r)"

definition Desired :: "'s edgever \<Rightarrow> edge_id \<Rightarrow> 's \<Rightarrow> (ev_error + u64) \<times> 's" where
  "Desired ev e s = ver_of (read_ver ev (desiredKey ev e) s)"

definition Applied :: "'s edgever \<Rightarrow> edge_id \<Rightarrow> 's \<Rightarrow> (ev_error + u64) \<times> 's" where
  "Applied ev e s = ver_of (read_ver ev (appliedKey ev e) s)"

fun advance_loop :: "nat \<Rightarrow> 's edgever \<Rightarrow> string \<Rightarrow> u64 \<Rightarrow> 's \<Rightarrow> (ev_error + unit) \<times> 's" where
  "advance_loop 0 ev k v s = (Inl EvConflict, s)"
| "advance_loop (Suc n) ev k v s =
     (case read_ver ev k s of
        (Inl e, s) \<Rightarrow> (Inl e, s)
      | (Inr (cur, rv), s) \<Rightarrow>
          if cur \<ge> v then (Inr (), s)
          else
            (case put_if ev k rv v s of
               (Inl e, s) \<Rightarrow> (Inl (EvClient e), s)
             | (Inr b, s) \<Rightarrow> if b then (Inr (), s) else advance_loop n ev k v s))"

definition Advance :: "'s edgever \<Rightarrow> edge_id \<Rightarrow> u64 \<Rightarrow> 's \<Rightarrow> (ev_error + unit) \<times> 's" where
  "Advance ev e v s = advance_loop maxRetries ev (appliedKey ev e) v s"

definition parseDesired :: "'s edgever \<Rightarrow> string \<Rightarrow> edge_id option" where
  "parseDesired ev key =
     (let rest = (if prefix (desiredPrefix ev) key then drop (length (desiredPrefix ev)) key else key)
      in if rest = key \<or> rest = [] then None else Some rest)"

text \<open>
  \<open>WatchDesired\<close>: the snapshot events and the revision the watch starts from; the stream
  is the snapshot followed by the puts the watch has delivered so far.
\<close>

definition emit :: "'s edgever \<Rightarrow> string \<Rightarrow> etcd_val \<Rightarrow> (edge_id \<times> u64) list" where
  "emit ev key val =
     (case parseDesired ev key of
        None \<Rightarrow> []
      | Some edge \<Rightarrow> (case parse_val val of None \<Rightarrow> [] | Some v \<Rightarrow> [(edge, v)]))"

definition WatchDesired ::
  "'s edgever \<Rightarrow> 's \<Rightarrow> (string + (edge_id \<times> u64) list \<times> int) \<times> 's"
where
  "WatchDesired ev s =
     (case E_List (ev_cli ev) (desiredPrefix ev) s of
        (Inl e, s) \<Rightarrow> (Inl e, s)
      | (Inr (kvs, rv), s) \<Rightarrow>
          (Inr (concat (map (\<lambda>(k, x). emit ev k (kv_Value x)) kvs), rv + 1), s))"

definition live_events :: "'s edgever \<Rightarrow> int \<Rightarrow> 's \<Rightarrow> (edge_id \<times> u64) list" where
  "live_events ev rv s =
     concat (map (\<lambda>op. case op of OpPut k v \<Rightarrow> emit ev k v | OpDelete k \<Rightarrow> [])
       (E_Watch (ev_cli ev) (desiredPrefix ev) rv s))"

section \<open>Versions along the log\<close>

text \<open>The version a key holds after a log: 0 when absent, \<open>None\<close> when it does not parse.\<close>

definition ver_at :: "etcd_log \<Rightarrow> string \<Rightarrow> u64 option" where
  "ver_at l k = (case kv_at l k of None \<Rightarrow> Some 0 | Some x \<Rightarrow> parse_val (kv_Value x))"

definition put_ver :: "string \<Rightarrow> u64 \<Rightarrow> etcd_op list" where
  "put_ver k v = [OpPut k (Txt (FormatUint v))]"

text \<open>Every transaction of the log that writes \<open>k\<close> stores the previous version plus one.\<close>

definition increments_only :: "string \<Rightarrow> etcd_log \<Rightarrow> bool" where
  "increments_only k l \<longleftrightarrow> (\<forall>n < length l. touches k (l ! n) \<longrightarrow>
     (\<exists>v. ver_at (take n l) k = Some v \<and> v + 1 \<noteq> 0 \<and> l ! n = put_ver k (v + 1)))"

lemma ver_at_put [simp]: "ver_at (l @ [put_ver k v]) k = Some v"
  by (simp add: ver_at_def kv_at_snoc put_ver_def apply_ops_def apply_op_def parse_val_def)

lemma touches_put_ver [simp]: "touches k (put_ver k v)"
  by (simp add: touches_def put_ver_def op_key_def)

lemma ver_at_untouched: "\<not> touches k ops \<Longrightarrow> ver_at (l @ [ops]) k = ver_at l k"
  by (simp add: ver_at_def kv_at_snoc_untouched)

lemma u64_Suc_gt: "v + 1 \<noteq> 0 \<Longrightarrow> v < v + (1 :: u64)"
  by (simp add: word_less_nat_alt unatSuc add.commute)

lemma increments_onlyD:
  "increments_only k l \<Longrightarrow> n < length l \<Longrightarrow> touches k (l ! n) \<Longrightarrow>
     \<exists>v. ver_at (take n l) k = Some v \<and> v + 1 \<noteq> 0 \<and> l ! n = put_ver k (v + 1)"
  by (simp add: increments_only_def)

lemma ver_at_mono:
  assumes "increments_only k l" "m \<le> n" "n \<le> length l"
    and "ver_at (take m l) k = Some u"
  shows "\<exists>v. ver_at (take n l) k = Some v \<and> u \<le> v"
  using assms(2,3)
proof (induction n)
  case (Suc n)
  show ?case
  proof (cases "m \<le> n")
    case True
    then obtain v where v: "ver_at (take n l) k = Some v" "u \<le> v" using Suc by auto
    have t: "take (Suc n) l = take n l @ [l ! n]" using Suc.prems by (simp add: take_Suc_conv_app_nth)
    show ?thesis
    proof (cases "touches k (l ! n)")
      case True
      then have "v + 1 \<noteq> 0" "l ! n = put_ver k (v + 1)"
        using increments_onlyD [OF assms(1) _ True] Suc.prems v(1) by auto
      then show ?thesis using t v(2) u64_Suc_gt [of v] by auto
    qed (use t v ver_at_untouched in simp)
  next
    case False
    then have "m = Suc n" using Suc.prems by simp
    then show ?thesis using assms(4) by auto
  qed
qed (use assms(4) in auto)

section \<open>The loops under interference\<close>

context etcd_client
begin

lemma read_ver_ok:
  assumes "read_ver ev k s = (Inr (v, rv), s')" "ev_cli ev = cl"
  shows "\<exists>l. prefix (log s) l \<and> prefix l (log s') \<and> ver_at l k = Some v \<and> mod_rev l k = rv"
proof -
  obtain r where g: "E_Get cl k s = (Inr r, s')"
    using assms by (auto simp: read_ver_def split: prod.splits sum.splits option.splits)
  then obtain l where l: "prefix (log s) l" "prefix l (log s')" "r = kv_at l k"
    using get_ok by blast
  have "ver_at l k = Some v \<and> mod_rev l k = rv"
    using assms g l(3) by (cases r) (auto simp: read_ver_def ver_at_def mod_rev_def split: option.splits)
  then show ?thesis using l by blast
qed

lemma read_ver_grows:
  assumes "read_ver ev k s = (r, s')" "ev_cli ev = cl"
  shows "prefix (log s) (log s')"
proof -
  obtain x where "E_Get cl k s = (x, s')"
    using assms by (auto simp: read_ver_def split: prod.splits sum.splits option.splits)
  then show ?thesis by (rule get_grows)
qed

text \<open>A conditional put that succeeds lands on the version that was read.\<close>

lemma put_if_true:
  assumes "read_ver ev k s = (Inr (cur, rv), s1)" "put_if ev k rv v s1 = (Inr True, s2)"
    and "ev_cli ev = cl"
  shows "\<exists>l. prefix (log s) l \<and> ver_at l k = Some cur \<and> prefix (l @ [put_ver k v]) (log s2)"
proof -
  obtain l1 where l1: "prefix (log s) l1" "prefix l1 (log s1)" "ver_at l1 k = Some cur"
    "mod_rev l1 k = rv" using read_ver_ok assms(1,3) by blast
  have "E_Txn cl [CmpMod k rv] (put_ver k v) s1 = (Inr True, s2)"
    using assms(2,3) by (simp add: put_if_def put_ver_def)
  then obtain l where l: "prefix (log s1) l" "mod_rev l k = rv" "prefix (l @ [put_ver k v]) (log s2)"
    using txn_true by (fastforce simp: cmp_holds_def)
  have p: "prefix l1 l" using l1(2) l(1) by (rule prefix_order.trans)
  then have "kv_at l1 k = kv_at l k" using l1(4) l(2) by (intro mod_rev_no_ABA) simp_all
  then have "ver_at l k = Some cur" using l1(3) by (simp add: ver_at_def)
  moreover have "prefix (log s) l" using l1(1) p by (rule prefix_order.trans)
  ultimately show ?thesis using l(3) by blast
qed

text \<open>A conditional put that is refused met a foreign write of the key.\<close>

lemma put_if_false:
  assumes "read_ver ev k s = (Inr (cur, rv), s1)" "put_if ev k rv v s1 = (Inr False, s2)"
    and "ev_cli ev = cl"
  shows "length (filter (touches k) (log s)) < length (filter (touches k) (log s2))"
proof -
  obtain l1 where l1: "prefix (log s) l1" "prefix l1 (log s1)" "mod_rev l1 k = rv"
    using read_ver_ok assms(1,3) by blast
  have "E_Txn cl [CmpMod k rv] (put_ver k v) s1 = (Inr False, s2)"
    using assms(2,3) by (simp add: put_if_def put_ver_def)
  then obtain l where l: "prefix (log s1) l" "mod_rev l k \<noteq> rv" "prefix l (log s2)"
    using txn_false by (fastforce simp: cmp_holds_def)
  obtain m where m: "l = l1 @ m" using l1(2) l(1) by (auto simp: prefix_def)
  have "\<exists>ops \<in> set m. touches k ops"
  proof (rule ccontr)
    assume "\<not> ?thesis"
    then have "kv_at (l1 @ m) k = kv_at l1 k"
      by (induction m rule: rev_induct) (auto simp flip: append_assoc simp: kv_at_snoc_untouched)
    then show False using l1(3) l(2) m by (simp add: mod_rev_def)
  qed
  then have "filter (touches k) m \<noteq> []" by (auto simp: filter_empty_conv)
  moreover obtain a b where "l1 = log s @ a" "log s2 = l @ b" using l1(1) l(3) by (auto simp: prefix_def)
  ultimately show ?thesis using m by simp
qed

lemma bump_loop_commit:
  assumes "bump_loop n ev k s = (Inr v, s')" "ev_cli ev = cl"
  shows "\<exists>l. prefix (log s) l \<and> ver_at l k = Some (v - 1) \<and> prefix (l @ [put_ver k v]) (log s')"
  using assms(1)
proof (induction n arbitrary: s)
  case (Suc n)
  obtain cur rv s1 where r: "read_ver ev k s = (Inr (cur, rv), s1)"
    using Suc.prems by (auto split: prod.splits sum.splits)
  obtain b s2 where p: "put_if ev k rv (cur + 1) s1 = (Inr b, s2)"
    using Suc.prems r by (auto split: prod.splits sum.splits)
  show ?case
  proof (cases b)
    case True
    then have "v = cur + 1" "s' = s2" using Suc.prems r p by auto
    then show ?thesis using put_if_true [OF r _ assms(2)] p True by fastforce
  next
    case False
    then have "bump_loop n ev k s2 = (Inr v, s')" using Suc.prems r p by simp
    then obtain l where l: "prefix (log s2) l" "ver_at l k = Some (v - 1)"
      "prefix (l @ [put_ver k v]) (log s')" using Suc.IH by blast
    have "prefix (log s) (log s1)" using r assms(2) by (rule read_ver_grows)
    moreover have "prefix (log s1) (log s2)" using p assms(2) txn_grows by (auto simp: put_if_def)
    ultimately show ?thesis using l by (blast intro: prefix_order.trans)
  qed
qed simp

lemma bump_loop_conflict:
  assumes "bump_loop n ev k s = (Inl EvConflict, s')" "ev_cli ev = cl"
  shows "length (filter (touches k) (log s)) + n \<le> length (filter (touches k) (log s'))"
  using assms(1)
proof (induction n arbitrary: s)
  case (Suc n)
  have "fst (read_ver ev k s) \<noteq> Inl EvConflict"
    by (auto simp: read_ver_def split: prod.splits sum.splits option.splits)
  then obtain cur rv s1 where r: "read_ver ev k s = (Inr (cur, rv), s1)"
    using Suc.prems by (auto split: prod.splits sum.splits)
  obtain b s2 where p: "put_if ev k rv (cur + 1) s1 = (Inr b, s2)"
    using Suc.prems r by (auto split: prod.splits sum.splits)
  have "\<not> b" using Suc.prems r p by auto
  then have p': "put_if ev k rv (cur + 1) s1 = (Inr False, s2)" using p by simp
  then have "bump_loop n ev k s2 = (Inl EvConflict, s')" using Suc.prems r by simp
  then show ?case using Suc.IH put_if_false [OF r p' assms(2)] by fastforce
qed simp

lemma advance_loop_ok:
  assumes "advance_loop n ev k v s = (Inr (), s')" "ev_cli ev = cl"
  shows "\<exists>l cur. prefix (log s) l \<and> ver_at l k = Some cur \<and>
    (if cur \<ge> v then prefix l (log s') else prefix (l @ [put_ver k v]) (log s'))"
  using assms(1)
proof (induction n arbitrary: s)
  case (Suc n)
  obtain cur rv s1 where r: "read_ver ev k s = (Inr (cur, rv), s1)"
    using Suc.prems by (auto split: prod.splits sum.splits)
  have g1: "prefix (log s) (log s1)" using r assms(2) by (rule read_ver_grows)
  show ?case
  proof (cases "cur \<ge> v")
    case True
    then have "s' = s1" using Suc.prems r by simp
    then show ?thesis using read_ver_ok [OF r assms(2)] True by auto
  next
    case False
    obtain b s2 where p: "put_if ev k rv v s1 = (Inr b, s2)"
      using Suc.prems r False by (auto split: prod.splits sum.splits)
    have g2: "prefix (log s1) (log s2)" using p assms(2) txn_grows by (auto simp: put_if_def)
    show ?thesis
    proof (cases b)
      case True
      then have "s' = s2" using Suc.prems r p False by auto
      moreover obtain l where "prefix (log s) l" "ver_at l k = Some cur"
        "prefix (l @ [put_ver k v]) (log s2)" using put_if_true [OF r _ assms(2), of v s2] p True by auto
      ultimately show ?thesis using False by auto
    next
      assume "\<not> b"
      then have "advance_loop n ev k v s2 = (Inr (), s')" using Suc.prems r p False by simp
      then obtain l cur' where l: "prefix (log s2) l" "ver_at l k = Some cur'"
        "if cur' \<ge> v then prefix l (log s') else prefix (l @ [put_ver k v]) (log s')"
        using Suc.IH by blast
      have "prefix (log s) l" using g1 g2 l(1) by (blast intro: prefix_order.trans)
      then show ?thesis using l(2,3) by blast
    qed
  qed
qed simp

end

section \<open>Bump and Advance\<close>


definition demo_ev :: "cluster edgever" where
  "demo_ev = \<lparr>ev_cli = cluster_client, ev_prefix = ''sbw/''\<rparr>"

text \<open>A peer bumps the same edge between our read and our put, so the first attempt is refused.\<close>

definition demo_race :: cluster where
  "demo_race = \<lparr>cl_log = [put_ver ''sbw/edgever/a'' 1], cl_peers = [[], [put_ver ''sbw/edgever/a'' 2]],
     cl_faults = []\<rparr>"

definition demo_race_end :: cluster where
  "demo_race_end = \<lparr>cl_log = [put_ver ''sbw/edgever/a'' 1, put_ver ''sbw/edgever/a'' 2,
     put_ver ''sbw/edgever/a'' 3], cl_peers = [], cl_faults = []\<rparr>"

lemmas ev_eval = cluster_client_def cluster_read_def cluster_txn_def cluster_step_def
  kv_at_def apply_ops_def apply_op_def mod_rev_def cmp_holds_def put_ver_def
  read_ver_def put_if_def parse_val_def demo_ev_def desiredKey_def appliedKey_def desiredPrefix_def

lemma loop_64: "(64 :: nat) = Suc (Suc 62)"
  by simp

lemma demo_race_run: "Bump demo_ev ''a'' demo_race = (Inr 3, demo_race_end)"
  unfolding Bump_def maxRetries_def loop_64 unfolding bump_loop.simps
  by (simp add: ev_eval demo_race_def demo_race_end_def)

lemma demo_race_increments: "increments_only ''sbw/edgever/a'' (cl_log demo_race_end)"
proof -
  have t: "ver_at (take 0 (cl_log demo_race_end)) ''sbw/edgever/a'' = Some 0"
    "ver_at (take 1 (cl_log demo_race_end)) ''sbw/edgever/a'' = Some 1"
    "ver_at (take 2 (cl_log demo_race_end)) ''sbw/edgever/a'' = Some 2"
    by (simp_all add: demo_race_end_def ver_at_def ev_eval)
  have "\<exists>v. ver_at (take n (cl_log demo_race_end)) ''sbw/edgever/a'' = Some v \<and> v + 1 \<noteq> 0 \<and>
      cl_log demo_race_end ! n = put_ver ''sbw/edgever/a'' (v + 1)" if n: "n < 3" for n
  proof -
    consider "n = 0" | "n = 1" | "n = 2" using n by linarith
    then show ?thesis using t by cases (auto simp: demo_race_end_def)
  qed
  then show ?thesis by (simp add: increments_only_def demo_race_end_def)
qed


text \<open>C22: Bump gives up only under real contention: it reports ErrConflict only after at least 64
  transactions wrote the same key while it ran.\<close>

theorem Bump_conflict_is_contention:
  assumes "etcd_client (ev_cli ev) log" "Bump ev e s = (Inl EvConflict, s')"
  shows "length (filter (touches (desiredKey ev e)) (log s)) + 64
    \<le> length (filter (touches (desiredKey ev e)) (log s'))"
  using etcd_client.bump_loop_conflict [OF assms(1) _ refl] assms(2)
  unfolding Bump_def maxRetries_def by blast

text \<open>A peer that writes the key before every one of our puts.\<close>

definition demo_storm :: cluster where
  "demo_storm = \<lparr>cl_log = [], cl_peers = concat (replicate 64 [[], [put_ver ''sbw/edgever/a'' 7]]),
     cl_faults = []\<rparr>"

lemma storm_loop:
  assumes "\<exists>v. ver_at l ''sbw/edgever/a'' = Some v"
  shows "\<exists>s'. bump_loop n demo_ev ''sbw/edgever/a'' \<lparr>cl_log = l,
    cl_peers = concat (replicate n [[], [put_ver ''sbw/edgever/a'' 7]]), cl_faults = []\<rparr>
    = (Inl EvConflict, s')"
  using assms
proof (induction n arbitrary: l)
  case (Suc n)
  let ?k = "''sbw/edgever/a''" and ?p = "put_ver ''sbw/edgever/a'' 7"
  let ?s1 = "\<lparr>cl_log = l, cl_peers = [?p] # concat (replicate n [[], [?p]]), cl_faults = []\<rparr>"
  let ?s2 = "\<lparr>cl_log = l @ [?p], cl_peers = concat (replicate n [[], [?p]]), cl_faults = []\<rparr>"
  obtain v where v: "ver_at l ?k = Some v" using Suc.prems by blast
  have r: "read_ver demo_ev ?k \<lparr>cl_log = l, cl_peers = concat (replicate (Suc n) [[], [?p]]),
      cl_faults = []\<rparr> = (Inr (v, mod_rev l ?k), ?s1)"
    using v by (cases "kv_at l ?k") (auto simp: read_ver_def demo_ev_def cluster_client_def
      cluster_read_def cluster_step_def ver_at_def mod_rev_def)
  have m: "mod_rev (l @ [?p]) ?k = revision l + 1"
    by (simp add: mod_rev_def kv_at_snoc put_ver_def apply_ops_def apply_op_def)
  then have "mod_rev (l @ [?p]) ?k \<noteq> mod_rev l ?k" using mod_rev_range(1) [of l ?k] by simp
  then have "put_if demo_ev ?k (mod_rev l ?k) (v + 1) ?s1 = (Inr False, ?s2)"
    by (simp add: put_if_def demo_ev_def cluster_client_def cluster_txn_def cluster_step_def cmp_holds_def)
  then show ?case using Suc.IH [of "l @ [?p]"] r by simp
qed simp

theorem Bump_conflict_is_contention_witness:
  "\<exists>s'. Bump demo_ev ''a'' demo_storm = (Inl EvConflict, s') \<and>
     length (filter (touches (desiredKey demo_ev ''a'')) (cl_log demo_storm)) + 64
     \<le> length (filter (touches (desiredKey demo_ev ''a'')) (cl_log s'))"
proof -
  have k: "desiredKey demo_ev ''a'' = ''sbw/edgever/a''"
    by (simp add: demo_ev_def desiredKey_def desiredPrefix_def)
  have "\<exists>v. ver_at [] ''sbw/edgever/a'' = Some v" by (simp add: ver_at_def)
  then have "\<exists>s'. Bump demo_ev ''a'' demo_storm = (Inl EvConflict, s')"
    unfolding Bump_def maxRetries_def demo_storm_def k by (rule storm_loop)
  then obtain s' where b: "Bump demo_ev ''a'' demo_storm = (Inl EvConflict, s')" ..
  have "etcd_client (ev_cli demo_ev) cl_log"
    using cluster.etcd_client_axioms by (simp add: demo_ev_def)
  from b Bump_conflict_is_contention [OF this b] show ?thesis by (intro exI conjI)
qed


definition demo_report :: cluster where
  "demo_report = \<lparr>cl_log = [put_ver ''sbw/edgeapplied/a'' 2], cl_peers = [], cl_faults = []\<rparr>"

definition demo_report_end :: cluster where
  "demo_report_end = \<lparr>cl_log = [put_ver ''sbw/edgeapplied/a'' 2, put_ver ''sbw/edgeapplied/a'' 5],
     cl_peers = [], cl_faults = []\<rparr>"


section \<open>WatchDesired\<close>

text \<open>Consuming a stream of events: the last version of each edge.\<close>

definition replay :: "(edge_id \<times> u64) list \<Rightarrow> (edge_id \<rightharpoonup> u64) \<Rightarrow> edge_id \<rightharpoonup> u64" where
  "replay evs m = foldl (\<lambda>m (e, v). m(e \<mapsto> v)) m evs"

text \<open>The desired versions after a log.\<close>

definition table_of :: "'s edgever \<Rightarrow> (string \<rightharpoonup> kv) \<Rightarrow> edge_id \<rightharpoonup> u64" where
  "table_of ev f e = (if e = [] then None else
     (case f (desiredKey ev e) of None \<Rightarrow> None | Some x \<Rightarrow> parse_val (kv_Value x)))"

definition desired_table :: "'s edgever \<Rightarrow> etcd_log \<Rightarrow> edge_id \<rightharpoonup> u64" where
  "desired_table ev l = table_of ev (kv_at l)"

text \<open>Under the prefix there are only puts of decimal numbers.\<close>

definition versions_only :: "'s edgever \<Rightarrow> etcd_log \<Rightarrow> bool" where
  "versions_only ev l \<longleftrightarrow> (\<forall>op \<in> set (concat l). prefix (desiredPrefix ev) (op_key op) \<longrightarrow>
     (\<exists>k v. op = OpPut k (Txt (FormatUint v))))"

lemma parseDesired_key: "parseDesired ev (desiredKey ev e) = (if e = [] then None else Some e)"
  by (auto simp: parseDesired_def desiredKey_def desiredPrefix_def)

lemma parseDesired_Some: "parseDesired ev key = Some e \<longleftrightarrow> key = desiredKey ev e \<and> e \<noteq> []"
  by (auto simp: parseDesired_def desiredKey_def desiredPrefix_def prefix_def Let_def split: if_splits)

lemma replay_append: "replay (xs @ ys) m = replay ys (replay xs m)"
  by (simp add: replay_def)

lemma replay_map_of: "replay evs m = m ++ map_of (rev evs)"
  by (induction evs arbitrary: m) (auto simp: replay_def map_add_def fun_eq_iff split: option.splits)

lemma emit_iff: "(e, v) \<in> set (emit ev k val) \<longleftrightarrow>
    k = desiredKey ev e \<and> e \<noteq> [] \<and> parse_val val = Some v"
proof (cases "parseDesired ev k")
  case None
  then have "\<not> (k = desiredKey ev e \<and> e \<noteq> [])" using parseDesired_Some [of ev k e] by simp
  then show ?thesis using None by (auto simp: emit_def)
next
  case (Some e0)
  then have "e0 = e \<longleftrightarrow> k = desiredKey ev e \<and> e \<noteq> []" using parseDesired_Some [of ev k e] by simp
  then show ?thesis using Some by (auto simp: emit_def split: option.splits)
qed

lemma desiredKey_prefix [simp]: "prefix (desiredPrefix ev) (desiredKey ev e)"
  by (simp add: desiredKey_def)

lemma desiredKey_inj [simp]: "desiredKey ev e = desiredKey ev e' \<longleftrightarrow> e = e'"
  by (simp add: desiredKey_def)

lemma snapshot_table:
  "replay (concat (map (\<lambda>(k, x). emit ev k (kv_Value x)) (kvs_under (desiredPrefix ev) l))) Map.empty
     = desired_table ev l" (is "replay ?evs _ = _")
proof
  fix e
  have ev: "(e, v) \<in> set ?evs \<longleftrightarrow> desired_table ev l e = Some v" for v
    by (auto simp: kvs_under_iff emit_iff desired_table_def table_of_def split: option.splits)
  define E where "E = ?evs"
  have ev: "(e, v) \<in> set E \<longleftrightarrow> desired_table ev l e = Some v" for v
    using ev [of v] by (simp only: E_def)
  have "replay E Map.empty e = desired_table ev l e"
  proof (cases "map_of (rev E) e")
    case None
    then have "(e, v) \<notin> set E" for v by (metis map_of_eq_None_iff fst_conv image_eqI set_rev)
    then have "desired_table ev l e = None" using ev by (metis option.exhaust)
    then show ?thesis using None by (simp add: replay_map_of)
  next
    case (Some v)
    then have "(e, v) \<in> set E" using map_of_SomeD set_rev by metis
    then show ?thesis using Some ev by (simp add: replay_map_of)
  qed
  then show "replay ?evs Map.empty e = desired_table ev l e" by (simp only: E_def)
qed

definition emit_op :: "'s edgever \<Rightarrow> etcd_op \<Rightarrow> (edge_id \<times> u64) list" where
  "emit_op ev op = (case op of OpPut k v \<Rightarrow> emit ev k v | OpDelete k \<Rightarrow> [])"

lemma replay_op:
  assumes "prefix (desiredPrefix ev) (op_key op) \<Longrightarrow> \<exists>k v. op = OpPut k (Txt (FormatUint v))"
  shows "replay (if prefix (desiredPrefix ev) (op_key op) then emit_op ev op else []) (table_of ev f)
    = table_of ev (\<lambda>k. apply_op r k (f k) op)"
proof (cases "prefix (desiredPrefix ev) (op_key op)")
  case True
  then obtain k v where op: "op = OpPut k (Txt (FormatUint v))" using assms by blast
  then obtain e0 where k: "k = desiredKey ev e0"
    using True by (auto simp: op_key_def prefix_def desiredKey_def)
  show ?thesis
    using op k True by (auto simp: emit_op_def emit_def parseDesired_key replay_def table_of_def
        apply_op_def parse_val_def op_key_def fun_eq_iff)
next
  case False
  then have "op_key op \<noteq> desiredKey ev e" for e using desiredKey_prefix by metis
  then have "apply_op r (desiredKey ev e) c op = c" for e c
    by (cases op) (auto simp: apply_op_def op_key_def)
  then show ?thesis using False by (simp add: replay_def table_of_def fun_eq_iff)
qed

lemma replay_ops:
  assumes "\<forall>op \<in> set ops. prefix (desiredPrefix ev) (op_key op) \<longrightarrow> (\<exists>k v. op = OpPut k (Txt (FormatUint v)))"
  shows "replay (concat (map (emit_op ev) (filter (\<lambda>op. prefix (desiredPrefix ev) (op_key op)) ops)))
      (table_of ev f) = table_of ev (\<lambda>k. apply_ops r k (f k) ops)"
  using assms
proof (induction ops arbitrary: f)
  case (Cons op ops)
  have "replay (if prefix (desiredPrefix ev) (op_key op) then emit_op ev op else []) (table_of ev f)
      = table_of ev (\<lambda>k. apply_op r k (f k) op)"
    by (rule replay_op) (use Cons.prems in simp)
  moreover have "replay (concat (map (emit_op ev) (filter (\<lambda>op. prefix (desiredPrefix ev) (op_key op)) ops)))
      (table_of ev (\<lambda>k. apply_op r k (f k) op)) = table_of ev (\<lambda>k. apply_ops r k (f k) (op # ops))"
    using Cons.IH [of "\<lambda>k. apply_op r k (f k) op"] Cons.prems by (simp add: apply_ops_def)
  ultimately show ?case
    by (cases "prefix (desiredPrefix ev) (op_key op)") (simp_all add: replay_append replay_def)
qed (simp add: replay_def apply_ops_def)

lemma replay_log:
  assumes "versions_only ev (l @ ls)"
  shows "replay (concat (map (emit_op ev) (changes_under (desiredPrefix ev) (revision l + 1) (l @ ls))))
      (desired_table ev l) = desired_table ev (l @ ls)"
  using assms
proof (induction ls rule: rev_induct)
  case Nil
  then show ?case by (simp add: changes_under_def revision_def replay_def)
next
  case (snoc ops ls)
  have "versions_only ev (l @ ls)" using snoc.prems by (auto simp: versions_only_def)
  then have ih: "replay (concat (map (emit_op ev) (changes_under (desiredPrefix ev) (revision l + 1)
      (l @ ls)))) (desired_table ev l) = desired_table ev (l @ ls)" by (rule snoc.IH)
  have v: "\<forall>op \<in> set ops. prefix (desiredPrefix ev) (op_key op) \<longrightarrow>
      (\<exists>k v. op = OpPut k (Txt (FormatUint v)))"
    using snoc.prems by (auto simp: versions_only_def)
  have kv: "kv_at (l @ ls @ [ops]) = (\<lambda>k. apply_ops (revision (l @ ls) + 1) k (kv_at (l @ ls) k) ops)"
    using kv_at_snoc [of "l @ ls" ops] by (simp add: fun_eq_iff)
  have c: "changes_under (desiredPrefix ev) (revision l + 1) (l @ ls @ [ops]) =
      changes_under (desiredPrefix ev) (revision l + 1) (l @ ls)
      @ filter (\<lambda>op. prefix (desiredPrefix ev) (op_key op)) ops"
    by (simp add: changes_under_def revision_def)
  show ?case
    unfolding c map_append concat_append replay_append ih
    unfolding desired_table_def kv by (rule replay_ops [OF v])
qed

text \<open>C24: The desired-version watch neither loses nor invents a change: for every etcd client with
  the documented behaviour, replaying the snapshot of WatchDesired and then the puts watched from
  its revision plus one gives, at every later moment, exactly the current table of desired
  versions, provided the keys under the prefix are only ever written as decimal versions.\<close>

theorem WatchDesired_complete:
  assumes "etcd_client (ev_cli ev) log" "WatchDesired ev s = (Inr (snapshot, rv), s')"
    and "prefix (log s') (log s'')" "versions_only ev (log s'')"
  shows "replay (snapshot @ live_events ev rv s'') Map.empty = desired_table ev (log s'')"
proof -
  obtain kvs rv0 where li: "E_List (ev_cli ev) (desiredPrefix ev) s = (Inr (kvs, rv0), s')"
    and sn: "snapshot = concat (map (\<lambda>(k, x). emit ev k (kv_Value x)) kvs)" and rv: "rv = rv0 + 1"
    using assms(2) by (auto simp: WatchDesired_def split: prod.splits sum.splits)
  obtain l where l: "prefix l (log s')" "kvs = kvs_under (desiredPrefix ev) l" "rv0 = revision l"
    using etcd_client.list_ok [OF assms(1) li] by blast
  obtain ls where ls: "log s'' = l @ ls"
    using prefix_order.trans [OF l(1) assms(3)] by (auto simp: prefix_def)
  have live: "live_events ev rv s'' = concat (map (emit_op ev)
      (changes_under (desiredPrefix ev) (revision l + 1) (l @ ls)))"
    using etcd_client.watch_ok [OF assms(1)] rv l(3) ls by (simp add: live_events_def emit_op_def [abs_def])
  show ?thesis
    unfolding replay_append live sn l(2) snapshot_table
    using replay_log [of ev l ls] assms(4) ls by simp
qed

definition demo_watch :: cluster where
  "demo_watch = \<lparr>cl_log = [put_ver ''sbw/edgever/a'' 1], cl_peers = [], cl_faults = []\<rparr>"

definition demo_watch_later :: cluster where
  "demo_watch_later = \<lparr>cl_log = [put_ver ''sbw/edgever/a'' 1, put_ver ''sbw/edgever/b'' 1,
     put_ver ''sbw/edgever/a'' 2], cl_peers = [], cl_faults = []\<rparr>"

theorem WatchDesired_complete_witness:
  "WatchDesired demo_ev demo_watch = (Inr ([(''a'', 1)], 3), demo_watch)
   \<and> replay ([(''a'', 1)] @ live_events demo_ev 3 demo_watch_later) Map.empty
       = desired_table demo_ev (cl_log demo_watch_later)"
proof
  show w: "WatchDesired demo_ev demo_watch = (Inr ([(''a'', 1)], 3), demo_watch)"
    by (simp add: WatchDesired_def demo_watch_def ev_eval kvs_under_def log_keys_def op_key_def
        map_filter_def revision_def emit_def parseDesired_def)
  have c: "etcd_client (ev_cli demo_ev) cl_log"
    using cluster.etcd_client_axioms by (simp add: demo_ev_def)
  have p: "prefix (cl_log demo_watch) (cl_log demo_watch_later)"
    by (simp add: demo_watch_def demo_watch_later_def)
  have v: "versions_only demo_ev (cl_log demo_watch_later)"
    by (auto simp: versions_only_def demo_watch_later_def put_ver_def)
  show "replay ([(''a'', 1)] @ live_events demo_ev 3 demo_watch_later) Map.empty
       = desired_table demo_ev (cl_log demo_watch_later)"
    by (rule WatchDesired_complete [OF c w p v])
qed

end
