(* ===== verification/Registry.thy ===== *)
theory Registry
  imports Etcd
begin

text \<open>
  The registry of schedulable edges in etcd (\<open>internal/registry/registry.go\<close>). The clock of
  \<open>Register\<close> is an argument. A stored agent is the record its JSON encodes, see \<open>Etcd\<close>.
\<close>

section \<open>Operations\<close>

record 's registry =
  rg_kv :: "'s etcd"
  rg_prefix :: string

datatype reg_error = RegClient string | RegJSON

definition listPrefix :: "'s registry \<Rightarrow> string" where
  "listPrefix r = rg_prefix r @ ''agents/''"

definition reg_key :: "'s registry \<Rightarrow> edge_id \<Rightarrow> string" where
  "reg_key r e = rg_prefix r @ ''agents/'' @ e"

definition unmarshal_agent :: "etcd_val \<Rightarrow> agent option" where
  "unmarshal_agent v = (case v of JAgent a \<Rightarrow> Some a | _ \<Rightarrow> None)"

definition reg_Get :: "'s registry \<Rightarrow> edge_id \<Rightarrow> 's \<Rightarrow> (reg_error + agent option) \<times> 's" where
  "reg_Get r e s =
     (case E_Get (rg_kv r) (reg_key r e) s of
        (Inl err, s) \<Rightarrow> (Inl (RegClient err), s)
      | (Inr None, s) \<Rightarrow> (Inr None, s)
      | (Inr (Some x), s) \<Rightarrow>
          (case unmarshal_agent (kv_Value x) of
             None \<Rightarrow> (Inl RegJSON, s)
           | Some a \<Rightarrow> (Inr (Some a), s)))"

definition lift_reg :: "(string + unit) \<times> 's \<Rightarrow> (reg_error + unit) \<times> 's" where
  "lift_reg p = (map_sum RegClient id (fst p), snd p)"

definition Register :: "'s registry \<Rightarrow> int \<Rightarrow> edge_id \<Rightarrow> u64 \<Rightarrow> 's \<Rightarrow> (reg_error + unit) \<times> 's" where
  "Register r nowMs e cap s =
     (case reg_Get r e s of
        (Inl err, s) \<Rightarrow> (Inl err, s)
      | (Inr existing, s) \<Rightarrow>
          let a = \<lparr>ag_EdgeID = e, ag_CapacityBps = cap, ag_RegisteredAt = nowMs\<rparr>;
              a = (case existing of None \<Rightarrow> a | Some x \<Rightarrow> a\<lparr>ag_RegisteredAt := ag_RegisteredAt x\<rparr>)
          in lift_reg (E_Do (rg_kv r) (OpPut (reg_key r e) (JAgent a)) s))"

definition Deregister :: "'s registry \<Rightarrow> edge_id \<Rightarrow> 's \<Rightarrow> (reg_error + unit) \<times> 's" where
  "Deregister r e s = lift_reg (E_Do (rg_kv r) (OpDelete (reg_key r e)) s)"

definition reg_List :: "'s registry \<Rightarrow> 's \<Rightarrow> (reg_error + agent list) \<times> 's" where
  "reg_List r s =
     (case E_List (rg_kv r) (listPrefix r) s of
        (Inl err, s) \<Rightarrow> (Inl (RegClient err), s)
      | (Inr (kvs, rv), s) \<Rightarrow>
          (Inr (sort_by (less_key ag_EdgeID)
             (List.map_filter (\<lambda>(k, x). unmarshal_agent (kv_Value x)) kvs)), s))"

definition EdgeIDs :: "'s registry \<Rightarrow> 's \<Rightarrow> (reg_error + edge_id list) \<times> 's" where
  "EdgeIDs r s = (case reg_List r s of
     (Inl e, s) \<Rightarrow> (Inl e, s) | (Inr as, s) \<Rightarrow> (Inr (map ag_EdgeID as), s))"

section \<open>The registered set\<close>

text \<open>The agents a log holds; every agent is stored under the key of its own edge.\<close>

definition registered :: "'s registry \<Rightarrow> etcd_log \<Rightarrow> edge_id \<rightharpoonup> agent" where
  "registered r = entry_at unmarshal_agent (reg_key r)"

definition reg_inv :: "'s registry \<Rightarrow> etcd_log \<Rightarrow> bool" where
  "reg_inv r = own_keys unmarshal_agent (reg_key r) ag_EdgeID"

text \<open>What a listing at one point of the log returns.\<close>

definition agents_at :: "'s registry \<Rightarrow> etcd_log \<Rightarrow> agent list" where
  "agents_at r = listing unmarshal_agent ag_EdgeID (listPrefix r)"

interpretation agents: directory unmarshal_agent "reg_key r" ag_EdgeID "listPrefix r" for r :: "'s registry"
  by unfold_locales (auto simp: listPrefix_def reg_key_def prefix_def)

lemma reg_inv_put: "reg_inv r l \<Longrightarrow> ag_EdgeID a = e \<Longrightarrow> reg_inv r (l @ [[OpPut (reg_key r e) (JAgent a)]])"
  unfolding reg_inv_def by (rule agents.own_put) (simp_all add: unmarshal_agent_def)

lemma reg_inv_delete: "reg_inv r l \<Longrightarrow> reg_inv r (l @ [[OpDelete (reg_key r e)]])"
  unfolding reg_inv_def by (rule agents.own_delete)

lemma set_agents_at: "set (agents_at r l) = ran (registered r l)"
  unfolding agents_at_def registered_def by (rule agents.set_listing)

lemma distinct_agents_at: "reg_inv r l \<Longrightarrow> distinct (map ag_EdgeID (agents_at r l))"
  unfolding agents_at_def reg_inv_def by (rule agents.distinct_listing)

text \<open>A listing reads the registry at one point of the log.\<close>

lemma reg_List_at:
  assumes "etcd_client (rg_kv r) log" "reg_List r s = (Inr as, s')"
  shows "\<exists>l. prefix (log s) l \<and> prefix l (log s') \<and> as = agents_at r l"
proof -
  obtain kvs rv where e: "E_List (rg_kv r) (listPrefix r) s = (Inr (kvs, rv), s')"
    and as: "as = sort_by (less_key ag_EdgeID) (List.map_filter (\<lambda>(k, x). unmarshal_agent (kv_Value x)) kvs)"
    using assms(2) by (auto simp: reg_List_def split: prod.splits sum.splits)
  from etcd_client.list_ok [OF assms(1) e] show ?thesis by (auto simp: as agents_at_def listing_def decoded_def)
qed

text \<open>\<open>Register\<close> keeps the first-seen time of the agent it read, and stores under its own key.\<close>

lemma Register_commits:
  assumes "etcd_client (rg_kv r) log" "Register r now e cap s = (Inr (), s')"
  shows "\<exists>l l' a. prefix (log s) l \<and> prefix l l'
    \<and> prefix (l' @ [[OpPut (reg_key r e) (JAgent a)]]) (log s')
    \<and> ag_EdgeID a = e \<and> ag_CapacityBps a = cap
    \<and> ag_RegisteredAt a = (case registered r l e of None \<Rightarrow> now | Some x \<Rightarrow> ag_RegisteredAt x)"
proof -
  obtain ex s1 where g: "reg_Get r e s = (Inr ex, s1)"
    using assms(2) by (auto simp: Register_def split: prod.splits sum.splits)
  then obtain x where x: "E_Get (rg_kv r) (reg_key r e) s = (Inr x, s1)"
    "ex = (case x of None \<Rightarrow> None | Some y \<Rightarrow> unmarshal_agent (kv_Value y))"
    by (auto simp: reg_Get_def split: prod.splits sum.splits option.splits)
  obtain l where l: "prefix (log s) l" "prefix l (log s1)" "x = kv_at l (reg_key r e)"
    using etcd_client.get_ok [OF assms(1) x(1)] by blast
  have ex: "ex = registered r l e" using x(2) l(3) by (simp add: registered_def entry_at_def)
  define a where "a = (case ex of None \<Rightarrow> \<lparr>ag_EdgeID = e, ag_CapacityBps = cap, ag_RegisteredAt = now\<rparr>
    | Some x \<Rightarrow> \<lparr>ag_EdgeID = e, ag_CapacityBps = cap, ag_RegisteredAt = ag_RegisteredAt x\<rparr>)"
  have "lift_reg (E_Do (rg_kv r) (OpPut (reg_key r e) (JAgent a)) s1) = (Inr (), s')"
    using assms(2) g by (cases ex) (simp_all add: Register_def Let_def a_def)
  then obtain b where t: "E_Txn (rg_kv r) [] [OpPut (reg_key r e) (JAgent a)] s1 = (Inr b, s')"
    by (auto simp: lift_reg_def E_Do_def split: prod.splits sum.splits)
  moreover have b
  proof (rule ccontr)
    assume "\<not> b"
    then show False using etcd_client.txn_false [OF assms(1), of "[]"] t by fastforce
  qed
  ultimately obtain l' where l': "prefix (log s1) l'"
    "prefix (l' @ [[OpPut (reg_key r e) (JAgent a)]]) (log s')"
    using etcd_client.txn_true [OF assms(1)] by force
  have "prefix l l'" using l(2) l'(1) by (rule prefix_order.trans)
  moreover have "ag_EdgeID a = e" "ag_CapacityBps a = cap"
    "ag_RegisteredAt a = (case registered r l e of None \<Rightarrow> now | Some x \<Rightarrow> ag_RegisteredAt x)"
    using ex by (auto simp: a_def split: option.splits)
  ultimately show ?thesis using l(1) l'(2) by blast
qed

text \<open>List is a consistent view of the registry: it returns, sorted by edge id and without
  duplicates, exactly the agents registered at one point of the log within the call.\<close>

theorem List_is_registered_set:
  assumes "etcd_client (rg_kv r) log" "reg_List r s = (Inr as, s')"
  shows "\<exists>l. prefix (log s) l \<and> prefix l (log s') \<and> set as = ran (registered r l)
    \<and> sorted_wrt (\<lambda>a b. ag_EdgeID a \<le> ag_EdgeID b) as
    \<and> (reg_inv r l \<longrightarrow> distinct (map ag_EdgeID as))"
proof -
  obtain l where "prefix (log s) l" "prefix l (log s')" and as: "as = agents_at r l" using reg_List_at [OF assms] by blast
  moreover have "sorted_wrt (\<lambda>a b. ag_EdgeID a \<le> ag_EdgeID b) as" unfolding as agents_at_def by (rule sorted_listing)
  ultimately show ?thesis using set_agents_at distinct_agents_at by blast
qed

definition demo_registry :: "cluster registry" where
  "demo_registry = \<lparr>rg_kv = cluster_client, rg_prefix = ''sbw/''\<rparr>"

definition demo_reg_state :: cluster where
  "demo_reg_state = \<lparr>cl_log = [[OpPut ''sbw/agents/a'' (JAgent \<lparr>ag_EdgeID = ''a'', ag_CapacityBps = 10,
     ag_RegisteredAt = 5\<rparr>)]], cl_peers = [], cl_faults = []\<rparr>"

theorem List_is_registered_set_witness:
  "\<exists>l. prefix (cl_log demo_reg_state) l \<and> prefix l (cl_log demo_reg_state)
    \<and> set [\<lparr>ag_EdgeID = ''a'', ag_CapacityBps = 10, ag_RegisteredAt = 5\<rparr>] = ran (registered demo_registry l)
    \<and> sorted_wrt (\<lambda>a b. ag_EdgeID a \<le> ag_EdgeID b)
        [\<lparr>ag_EdgeID = ''a'', ag_CapacityBps = 10, ag_RegisteredAt = 5\<rparr>]"
proof -
  have c: "etcd_client (rg_kv demo_registry) cl_log"
    using cluster.etcd_client_axioms by (simp add: demo_registry_def)
  have "reg_List demo_registry demo_reg_state = (Inr [\<lparr>ag_EdgeID = ''a'', ag_CapacityBps = 10,
      ag_RegisteredAt = 5\<rparr>], demo_reg_state)"
    by (simp add: reg_List_def demo_registry_def demo_reg_state_def cluster_client_def cluster_read_def
        cluster_step_def kvs_under_def log_keys_def op_key_def map_filter_def listPrefix_def
        kv_at_def apply_ops_def apply_op_def unmarshal_agent_def)
  from List_is_registered_set [OF c this] show ?thesis by blast
qed

end
