(* ===== verification/Orch.thy ===== *)
theory Orch
  imports MemStore Scheduler Render EdgeVer Registry "HOL-Library.State_Monad"
begin

text \<open>
  The orchestrator's state and the operations its paths share (\<open>internal/orchestrator\<close>): placement
  inputs, generations, rendering and delivery. A method is a computation of the state monad over
  \<open>world\<close>: the stores, the per-edge generation maps, the queue of dispatched jobs and a trace of
  observable effects. Everything outside the process is indexed by a clock that advances with every
  external call: the liveness oracle, the agent transport and the transactions that other
  replicas commit between two calls of ours.
\<close>

section \<open>State\<close>

datatype orch_error =
    ErrNoPlacement "select_error option"
  | ErrNoBackup
  | ErrWithdrawIncomplete
  | ETokens pool_id
  | EAlreadyExists pool_id
  | EPoolExists pool_id
  | ENotFound pool_id
  | EStore store_error
  | ESelect select_error
  | ERender render_error
  | EEdgeVer ev_error
  | EReg reg_error
  | EPush string
  | ENotConfirmed edge_id
  | EWithdraw edge_id orch_error
  | EDrain edge_id pool_id orch_error

text \<open>\<open>poolstore.Record\<close>\<close>

record pool_record =
  pr_Pool :: pool
  pr_Primary :: edge_id
  pr_Backup :: edge_id
  pr_PrimaryResvID :: string
  pr_BackupResvID :: string
  pr_Tokens :: int
  pr_CreatedAt :: int
  pr_Retiring :: edge_id
  pr_RetiringResvID :: string

definition Homes :: "pool_record \<Rightarrow> edge_id list" where
  "Homes r = (if pr_Backup r = [] then [pr_Primary r] else [pr_Primary r, pr_Backup r])"

text \<open>\<open>EdgeDesiredState\<close> as pushed, and \<open>EdgeDesiredDelta\<close>.\<close>

record pushed_state = edge_desired_state +
  d_DesiredVersion :: u64

record edge_delta =
  ed_EdgeID :: edge_id
  ed_Generation :: u64
  ed_BaseGeneration :: u64
  ed_DesiredVersion :: u64
  ed_Upserts :: "pool_delta list"

text \<open>
  What can be observed: calls of the transport and of the callbacks, the writes of the pivot row
  with their outcome, and the answers the decisions rest on.
\<close>

datatype event =
    EvAlive edge_id bool
  | EvReady edge_id bool
  | EvRead "pivot_row option"
  | EvUpdateCAS pool_id int edge_id edge_id edge_id bool
  | EvDeleteCAS pool_id int bool
  | EvBump edge_id
  | EvPushDesired edge_id pushed_state bool
  | EvPushDelta edge_id edge_delta bool
  | EvFailover pool_id edge_id edge_id u64
  | EvRedundancy string pool_id edge_id string
  | EvRehome pool_id edge_id edge_id
  | EvDblDeath pool_id bool
  | EvEnqueue pool_id

text \<open>The dispatched job of a create or update: one delta push per home.\<close>

record job =
  jb_pool :: pool
  jb_homes :: "(edge_id \<times> bool \<times> u64) list"

record 's world =
  w_yb :: store
  w_etcd :: 's
  w_cap :: capacity_cache
  w_lastGen :: "edge_id \<rightharpoonup> u64"
  w_genCtr :: "edge_id \<rightharpoonup> u64"
  w_now :: nat
  w_jobs :: "job list"
  w_trace :: "event list"

text \<open>
  The wiring of an \<open>Orchestrator\<close>. \<open>oc_delta\<close> and \<open>oc_subscribed\<close> are the optional capabilities of
  the transport, \<open>oc_pushErr\<close> its failures, \<open>oc_peers\<close> what other replicas do to the store before
  our call at a clock value, \<open>oc_sync\<close> the synchronous dispatcher of the tests.
\<close>

record 's orch =
  oc_cx :: contract
  oc_tb :: tie_break
  oc_replicas :: int
  oc_EdgeAddrs :: "edge_id \<rightharpoonup> addr"
  oc_EdgeAddrs6 :: "edge_id \<rightharpoonup> addr"
  oc_HomeMarker :: "(edge_id \<Rightarrow> large_community option) option"
  oc_Suppress :: "(edge_id \<Rightarrow> pfx \<Rightarrow> bool) option"
  oc_isAlive :: "(nat \<Rightarrow> edge_id \<Rightarrow> bool) option"
  oc_sessBudget :: "(edge_id \<Rightarrow> u64) option"
  oc_genSeed :: "nat \<Rightarrow> u64"
  oc_edgever :: "'s edgever option"
  oc_reg :: "'s registry"
  oc_delta :: bool
  oc_subscribed :: "(nat \<Rightarrow> edge_id \<Rightarrow> bool) option"
  oc_pushErr :: "nat \<Rightarrow> edge_id \<Rightarrow> string option"
  oc_peers :: "nat \<Rightarrow> store \<Rightarrow> store"
  oc_withdrawTimeout :: duration
  oc_sync :: bool
  oc_onFailover :: bool
  oc_onRedundancy :: bool
  oc_onRehome :: bool
  oc_onDblDeath :: bool

section \<open>Effects\<close>

type_synonym ('s, 'a) om = "('s world, 'a) State_Monad.state"

definition ret :: "'a \<Rightarrow> ('s, 'a) om" where
  "ret x = State (\<lambda>w. (x, w))"

definition observe :: "event \<Rightarrow> ('s, unit) om" where
  "observe ev = State (\<lambda>w. ((), w\<lparr>w_trace := w_trace w @ [ev]\<rparr>))"

text \<open>\<open>if err != nil { return err }\<close>\<close>

definition tryE :: "('s, 'e + 'a) om \<Rightarrow> ('a \<Rightarrow> ('s, 'e + 'b) om) \<Rightarrow> ('s, 'e + 'b) om" where
  "tryE m f = State_Monad.bind m (\<lambda>r. case r of Inl e \<Rightarrow> ret (Inl e) | Inr x \<Rightarrow> f x)"

text \<open>A call of the store: other replicas move first.\<close>

definition yb :: "'s orch \<Rightarrow> (store \<Rightarrow> store \<times> 'a) \<Rightarrow> ('s, 'a) om" where
  "yb orc f = State (\<lambda>w.
     let (st, r) = f (oc_peers orc (w_now w) (w_yb w))
     in (r, w\<lparr>w_yb := st, w_now := w_now w + 1\<rparr>))"

definition etcd :: "('s \<Rightarrow> 'a \<times> 's) \<Rightarrow> ('s, 'a) om" where
  "etcd f = State (\<lambda>w. let (r, s) = f (w_etcd w) in (r, w\<lparr>w_etcd := s, w_now := w_now w + 1\<rparr>))"

definition lift_store :: "(store_error + 'a) \<Rightarrow> orch_error + 'a" where
  "lift_store = map_sum EStore id"

section \<open>Liveness, readiness and placement inputs\<close>

definition alive_at :: "'s orch \<Rightarrow> nat \<Rightarrow> edge_id \<Rightarrow> bool" where
  "alive_at orc n e = (case oc_isAlive orc of None \<Rightarrow> True | Some f \<Rightarrow> f n e)"

definition alive :: "'s orch \<Rightarrow> edge_id \<Rightarrow> ('s, bool) om" where
  "alive orc e = State (\<lambda>w. let b = alive_at orc (w_now w) e in
     (b, w\<lparr>w_now := w_now w + 1, w_trace := w_trace w @ [EvAlive e b]\<rparr>))"

definition edgeReady_raw :: "'s orch \<Rightarrow> edge_id \<Rightarrow> ('s, bool) om" where
  "edgeReady_raw orc e =
     (case oc_edgever orc of
        None \<Rightarrow> ret True
      | Some ev \<Rightarrow> do {
          des \<leftarrow> etcd (Desired ev e);
          (case des of
             Inl _ \<Rightarrow> ret False
           | Inr des \<Rightarrow>
               if des = 0 then ret True
               else do {
                 app \<leftarrow> etcd (Applied ev e);
                 (case app of Inl _ \<Rightarrow> ret False | Inr app \<Rightarrow> ret (app \<ge> des))
               })
        })"

definition edgeReady :: "'s orch \<Rightarrow> edge_id \<Rightarrow> ('s, bool) om" where
  "edgeReady orc e = do { b \<leftarrow> edgeReady_raw orc e; observe (EvReady e b); ret b }"

definition sellableFracPercent :: int where
  "sellableFracPercent = 90"

definition sellableTokens :: "u64 \<Rightarrow> int" where
  "sellableTokens capacityBps = go_div (wrap64 (sint capacityBps * sellableFracPercent)) 100"

text \<open>The candidate loop: an excluded agent is skipped before the oracle is asked.\<close>

fun live_loop ::
  "'s orch \<Rightarrow> (edge_id \<Rightarrow> bool) \<Rightarrow> agent list \<Rightarrow> edge_id list \<Rightarrow> (edge_id \<rightharpoonup> u64) \<Rightarrow>
   ('s, edge_id list \<times> (edge_id \<rightharpoonup> u64)) om"
where
  "live_loop orc excl [] out caps = ret (out, caps)"
| "live_loop orc excl (a # as) out caps =
     (if excl (ag_EdgeID a) then live_loop orc excl as out caps
      else do {
        b \<leftarrow> alive orc (ag_EdgeID a);
        if b then live_loop orc excl as (out @ [ag_EdgeID a]) (caps(ag_EdgeID a \<mapsto> ag_CapacityBps a))
        else live_loop orc excl as out caps
      })"

definition liveCandidatesCap ::
  "'s orch \<Rightarrow> (edge_id \<Rightarrow> bool) \<Rightarrow> ('s, orch_error + edge_id list \<times> (edge_id \<rightharpoonup> u64)) om"
where
  "liveCandidatesCap orc excl = do {
     r \<leftarrow> etcd (reg_List (oc_reg orc));
     (case r of
        Inl e \<Rightarrow> ret (Inl (EReg e))
      | Inr agents \<Rightarrow> do {
          out \<leftarrow> live_loop orc excl agents [] Map.empty;
          ret (Inr out)
        })
   }"

definition sessRemaining :: "'s orch \<Rightarrow> capacity_cache \<Rightarrow> remaining option" where
  "sessRemaining orc c =
     (case oc_sessBudget orc of
        None \<Rightarrow> None
      | Some f \<Rightarrow> Some (\<lambda>e. let budget = f e in
          if budget = 0 then Inr (2 ^ 63 - 1) else Inr (wrap64 (sint budget - Members c e))))"

definition sessionConstraint :: "'s orch \<Rightarrow> capacity_cache \<Rightarrow> nat \<Rightarrow> remaining option \<times> int" where
  "sessionConstraint orc c memberCount =
     (case sessRemaining orc c of None \<Rightarrow> (None, 0) | Some rs \<Rightarrow> (Some rs, int memberCount))"

definition remaining_of :: "capacity_cache \<Rightarrow> (edge_id \<rightharpoonup> u64) \<Rightarrow> remaining" where
  "remaining_of c capBps = (\<lambda>e. Inr (wrap64 (sellableTokens (case capBps e of None \<Rightarrow> 0 | Some v \<Rightarrow> v)
     - Used c e)))"

text \<open>The two calls every placement path makes.\<close>

definition select ::
  "'s orch \<Rightarrow> capacity_cache \<Rightarrow> edge_id list \<Rightarrow> (edge_id \<rightharpoonup> u64) \<Rightarrow> int \<Rightarrow> nat \<Rightarrow> int \<Rightarrow>
   select_error + edge_id list"
where
  "select orc c cands capBps tokens memberCount n =
     (let (remSess, needSess) = sessionConstraint orc c memberCount
      in SelectHomes (oc_tb orc) cands (remaining_of c capBps) tokens remSess needSess n)"

definition resvID :: "pool_id \<Rightarrow> edge_id \<Rightarrow> string" where
  "resvID i e = ''pool-'' @ show_dec (int i) @ ''-'' @ e"

section \<open>Generations\<close>

definition nextGenForEdge :: "'s orch \<Rightarrow> edge_id \<Rightarrow> ('s, u64) om" where
  "nextGenForEdge orc e = State (\<lambda>w.
     let cur = (case w_genCtr w e of None \<Rightarrow> oc_genSeed orc (w_now w) | Some c \<Rightarrow> c);
         cur = cur + 1
     in (cur, w\<lparr>w_genCtr := (w_genCtr w)(e \<mapsto> cur), w_now := w_now w + 1\<rparr>))"

definition CleanupEdge :: "edge_id \<Rightarrow> ('s, unit) om" where
  "CleanupEdge e = State (\<lambda>w. ((), w\<lparr>w_lastGen := (w_lastGen w)(e := None),
     w_genCtr := (w_genCtr w)(e := None)\<rparr>))"

definition options_of :: "'s orch \<Rightarrow> u64 \<Rightarrow> options" where
  "options_of orc gen = \<lparr>o_Generation = unat gen, o_EdgeAddrs = oc_EdgeAddrs orc,
     o_EdgeAddrs6 = oc_EdgeAddrs6 orc, o_HomeMarker = oc_HomeMarker orc, o_Suppress = oc_Suppress orc\<rparr>"

text \<open>\<open>renderOptions\<close>: the generation it mints, from which the options follow.\<close>

definition renderOptions :: "'s orch \<Rightarrow> edge_id \<Rightarrow> ('s, u64) om" where
  "renderOptions orc e = nextGenForEdge orc e"

definition set_lastGen :: "edge_id \<Rightarrow> u64 \<Rightarrow> ('s, u64) om" where
  "set_lastGen e g = State (\<lambda>w. (case w_lastGen w e of None \<Rightarrow> 0 | Some b \<Rightarrow> b,
     w\<lparr>w_lastGen := (w_lastGen w)(e \<mapsto> g)\<rparr>))"

section \<open>Rendering and delivery\<close>

definition desired_version :: "'s orch \<Rightarrow> edge_id \<Rightarrow> ('s, orch_error + u64) om" where
  "desired_version orc e =
     (case oc_edgever orc of
        None \<Rightarrow> ret (Inr 0)
      | Some ev \<Rightarrow> do { v \<leftarrow> etcd (Desired ev e); ret (map_sum EEdgeVer id v) })"

definition ExpectedCounts :: "'s orch \<Rightarrow> edge_id \<Rightarrow> ('s, orch_error + nat \<times> nat) om" where
  "ExpectedCounts orc e =
     tryE (do { r \<leftarrow> yb orc (\<lambda>st. PoolsForHome st e); ret (lift_store r) }) (\<lambda>primary.
     tryE (do { r \<leftarrow> yb orc (\<lambda>st. PoolsForBackup st e); ret (lift_store r) }) (\<lambda>backup.
       ret (case ForEdge (oc_cx orc) (options_of orc 0) e primary backup of
              Inl err \<Rightarrow> Inl (ERender err)
            | Inr st \<Rightarrow> Inr (length (d_Policers st), length (d_ClassifySessions st)))))"

definition push_desired :: "'s orch \<Rightarrow> edge_id \<Rightarrow> pushed_state \<Rightarrow> ('s, string option) om" where
  "push_desired orc e st = State (\<lambda>w. let err = oc_pushErr orc (w_now w) e in
     (err, w\<lparr>w_now := w_now w + 1, w_trace := w_trace w @ [EvPushDesired e st (err = None)]\<rparr>))"

definition push_delta :: "'s orch \<Rightarrow> edge_id \<Rightarrow> edge_delta \<Rightarrow> ('s, string option) om" where
  "push_delta orc e d = State (\<lambda>w. let err = oc_pushErr orc (w_now w) e in
     (err, w\<lparr>w_now := w_now w + 1, w_trace := w_trace w @ [EvPushDelta e d (err = None)]\<rparr>))"

text \<open>The generation and version are returned beside a push error, as in the source.\<close>

definition renderAndPushGen :: "'s orch \<Rightarrow> edge_id \<Rightarrow> ('s, u64 \<times> u64 \<times> orch_error option) om" where
  "renderAndPushGen orc e = do {
     primary \<leftarrow> yb orc (\<lambda>st. PoolsForHome st e);
     (case primary of
        Inl err \<Rightarrow> ret (0, 0, Some (EStore err))
      | Inr primary \<Rightarrow> do {
          backup \<leftarrow> yb orc (\<lambda>st. PoolsForBackup st e);
          (case backup of
             Inl err \<Rightarrow> ret (0, 0, Some (EStore err))
           | Inr backup \<Rightarrow> do {
               gen \<leftarrow> renderOptions orc e;
               (case ForEdge (oc_cx orc) (options_of orc gen) e primary backup of
                  Inl err \<Rightarrow> ret (0, 0, Some (ERender err))
                | Inr st \<Rightarrow> do {
                    ver \<leftarrow> desired_version orc e;
                    (case ver of
                       Inl err \<Rightarrow> ret (0, 0, Some err)
                     | Inr ver \<Rightarrow> do {
                         err \<leftarrow> push_desired orc e (edge_desired_state.extend st (pushed_state.fields ver));
                         (case err of
                            Some err \<Rightarrow> ret (gen, ver, Some (EPush err))
                          | None \<Rightarrow> do { _ \<leftarrow> set_lastGen e gen; ret (gen, ver, None) })
                       })
                  })
             })
        })
   }"

text \<open>\<open>renderAndPush\<close> of an uncancelled caller; coalesced callers share one such run.\<close>

definition renderAndPush :: "'s orch \<Rightarrow> edge_id \<Rightarrow> ('s, orch_error option) om" where
  "renderAndPush orc e = do { (_, _, err) \<leftarrow> renderAndPushGen orc e; ret err }"

definition locallyDeliverable :: "'s orch \<Rightarrow> edge_id \<Rightarrow> ('s, bool) om" where
  "locallyDeliverable orc e =
     (case oc_edgever orc of
        None \<Rightarrow> ret True
      | Some _ \<Rightarrow> (case oc_subscribed orc of
          None \<Rightarrow> ret True
        | Some f \<Rightarrow> State (\<lambda>w. (f (w_now w) e, w\<lparr>w_now := w_now w + 1\<rparr>))))"

definition bump :: "'s orch \<Rightarrow> edge_id \<Rightarrow> ('s, unit) om" where
  "bump orc e =
     (if e = [] then ret ()
      else do {
        observe (EvBump e);
        (case oc_edgever orc of
           None \<Rightarrow> do { _ \<leftarrow> renderAndPush orc e; ret () }
         | Some ev \<Rightarrow> do { _ \<leftarrow> etcd (Bump ev e); ret () })
      })"

definition bumpGen :: "'s orch \<Rightarrow> edge_id \<Rightarrow> ('s, u64) om" where
  "bumpGen orc e =
     (if e = [] then ret 0
      else do {
        observe (EvBump e);
        (case oc_edgever orc of
           None \<Rightarrow> do {
             (gen, _, err) \<leftarrow> renderAndPushGen orc e;
             ret (if err = None then gen else 0)
           }
         | Some ev \<Rightarrow> do { _ \<leftarrow> etcd (Bump ev e); ret 0 })
      })"

definition MarkEdge :: "'s orch \<Rightarrow> edge_id \<Rightarrow> ('s, unit) om" where
  "MarkEdge orc e = bump orc e"

definition deliverEdge :: "'s orch \<Rightarrow> edge_id \<Rightarrow> ('s, orch_error option) om" where
  "deliverEdge orc e = do {
     here \<leftarrow> locallyDeliverable orc e;
     if here then renderAndPush orc e else do { bump orc e; ret None }
   }"

text \<open>
  \<open>waitEdgeApplied\<close> polls once and then at every tick of 200 ms before the timeout; the
  context's own deadline is not modelled.
\<close>

fun poll_ready :: "nat \<Rightarrow> 's orch \<Rightarrow> edge_id \<Rightarrow> ('s, orch_error option) om" where
  "poll_ready n orc e = do {
     b \<leftarrow> edgeReady orc e;
     if b then ret None
     else (case n of 0 \<Rightarrow> ret (Some (ENotConfirmed e)) | Suc m \<Rightarrow> poll_ready m orc e)
   }"

definition defaultWithdrawConfirmTimeout :: duration where
  "defaultWithdrawConfirmTimeout = seconds 30"

definition waitEdgeApplied :: "'s orch \<Rightarrow> edge_id \<Rightarrow> ('s, orch_error option) om" where
  "waitEdgeApplied orc e =
     (case oc_edgever orc of
        None \<Rightarrow> ret None
      | Some _ \<Rightarrow>
          let timeout = (if oc_withdrawTimeout orc \<le> 0 then defaultWithdrawConfirmTimeout
                         else oc_withdrawTimeout orc)
          in poll_ready (nat ((timeout - 1) div 200000000)) orc e)"

definition pushPoolDeltaGen ::
  "'s orch \<Rightarrow> edge_id \<Rightarrow> pool \<Rightarrow> bool \<Rightarrow> u64 \<Rightarrow> ('s, orch_error option) om"
where
  "pushPoolDeltaGen orc e p standby gen = do {
     here \<leftarrow> locallyDeliverable orc e;
     if \<not> here then ret None
     else if \<not> oc_delta orc then renderAndPush orc e
     else do {
       minted \<leftarrow> renderOptions orc e;
       (let g = (if gen > 0 then gen else minted) in
        case ForPool (oc_cx orc) (options_of orc g) e p standby of
          Inl err \<Rightarrow> ret (Some (ERender err))
        | Inr delta \<Rightarrow> do {
            ver \<leftarrow> desired_version orc e;
            (case ver of
               Inl err \<Rightarrow> ret (Some err)
             | Inr ver \<Rightarrow> do {
                 base \<leftarrow> set_lastGen e g;
                 err \<leftarrow> push_delta orc e \<lparr>ed_EdgeID = e, ed_Generation = g, ed_BaseGeneration = base,
                          ed_DesiredVersion = ver, ed_Upserts = [delta]\<rparr>;
                 ret (map_option EPush err)
               })
          })
     }
   }"

text \<open>\<open>o.dispatch\<close>: run the job at once, or leave it to run at any later time.\<close>

fun push_homes :: "'s orch \<Rightarrow> pool \<Rightarrow> (edge_id \<times> bool \<times> u64) list \<Rightarrow> ('s, unit) om" where
  "push_homes orc p [] = ret ()"
| "push_homes orc p ((e, standby, gen) # hs) =
     do { _ \<leftarrow> pushPoolDeltaGen orc e p standby gen; push_homes orc p hs }"

definition dispatch :: "'s orch \<Rightarrow> job \<Rightarrow> ('s, unit) om" where
  "dispatch orc j =
     (if oc_sync orc then push_homes orc (jb_pool j) (jb_homes j)
      else State (\<lambda>w. ((), w\<lparr>w_jobs := w_jobs w @ [j]\<rparr>)))"

text \<open>The runtime starts the \<open>n\<close>-th outstanding job.\<close>

definition run_job :: "'s orch \<Rightarrow> nat \<Rightarrow> ('s, unit) om" where
  "run_job orc n = do {
     w \<leftarrow> State_Monad.get;
     if n < length (w_jobs w) then do {
       State_Monad.set (w\<lparr>w_jobs := take n (w_jobs w) @ drop (Suc n) (w_jobs w)\<rparr>);
       push_homes orc (jb_pool (w_jobs w ! n)) (jb_homes (w_jobs w ! n))
     } else ret ()
   }"

end
