(* ===== verification/Fan.thy ===== *)
theory Fan
  imports Shard Orch
begin

text \<open>
  The downlink to the coverers (\<open>internal/server/desiredfan.go\<close> and the connection handling of
  \<open>servercoverer.go\<close> and \<open>controlplane.go\<close>): the Watch streams of the connected coverers, routing of
  an edge's directives by rendezvous hashing over them, the assignment handed to agents, and the
  directives that move an agent to its primary coverer. Streams are objects that are compared by
  identity and closed, so they live in a store and the map holds their addresses; closing a
  channel twice is a run-time panic in Go, which the state records.
\<close>

section \<open>State\<close>

record coverer =
  cv_ControllerID :: coverer_id
  cv_GRPCEndpoint :: string
  cv_Primary :: bool

record coverer_assignment =
  as_EdgeID :: edge_id
  as_Coverers :: "coverer list"

text \<open>A directive with its kind and payload; the generation of the first two is in the payload.\<close>

datatype directive = DESIRED_STATE pushed_state | DESIRED_DELTA edge_delta | REHOME coverer_assignment

datatype assignment = EDGE_DIRECTIVE edge_id directive | COVERAGE "edge_id list"

record stream =
  st_id :: coverer_id
  st_endpoint :: string
  st_ch :: "assignment list"
  st_done :: bool

record fan =
  fn_heap :: "stream list"
  fn_streams :: "(coverer_id \<times> nat) list"
  fn_lastPrimary :: "edge_id \<rightharpoonup> coverer_id"
  fn_misHomeRehomedAt :: "edge_id \<rightharpoonup> gtime"
  fn_k :: int
  fn_recalc :: bool
  fn_panic :: bool

definition seamBuffer :: nat where
  "seamBuffer = 4096"

definition misHomeRehomeInterval :: duration where
  "misHomeRehomeInterval = seconds 15"

definition newDesiredFan :: "int \<Rightarrow> fan" where
  "newDesiredFan k = \<lparr>fn_heap = [], fn_streams = [], fn_lastPrimary = Map.empty,
     fn_misHomeRehomedAt = Map.empty, fn_k = k, fn_recalc = False, fn_panic = False\<rparr>"

section \<open>Streams\<close>

definition set_stream :: "fan \<Rightarrow> nat \<Rightarrow> stream \<Rightarrow> fan" where
  "set_stream f a s = f\<lparr>fn_heap := (fn_heap f)[a := s]\<rparr>"

text \<open>\<open>close(s.done)\<close>\<close>

definition close_done :: "fan \<Rightarrow> nat \<Rightarrow> fan" where
  "close_done f a =
     (let s = fn_heap f ! a
      in if st_done s then f\<lparr>fn_panic := True\<rparr> else set_stream f a (s\<lparr>st_done := True\<rparr>))"

definition scheduleCoverageRecompute :: "fan \<Rightarrow> fan" where
  "scheduleCoverageRecompute f = f\<lparr>fn_recalc := True\<rparr>"

definition connectCoverer :: "fan \<Rightarrow> coverer_id \<Rightarrow> string \<Rightarrow> nat \<times> fan" where
  "connectCoverer f c endpoint =
     (let f = (case map_of (fn_streams f) c of None \<Rightarrow> f | Some old \<Rightarrow> close_done f old);
          a = length (fn_heap f);
          s = \<lparr>st_id = c, st_endpoint = endpoint, st_ch = [], st_done = False\<rparr>;
          f = f\<lparr>fn_heap := fn_heap f @ [s], fn_streams := AList.update c a (fn_streams f)\<rparr>
      in (a, scheduleCoverageRecompute f))"

definition evictCoverer :: "fan \<Rightarrow> coverer_id \<Rightarrow> nat \<Rightarrow> fan" where
  "evictCoverer f c a =
     (if map_of (fn_streams f) c = Some a
      then scheduleCoverageRecompute (close_done (f\<lparr>fn_streams := AList.delete c (fn_streams f)\<rparr>) a)
      else f)"

text \<open>The loop of \<open>Stop\<close>: every stream is closed and forgotten.\<close>

fun stop_loop :: "(coverer_id \<times> nat) list \<Rightarrow> fan \<Rightarrow> fan" where
  "stop_loop [] f = f"
| "stop_loop ((c, a) # rest) f =
     (let f = close_done f a in stop_loop rest (f\<lparr>fn_streams := AList.delete c (fn_streams f)\<rparr>))"

definition Stop :: "fan \<Rightarrow> fan" where
  "Stop f = stop_loop (fn_streams f) f"

text \<open>One receive of the Watch pump.\<close>

definition pump :: "fan \<Rightarrow> nat \<Rightarrow> assignment option \<times> fan" where
  "pump f a =
     (let s = fn_heap f ! a
      in if a < length (fn_heap f) then
           (case st_ch s of [] \<Rightarrow> (None, f) | x # xs \<Rightarrow> (Some x, set_stream f a (s\<lparr>st_ch := xs\<rparr>)))
         else (None, f))"

section \<open>Routing\<close>

definition connectedCovererIDs :: "fan \<Rightarrow> coverer_id list" where
  "connectedCovererIDs f = sort (map fst (fn_streams f))"

fun streamForIDs :: "fan \<Rightarrow> coverer_id list \<Rightarrow> nat option" where
  "streamForIDs f [] = None"
| "streamForIDs f (c # cs) =
     (case map_of (fn_streams f) c of Some a \<Rightarrow> Some a | None \<Rightarrow> streamForIDs f cs)"

definition streamFor :: "fan \<Rightarrow> edge_id \<Rightarrow> nat option" where
  "streamFor f e = streamForIDs f (Coverers e (connectedCovererIDs f) (fn_k f))"

definition IsSubscribed :: "fan \<Rightarrow> edge_id \<Rightarrow> bool" where
  "IsSubscribed f e \<longleftrightarrow> streamFor f e \<noteq> None"

text \<open>The loop over the covering ids; \<open>Primary\<close> is \<open>i == 0\<close>.\<close>

fun assign_loop :: "fan \<Rightarrow> nat \<Rightarrow> coverer_id list \<Rightarrow> coverer list" where
  "assign_loop f i [] = []"
| "assign_loop f i (c # cs) =
     (case map_of (fn_streams f) c of
        None \<Rightarrow> assign_loop f (Suc i) cs
      | Some a \<Rightarrow> \<lparr>cv_ControllerID = c, cv_GRPCEndpoint = st_endpoint (fn_heap f ! a), cv_Primary = (i = 0)\<rparr>
                  # assign_loop f (Suc i) cs)"

definition assignmentFor :: "fan \<Rightarrow> edge_id \<Rightarrow> coverer_assignment option" where
  "assignmentFor f e =
     (let covers = Coverers e (connectedCovererIDs f) (fn_k f)
      in if covers = [] then None
         else
           let out = assign_loop f 0 covers
           in if out = [] then None else Some \<lparr>as_EdgeID = e, as_Coverers = out\<rparr>)"

section \<open>Sending\<close>

text \<open>
  \<open>select\<close> on a send and the stream's \<open>done\<close>: with both possible Go picks one (\<open>pick\<close>); with
  neither the goroutine waits, and the caller runs the step again after another one.
\<close>

datatype send_result = Sent | Released | Waiting

definition room :: "stream \<Rightarrow> bool" where
  "room s \<longleftrightarrow> length (st_ch s) < seamBuffer"

definition enqueue :: "fan \<Rightarrow> nat \<Rightarrow> assignment \<Rightarrow> fan" where
  "enqueue f a x = (let s = fn_heap f ! a in set_stream f a (s\<lparr>st_ch := st_ch s @ [x]\<rparr>))"

definition select_send :: "bool \<Rightarrow> fan \<Rightarrow> nat \<Rightarrow> assignment \<Rightarrow> send_result \<times> fan" where
  "select_send pick f a x =
     (let s = fn_heap f ! a
      in if room s \<and> (\<not> st_done s \<or> pick) then (Sent, enqueue f a x)
         else if st_done s then (Released, f)
         else (Waiting, f))"

text \<open>\<open>emit\<close>: \<open>None\<close> is \<open>ErrNotSubscribed\<close> of the first test.\<close>

definition fan_emit :: "bool \<Rightarrow> fan \<Rightarrow> edge_id \<Rightarrow> directive \<Rightarrow> send_result option \<times> fan" where
  "fan_emit pick f e d =
     (case streamFor f e of
        None \<Rightarrow> (None, f)
      | Some a \<Rightarrow> (let (r, f) = select_send pick f a (EDGE_DIRECTIVE e d) in (Some r, f)))"

definition PushDesired :: "bool \<Rightarrow> fan \<Rightarrow> edge_id \<Rightarrow> pushed_state \<Rightarrow> send_result option \<times> fan" where
  "PushDesired pick f e st = fan_emit pick f e (DESIRED_STATE st)"

definition PushDelta :: "bool \<Rightarrow> fan \<Rightarrow> edge_id \<Rightarrow> edge_delta \<Rightarrow> send_result option \<times> fan" where
  "PushDelta pick f e dl = fan_emit pick f e (DESIRED_DELTA dl)"

definition PushRehome :: "bool \<Rightarrow> fan \<Rightarrow> edge_id \<Rightarrow> coverer_assignment \<Rightarrow> send_result option \<times> fan" where
  "PushRehome pick f e asg = fan_emit pick f e (REHOME asg)"

text \<open>The non-blocking send to every covering coverer: a full channel drops the directive.\<close>

fun offer_all :: "fan \<Rightarrow> assignment \<Rightarrow> nat list \<Rightarrow> fan" where
  "offer_all f x [] = f"
| "offer_all f x (a # as) =
     offer_all (if room (fn_heap f ! a) \<and> \<not> st_done (fn_heap f ! a) then enqueue f a x else f) x as"

definition emitToAllCovers :: "fan \<Rightarrow> edge_id \<Rightarrow> directive \<Rightarrow> fan" where
  "emitToAllCovers f e d =
     offer_all f (EDGE_DIRECTIVE e d)
       (List.map_filter (map_of (fn_streams f)) (Coverers e (connectedCovererIDs f) (fn_k f)))"

definition PushRehomeAll :: "fan \<Rightarrow> edge_id \<Rightarrow> coverer_assignment \<Rightarrow> fan" where
  "PushRehomeAll f e asg = emitToAllCovers f e (REHOME asg)"

section \<open>Moving agents to their primary\<close>

definition notePrimary :: "fan \<Rightarrow> edge_id \<Rightarrow> coverer_id \<Rightarrow> fan" where
  "notePrimary f e primary = f\<lparr>fn_lastPrimary := (fn_lastPrimary f)(e \<mapsto> primary)\<rparr>"

definition primary_of :: "coverer_assignment \<Rightarrow> coverer_id" where
  "primary_of asg = cv_ControllerID (hd (as_Coverers asg))"

definition rehome_edge :: "edge_id \<Rightarrow> nat \<times> fan \<Rightarrow> nat \<times> fan" where
  "rehome_edge e nf =
     (let (n, f) = nf
      in case assignmentFor f e of
           None \<Rightarrow> (n, f)
         | Some asg \<Rightarrow>
             let primary = primary_of asg;
                 prev = fn_lastPrimary f e;
                 f = notePrimary f e primary
             in if prev \<noteq> None \<and> prev \<noteq> Some primary then (Suc n, PushRehomeAll f e asg) else (n, f))"

definition rehomeChangedPrimaries :: "fan \<Rightarrow> edge_id list \<Rightarrow> nat \<times> fan" where
  "rehomeChangedPrimaries f es = fold rehome_edge es (0, f)"

definition rehomeMisHome :: "fan \<Rightarrow> edge_id \<Rightarrow> coverer_id \<Rightarrow> gtime \<Rightarrow> coverer_id \<times> fan" where
  "rehomeMisHome f e relay now =
     (if relay = [] then ([], f)
      else case assignmentFor f e of
        None \<Rightarrow> ([], f)
      | Some asg \<Rightarrow>
          if as_Coverers asg = [] \<or> relay = primary_of asg then ([], f)
          else
            let primary = primary_of asg
            in if (case fn_misHomeRehomedAt f e of None \<Rightarrow> False | Some at \<Rightarrow> now - at < misHomeRehomeInterval)
               then ([], f)
               else
                 let f = f\<lparr>fn_misHomeRehomedAt := (fn_misHomeRehomedAt f)(e \<mapsto> now),
                           fn_lastPrimary := (fn_lastPrimary f)(e \<mapsto> primary)\<rparr>
                 in (primary, PushRehomeAll f e asg))"

section \<open>Coverage\<close>

text \<open>
  A send that has to wait ends when the pump has freed a slot or when the stream is closed
  (\<open>rel\<close>).
\<close>

definition block_send :: "bool \<Rightarrow> fan \<Rightarrow> nat \<Rightarrow> assignment \<Rightarrow> fan" where
  "block_send rel f a x =
     (case select_send False f a x of
        (Waiting, f) \<Rightarrow> if rel then evictCoverer f (st_id (fn_heap f ! a)) a
                        else enqueue (snd (pump f a)) a x
      | (_, f) \<Rightarrow> f)"

definition emitCoverage :: "bool \<Rightarrow> fan \<Rightarrow> coverer_id \<Rightarrow> edge_id list \<Rightarrow> fan" where
  "emitCoverage rel f c es =
     (case map_of (fn_streams f) c of None \<Rightarrow> f | Some a \<Rightarrow> block_send rel f a (COVERAGE es))"

text \<open>\<open>coveredEdgesFor\<close> and \<open>recomputeCoverageAll\<close> for the edge universe read from the registry.\<close>

definition coveredEdgesFor :: "fan \<Rightarrow> coverer_id \<Rightarrow> edge_id list \<Rightarrow> edge_id list" where
  "coveredEdgesFor f c es = CoveredEdges c es (connectedCovererIDs f) (fn_k f)"

definition recomputeCoverage :: "(coverer_id \<Rightarrow> bool) \<Rightarrow> fan \<Rightarrow> edge_id list \<Rightarrow> nat \<times> fan" where
  "recomputeCoverage rel f es =
     (let ids = connectedCovererIDs f
      in if ids = [] then (0, f)
         else rehomeChangedPrimaries
                (fold (\<lambda>c f. emitCoverage (rel c) f c (CoveredEdges c es ids (fn_k f))) ids f) es)"

section \<open>Histories\<close>

text \<open>
  The steps that goroutines take on the fan. Addresses are whatever pointer a goroutine still
  holds, so an eviction may name a stream that was superseded and a send one that was closed.
\<close>

datatype fan_op =
    Connect coverer_id string
  | Evict coverer_id nat
  | StopAll
  | Pump nat
  | Send bool nat assignment
  | OfferAll edge_id directive
  | Note edge_id coverer_id
  | RehomeChanged "edge_id list"
  | MisHome edge_id coverer_id gtime
  | Recompute "coverer_id \<Rightarrow> bool" "edge_id list"

primrec fan_step :: "fan_op \<Rightarrow> fan \<Rightarrow> fan" where
  "fan_step (Connect c ep) f = snd (connectCoverer f c ep)"
| "fan_step (Evict c a) f = evictCoverer f c a"
| "fan_step StopAll f = Stop f"
| "fan_step (Pump a) f = snd (pump f a)"
| "fan_step (Send pick a x) f = (if a < length (fn_heap f) then snd (select_send pick f a x) else f)"
| "fan_step (OfferAll e d) f = emitToAllCovers f e d"
| "fan_step (Note e c) f = notePrimary f e c"
| "fan_step (RehomeChanged es) f = snd (rehomeChangedPrimaries f es)"
| "fan_step (MisHome e c now) f = snd (rehomeMisHome f e c now)"
| "fan_step (Recompute rel es) f = snd (recomputeCoverage rel f es)"

definition run_fan :: "fan_op list \<Rightarrow> fan \<Rightarrow> fan" where
  "run_fan ops f = fold fan_step ops f"

section \<open>Invariant\<close>

text \<open>Every stream of the map exists, carries its key, is open, and no buffer exceeds its capacity.\<close>

definition current :: "fan \<Rightarrow> coverer_id \<Rightarrow> nat \<Rightarrow> bool" where
  "current f c a \<longleftrightarrow> a < length (fn_heap f) \<and> st_id (fn_heap f ! a) = c \<and> \<not> st_done (fn_heap f ! a)"

definition fan_ok :: "fan \<Rightarrow> bool" where
  "fan_ok f \<longleftrightarrow> map_ok (fn_streams f) \<and> (\<forall>(c, a) \<in> set (fn_streams f). current f c a)
     \<and> (\<forall>s \<in> set (fn_heap f). length (st_ch s) \<le> seamBuffer) \<and> \<not> fn_panic f"

text \<open>A change of buffers and bookkeeping only: the same streams, open or closed as before.\<close>

definition same_streams :: "fan \<Rightarrow> fan \<Rightarrow> bool" where
  "same_streams f f' \<longleftrightarrow> fn_streams f' = fn_streams f \<and> fn_k f' = fn_k f \<and> fn_panic f' = fn_panic f
     \<and> length (fn_heap f') = length (fn_heap f)
     \<and> (\<forall>a < length (fn_heap f). st_id (fn_heap f' ! a) = st_id (fn_heap f ! a)
          \<and> st_endpoint (fn_heap f' ! a) = st_endpoint (fn_heap f ! a)
          \<and> st_done (fn_heap f' ! a) = st_done (fn_heap f ! a))"

lemma same_streams_refl [simp]: "same_streams f f"
  by (simp add: same_streams_def)

lemma same_streams_trans: "same_streams f g \<Longrightarrow> same_streams g h \<Longrightarrow> same_streams f h"
  by (simp add: same_streams_def)

lemma fan_ok_same:
  assumes "fan_ok f" "same_streams f f'" "\<forall>s \<in> set (fn_heap f'). length (st_ch s) \<le> seamBuffer"
  shows "fan_ok f'"
  using assms unfolding fan_ok_def same_streams_def current_def by fastforce

lemma set_stream_sel [simp]:
  "fn_streams (set_stream f a s) = fn_streams f" "fn_k (set_stream f a s) = fn_k f"
  "fn_panic (set_stream f a s) = fn_panic f" "fn_lastPrimary (set_stream f a s) = fn_lastPrimary f"
  "fn_misHomeRehomedAt (set_stream f a s) = fn_misHomeRehomedAt f"
  "length (fn_heap (set_stream f a s)) = length (fn_heap f)"
  by (simp_all add: set_stream_def)

lemma heap_set_stream:
  "b < length (fn_heap f) \<Longrightarrow> fn_heap (set_stream f a s) ! b = (if b = a then s else fn_heap f ! b)"
  by (simp add: set_stream_def)

abbreviation bounded :: "fan \<Rightarrow> bool" where
  "bounded f \<equiv> (\<forall>s \<in> set (fn_heap f). length (st_ch s) \<le> seamBuffer)"

lemma set_stream_bounded: "bounded f \<Longrightarrow> length (st_ch s) \<le> seamBuffer \<Longrightarrow> bounded (set_stream f a s)"
  by (auto simp: set_stream_def dest!: set_update_subset_insert [THEN subsetD])

lemma fan_ok_bounded: "fan_ok f \<Longrightarrow> bounded f"
  by (simp add: fan_ok_def)

lemma enqueue_same: "same_streams f (enqueue f a x)"
  by (auto simp: same_streams_def enqueue_def Let_def heap_set_stream)

lemma enqueue_ok:
  assumes "fan_ok f" "room (fn_heap f ! a)"
  shows "fan_ok (enqueue f a x)"
proof (rule fan_ok_same [OF assms(1) enqueue_same])
  show "bounded (enqueue f a x)"
    unfolding enqueue_def Let_def
    by (rule set_stream_bounded [OF fan_ok_bounded [OF assms(1)]]) (use assms(2) in \<open>simp add: room_def\<close>)
qed

lemma pump_same: "same_streams f (snd (pump f a))"
  by (auto simp: same_streams_def pump_def Let_def heap_set_stream split: list.splits)

lemma pump_ok:
  assumes "fan_ok f"
  shows "fan_ok (snd (pump f a))"
proof (rule fan_ok_same [OF assms pump_same])
  show "bounded (snd (pump f a))"
  proof (cases "a < length (fn_heap f) \<and> st_ch (fn_heap f ! a) \<noteq> []")
    case True
    then obtain x xs where ch: "st_ch (fn_heap f ! a) = x # xs" by (cases "st_ch (fn_heap f ! a)") auto
    have "length (st_ch (fn_heap f ! a)) \<le> seamBuffer"
      using True fan_ok_bounded [OF assms] nth_mem by blast
    then have "bounded (set_stream f a ((fn_heap f ! a)\<lparr>st_ch := xs\<rparr>))"
      by (intro set_stream_bounded fan_ok_bounded [OF assms]) (simp add: ch)
    then show ?thesis using True ch by (simp add: pump_def Let_def)
  next
    case False
    then have "snd (pump f a) = f" by (auto simp: pump_def Let_def)
    then show ?thesis using fan_ok_bounded [OF assms] by simp
  qed
qed

lemma close_done_sel [simp]:
  "fn_streams (close_done f a) = fn_streams f" "fn_k (close_done f a) = fn_k f"
  "fn_lastPrimary (close_done f a) = fn_lastPrimary f"
  "fn_misHomeRehomedAt (close_done f a) = fn_misHomeRehomedAt f"
  "length (fn_heap (close_done f a)) = length (fn_heap f)"
  by (simp_all add: close_done_def Let_def)

lemma close_done_commute:
  "(close_done f a)\<lparr>fn_streams := g\<rparr> = close_done (f\<lparr>fn_streams := g\<rparr>) a"
  by (simp add: close_done_def Let_def set_stream_def)

text \<open>Closing the stream of a key and dropping the key: the stream was open, the others stay so.\<close>

lemma fan_ok_forget:
  assumes ok: "fan_ok f" and c: "map_of (fn_streams f) c = Some a"
  shows "fan_ok (close_done (f\<lparr>fn_streams := AList.delete c (fn_streams f)\<rparr>) a)"
proof -
  have cur: "current f c a" using ok map_of_SomeD [OF c] by (auto simp: fan_ok_def)
  have other: "b \<noteq> a" if "(d, b) \<in> set (AList.delete c (fn_streams f))" for d b
  proof -
    have "d \<noteq> c" using that by (auto simp: AList.delete_eq)
    moreover have "current f d b" using ok in_delete [OF that] by (auto simp: fan_ok_def)
    ultimately show ?thesis using cur by (auto simp: current_def)
  qed
  let ?f = "close_done (f\<lparr>fn_streams := AList.delete c (fn_streams f)\<rparr>) a"
  have a: "\<not> st_done (fn_heap f ! a)" "a < length (fn_heap f)" using cur by (auto simp: current_def)
  then have heap: "fn_heap ?f = (fn_heap f)[a := (fn_heap f ! a)\<lparr>st_done := True\<rparr>]"
    by (simp add: close_done_def Let_def set_stream_def)
  have "length (st_ch (fn_heap f ! a)) \<le> seamBuffer"
    using a fan_ok_bounded [OF ok] nth_mem by blast
  then have "bounded ?f" using fan_ok_bounded [OF ok] unfolding heap
    by (auto dest!: set_update_subset_insert [THEN subsetD])
  moreover have "current ?f d b" if "(d, b) \<in> set (fn_streams ?f)" for d b
  proof -
    have "(d, b) \<in> set (AList.delete c (fn_streams f))" using that by simp
    moreover from this have "current f d b" using ok in_delete by (fastforce simp: fan_ok_def)
    ultimately show ?thesis using other [of d b] by (simp add: current_def heap)
  qed
  moreover have "map_ok (fn_streams ?f)" using ok by (simp add: fan_ok_def distinct_delete)
  moreover have "\<not> fn_panic ?f" using a ok by (simp add: close_done_def Let_def fan_ok_def)
  ultimately show ?thesis by (auto simp: fan_ok_def)
qed

lemma evictCoverer_ok: "fan_ok f \<Longrightarrow> fan_ok (evictCoverer f c a)"
proof -
  have keep: "fan_ok (scheduleCoverageRecompute g)" if "fan_ok g" for g
    using that by (simp add: fan_ok_def scheduleCoverageRecompute_def current_def)
  assume "fan_ok f"
  then show ?thesis by (auto simp: evictCoverer_def intro!: keep fan_ok_forget)
qed

lemma stop_loop_ok:
  assumes "fan_ok f" "map_ok rest" "set rest \<subseteq> set (fn_streams f)"
  shows "fan_ok (stop_loop rest f)"
  using assms
proof (induction rest f rule: stop_loop.induct)
  case (2 c a rest f)
  then have c: "map_of (fn_streams f) c = Some a" by (auto simp: fan_ok_def)
  let ?f = "(close_done f a)\<lparr>fn_streams := AList.delete c (fn_streams (close_done f a))\<rparr>"
  have "fan_ok ?f" using fan_ok_forget [OF "2.prems"(1) c] by (simp add: close_done_commute)
  moreover have "set rest \<subseteq> set (fn_streams ?f)"
    using "2.prems" by (auto simp: AList.delete_eq) (metis image_eqI fst_conv)+
  ultimately show ?case using "2.IH" [OF refl] "2.prems" by (simp add: Let_def)
qed simp

lemma connectCoverer_ok:
  assumes "fan_ok f"
  shows "fan_ok (snd (connectCoverer f c ep))"
proof -
  define g where "g = (case map_of (fn_streams f) c of None \<Rightarrow> f | Some old \<Rightarrow> close_done f old)"
  have dropped: "fan_ok (g\<lparr>fn_streams := AList.delete c (fn_streams f)\<rparr>)" and streams: "fn_streams g = fn_streams f"
  proof -
    show "fn_streams g = fn_streams f" by (simp add: g_def split: option.splits)
    show "fan_ok (g\<lparr>fn_streams := AList.delete c (fn_streams f)\<rparr>)"
    proof (cases "map_of (fn_streams f) c")
      case None
      then have "AList.delete c (fn_streams f) = fn_streams f"
        by (simp add: map_of_eq_None_iff)
      then show ?thesis using None assms by (simp add: g_def)
    next
      case (Some a)
      then show ?thesis using fan_ok_forget [OF assms Some] by (simp add: g_def close_done_commute)
    qed
  qed
  have up: "x \<in> set (AList.update c a al) \<Longrightarrow> map_ok al \<Longrightarrow> x = (c, a) \<or> x \<in> set (AList.delete c al)" for x a al
    by (induction al) (auto split: if_splits simp: image_iff)
  have "map_ok (fn_streams f)" using assms by (simp add: fan_ok_def)
  then show ?thesis using dropped
    unfolding fan_ok_def connectCoverer_def g_def [symmetric]
    by (auto simp: Let_def scheduleCoverageRecompute_def streams distinct_update current_def nth_append
        dest!: up)
qed

lemma select_send_ok: "fan_ok f \<Longrightarrow> fan_ok (snd (select_send pick f a x))"
  by (auto simp: select_send_def Let_def intro: enqueue_ok)

lemma offer_all_same: "same_streams f (offer_all f x as)"
proof (induction f x as rule: offer_all.induct)
  case (2 f x a as)
  let ?g = "if room (fn_heap f ! a) \<and> \<not> st_done (fn_heap f ! a) then enqueue f a x else f"
  have "same_streams f ?g" by (simp add: enqueue_same)
  then show ?case using "2.IH" same_streams_trans by (simp only: offer_all.simps)
qed simp

lemma offer_all_ok: "fan_ok f \<Longrightarrow> fan_ok (offer_all f x as)"
  by (induction f x as rule: offer_all.induct) (simp_all add: enqueue_ok)

lemma enqueue_sel [simp]:
  "fn_lastPrimary (enqueue f a x) = fn_lastPrimary f"
  "fn_misHomeRehomedAt (enqueue f a x) = fn_misHomeRehomedAt f"
  by (simp_all add: enqueue_def Let_def)

lemma offer_all_sel [simp]:
  "fn_lastPrimary (offer_all f x as) = fn_lastPrimary f"
  "fn_misHomeRehomedAt (offer_all f x as) = fn_misHomeRehomedAt f"
  by (induction f x as rule: offer_all.induct) auto

lemma notePrimary_same: "same_streams f (notePrimary f e p)"
  by (simp add: same_streams_def notePrimary_def)

lemma notePrimary_heap [simp]: "fn_heap (notePrimary f e p) = fn_heap f"
  by (simp add: notePrimary_def)

lemma notePrimary_ok: "fan_ok f \<Longrightarrow> fan_ok (notePrimary f e p)"
  by (rule fan_ok_same [OF _ notePrimary_same]) (simp_all add: fan_ok_bounded)

lemma PushRehomeAll_same: "same_streams f (PushRehomeAll f e asg)"
  by (simp add: PushRehomeAll_def emitToAllCovers_def offer_all_same)

lemma PushRehomeAll_ok: "fan_ok f \<Longrightarrow> fan_ok (PushRehomeAll f e asg)"
  by (simp add: PushRehomeAll_def emitToAllCovers_def offer_all_ok)

lemma PushRehomeAll_sel [simp]:
  "fn_lastPrimary (PushRehomeAll f e asg) = fn_lastPrimary f"
  "fn_misHomeRehomedAt (PushRehomeAll f e asg) = fn_misHomeRehomedAt f"
  by (simp_all add: PushRehomeAll_def emitToAllCovers_def)

lemma rehome_edge_same: "same_streams (snd nf) (snd (rehome_edge e nf))"
  by (auto simp: rehome_edge_def Let_def notePrimary_same split: prod.splits option.splits
      intro: same_streams_trans [OF notePrimary_same PushRehomeAll_same])

lemma rehome_edge_ok: "fan_ok (snd nf) \<Longrightarrow> fan_ok (snd (rehome_edge e nf))"
  by (auto simp: rehome_edge_def Let_def notePrimary_ok PushRehomeAll_ok split: prod.splits option.splits)

lemma fold_rehome_same: "same_streams (snd nf) (snd (fold rehome_edge es nf))"
proof (induction es arbitrary: nf)
  case (Cons e es)
  show ?case using same_streams_trans [OF rehome_edge_same Cons.IH] by simp
qed simp

lemma fold_rehome_ok: "fan_ok (snd nf) \<Longrightarrow> fan_ok (snd (fold rehome_edge es nf))"
proof (induction es arbitrary: nf)
  case (Cons e es)
  show ?case using Cons.IH [OF rehome_edge_ok [OF Cons.prems]] by simp
qed simp

lemma rehomeMisHome_ok:
  assumes "fan_ok f"
  shows "fan_ok (snd (rehomeMisHome f e c now))"
proof -
  have "fan_ok (f\<lparr>fn_misHomeRehomedAt := x, fn_lastPrimary := y\<rparr>)" for x y
    by (rule fan_ok_same [OF assms]) (simp_all add: same_streams_def fan_ok_bounded [OF assms])
  then show ?thesis using assms
    by (auto simp: rehomeMisHome_def Let_def PushRehomeAll_ok split: option.splits)
qed

lemma block_send_ok:
  assumes ok: "fan_ok f" and a: "a < length (fn_heap f)"
  shows "fan_ok (block_send rel f a x)"
proof -
  have "room (fn_heap (snd (pump f a)) ! a)" if full: "\<not> room (fn_heap f ! a)"
  proof -
    have "length (st_ch (fn_heap f ! a)) \<le> seamBuffer" using a fan_ok_bounded [OF ok] nth_mem by blast
    then have len: "length (st_ch (fn_heap f ! a)) = seamBuffer" using full by (simp add: room_def)
    then obtain y ys where ch: "st_ch (fn_heap f ! a) = y # ys"
      by (cases "st_ch (fn_heap f ! a)") (auto simp: seamBuffer_def)
    then have "length ys < seamBuffer" using len by simp
    then show ?thesis using a ch by (simp add: pump_def Let_def room_def heap_set_stream)
  qed
  then show ?thesis using ok
    by (auto simp: block_send_def select_send_def Let_def
        intro!: enqueue_ok evictCoverer_ok pump_ok split: if_splits)
qed

lemma emitCoverage_ok: "fan_ok f \<Longrightarrow> fan_ok (emitCoverage rel f c es)"
proof -
  assume ok: "fan_ok f"
  have "a < length (fn_heap f)" if "map_of (fn_streams f) c = Some a" for a
    using ok map_of_SomeD [OF that] by (auto simp: fan_ok_def current_def)
  then show ?thesis using ok by (auto simp: emitCoverage_def block_send_ok split: option.splits)
qed

lemma fan_step_ok: "fan_ok f \<Longrightarrow> fan_ok (fan_step op f)"
proof (induction op)
  case StopAll
  then show ?case by (simp add: Stop_def stop_loop_ok fan_ok_def [of f])
next
  case (RehomeChanged es)
  then show ?case by (simp add: rehomeChangedPrimaries_def fold_rehome_ok)
next
  case (Recompute rel es)
  have "fan_ok (fold (\<lambda>c f. emitCoverage (rel c) f c (CoveredEdges c es ids (fn_k f))) cs g)"
    if "fan_ok g" for ids cs g
    using that by (induction cs arbitrary: g) (simp_all add: emitCoverage_ok)
  then show ?case using Recompute
    by (simp add: recomputeCoverage_def Let_def rehomeChangedPrimaries_def fold_rehome_ok)
qed (simp_all add: connectCoverer_ok evictCoverer_ok pump_ok select_send_ok notePrimary_ok rehomeMisHome_ok
      emitToAllCovers_def offer_all_ok)

lemma run_fan_ok: "fan_ok (run_fan ops (newDesiredFan k))"
proof -
  have "fan_ok (newDesiredFan k)" by (simp add: fan_ok_def newDesiredFan_def)
  then have "fan_ok f \<Longrightarrow> fan_ok (fold fan_step ops f)" for f
    by (induction ops arbitrary: f) (simp_all add: fan_step_ok)
  then show ?thesis using \<open>fan_ok (newDesiredFan k)\<close> by (simp add: run_fan_def)
qed

section \<open>Routing\<close>

lemma set_connected [simp]: "set (connectedCovererIDs f) = fst ` set (fn_streams f)"
  by (simp add: connectedCovererIDs_def)

lemma connected_Nil [simp]: "connectedCovererIDs f = [] \<longleftrightarrow> fn_streams f = []"
  unfolding connectedCovererIDs_def by (metis length_0_conv length_map length_sort)

lemma covers_connected: "set (Coverers e (connectedCovererIDs f) k) \<subseteq> fst ` set (fn_streams f)"
  using hrw.sel_subset [of e "connectedCovererIDs f" k] by simp

lemma connected_stream: "c \<in> fst ` set (fn_streams f) \<Longrightarrow> \<exists>a. map_of (fn_streams f) c = Some a"
  by (metis map_of_eq_None_iff not_None_eq)

lemma streamForIDs_connected:
  "set cs \<subseteq> fst ` set (fn_streams f) \<Longrightarrow>
     streamForIDs f cs = (if cs = [] then None else map_of (fn_streams f) (hd cs))"
proof (cases cs)
  case (Cons c cs')
  assume "set cs \<subseteq> fst ` set (fn_streams f)"
  then obtain a where "map_of (fn_streams f) c = Some a" using Cons connected_stream by fastforce
  then show ?thesis using Cons by simp
qed simp

lemma streamFor_eq:
  "streamFor f e = (if Coverers e (connectedCovererIDs f) (fn_k f) = [] then None
     else map_of (fn_streams f) (hd (Coverers e (connectedCovererIDs f) (fn_k f))))"
  unfolding streamFor_def by (rule streamForIDs_connected [OF covers_connected])

lemma assign_loop_connected:
  assumes "set cs \<subseteq> fst ` set (fn_streams f)"
  shows "map cv_ControllerID (assign_loop f i cs) = cs"
    and "map cv_Primary (assign_loop f i cs) = map (\<lambda>j. j = 0) [i..<i + length cs]"
    and "map (\<lambda>c. Some (cv_GRPCEndpoint c)) (assign_loop f i cs) =
      map (\<lambda>c. map_option (\<lambda>a. st_endpoint (fn_heap f ! a)) (map_of (fn_streams f) c)) cs"
proof -
  have "map cv_ControllerID (assign_loop f i cs) = cs
    \<and> map cv_Primary (assign_loop f i cs) = map (\<lambda>j. j = 0) [i..<i + length cs]
    \<and> map (\<lambda>c. Some (cv_GRPCEndpoint c)) (assign_loop f i cs) =
      map (\<lambda>c. map_option (\<lambda>a. st_endpoint (fn_heap f ! a)) (map_of (fn_streams f) c)) cs"
    using assms
  proof (induction cs arbitrary: i)
    case (Cons c cs)
    then obtain a where a: "map_of (fn_streams f) c = Some a" using connected_stream by fastforce
    have "[i..<i + length (c # cs)] = i # [Suc i..<Suc i + length cs]" by (subst upt_conv_Cons) simp_all
    then show ?case using Cons a by (simp del: upt_Suc)
  qed simp
  then show "map cv_ControllerID (assign_loop f i cs) = cs"
    "map cv_Primary (assign_loop f i cs) = map (\<lambda>j. j = 0) [i..<i + length cs]"
    "map (\<lambda>c. Some (cv_GRPCEndpoint c)) (assign_loop f i cs) =
      map (\<lambda>c. map_option (\<lambda>a. st_endpoint (fn_heap f ! a)) (map_of (fn_streams f) c)) cs"
    by blast+
qed

lemma assignmentFor_None: "assignmentFor f e = None \<longleftrightarrow> fn_k f \<le> 0 \<or> fn_streams f = []"
proof -
  let ?cs = "Coverers e (connectedCovererIDs f) (fn_k f)"
  have "map cv_ControllerID (assign_loop f 0 ?cs) = ?cs"
    by (rule assign_loop_connected(1) [OF covers_connected])
  then have "assign_loop f 0 ?cs = [] \<longleftrightarrow> ?cs = []" by (metis list.map_disc_iff)
  then show ?thesis using hrw.sel_empty_iff [of e "connectedCovererIDs f" "fn_k f"]
    by (simp add: assignmentFor_def Let_def)
qed

lemma assignmentFor_Some:
  assumes "assignmentFor f e = Some asg"
  shows "as_EdgeID asg = e"
    and "as_Coverers asg = assign_loop f 0 (Coverers e (connectedCovererIDs f) (fn_k f))"
    and "map cv_ControllerID (as_Coverers asg) = Coverers e (connectedCovererIDs f) (fn_k f)"
    and "as_Coverers asg \<noteq> []"
    and "primary_of asg = hd (Coverers e (connectedCovererIDs f) (fn_k f))"
proof -
  let ?cs = "Coverers e (connectedCovererIDs f) (fn_k f)"
  show asg: "as_EdgeID asg = e" "as_Coverers asg = assign_loop f 0 ?cs" "as_Coverers asg \<noteq> []"
    using assms by (auto simp: assignmentFor_def Let_def split: if_splits)
  show ids: "map cv_ControllerID (as_Coverers asg) = ?cs"
    unfolding asg by (rule assign_loop_connected(1) [OF covers_connected])
  show "primary_of asg = hd ?cs" using asg(3) by (simp add: primary_of_def hd_map flip: ids)
qed

lemma fan_step_k: "fn_k (fan_step op f) = fn_k f"
proof (induction op)
  case (Connect c ep)
  then show ?case by (auto simp: connectCoverer_def Let_def scheduleCoverageRecompute_def split: option.splits)
next
  case (Evict c a)
  then show ?case by (simp add: evictCoverer_def scheduleCoverageRecompute_def)
next
  case StopAll
  have "fn_k (stop_loop xs f) = fn_k f" for xs
    by (induction xs f rule: stop_loop.induct) (simp_all add: Let_def)
  then show ?case by (simp add: Stop_def)
next
  case (Pump a)
  then show ?case using pump_same [of f a] by (simp add: same_streams_def)
next
  case (Send pick a x)
  then show ?case using enqueue_same [of f a x] by (simp add: select_send_def Let_def same_streams_def)
next
  case (OfferAll e d)
  then show ?case using offer_all_same [of f] by (simp add: emitToAllCovers_def same_streams_def)
next
  case (Note e c)
  then show ?case by (simp add: notePrimary_def)
next
  case (RehomeChanged es)
  then show ?case using fold_rehome_same [of "(0, f)" es] by (simp add: rehomeChangedPrimaries_def same_streams_def)
next
  case (MisHome e c now)
  have "fn_k (PushRehomeAll g e asg) = fn_k g" for g asg
    using PushRehomeAll_same [of g e asg] by (simp add: same_streams_def)
  then show ?case by (auto simp: rehomeMisHome_def Let_def split: option.splits)
next
  case (Recompute rel es)
  have send: "fn_k (emitCoverage r g c xs) = fn_k g" for r g c xs
  proof -
    have "fn_k (enqueue h a x) = fn_k h" "fn_k (snd (pump h a)) = fn_k h" for h a x
      using enqueue_same [of h a x] pump_same [of h a] by (simp_all add: same_streams_def)
    then show ?thesis
      by (auto simp: emitCoverage_def block_send_def select_send_def Let_def evictCoverer_def
          scheduleCoverageRecompute_def split: option.splits if_splits)
  qed
  have "fn_k (fold (\<lambda>c f. emitCoverage (rel c) f c (CoveredEdges c es ids (fn_k f))) cs g) = fn_k g" for ids cs g
    by (induction cs arbitrary: g) (simp_all add: send)
  then show ?case using fold_rehome_same
    by (auto simp: recomputeCoverage_def Let_def rehomeChangedPrimaries_def same_streams_def)
qed

lemma run_fan_k: "fn_k (run_fan ops f) = fn_k f"
  unfolding run_fan_def by (induction ops arbitrary: f) (simp_all add: fan_step_k)

text \<open>
  C32: Whatever connects, reconnects, leaves, sends and re-homes happened before: no channel was closed twice, every
  stream of the map exists, belongs to its key and is open, and no buffer holds more than its capacity.
\<close>

theorem fan_streams_stay_open: "fan_ok (run_fan ops (newDesiredFan k))"
  by (rule run_fan_ok)

text \<open>
  C33: The coverer an agent is told to home to is the one its directives are sent through: the assignment lists
  the top-k connected coverers in rank order with their endpoints, marks exactly the first as primary, and
  the stream of an edge is the primary's. There is no assignment exactly when nothing can be sent.
\<close>

theorem assignment_matches_routing:
  assumes f: "f = run_fan ops (newDesiredFan k)" and "0 < k" "fn_streams f \<noteq> []"
  shows "\<exists>asg. assignmentFor f e = Some asg \<and> IsSubscribed f e
    \<and> map cv_ControllerID (as_Coverers asg) = Coverers e (connectedCovererIDs f) k
    \<and> map cv_Primary (as_Coverers asg) = True # replicate (length (as_Coverers asg) - 1) False
    \<and> map (\<lambda>c. Some (cv_GRPCEndpoint c)) (as_Coverers asg) =
        map (\<lambda>c. map_option (\<lambda>a. st_endpoint (fn_heap f ! a)) (map_of (fn_streams f) c))
          (Coverers e (connectedCovererIDs f) k)
    \<and> streamFor f e = map_of (fn_streams f) (primary_of asg)"
proof -
  have k: "fn_k f = k" by (simp add: f run_fan_k newDesiredFan_def)
  then obtain asg where asg: "assignmentFor f e = Some asg"
    using assms assignmentFor_None [of f e] by fastforce
  let ?cs = "Coverers e (connectedCovererIDs f) k"
  note sel = assignmentFor_Some [OF asg, unfolded k]
  have ne: "?cs \<noteq> []" using sel(3,4) by (metis list.map_disc_iff)
  then obtain n where n: "length ?cs = Suc n" by (cases ?cs) auto
  have prim: "map cv_Primary (as_Coverers asg) = map (\<lambda>j. j = 0) [0..<Suc n]"
    using assign_loop_connected(2) [OF covers_connected, of f 0 e k] sel(2) n by simp
  also have "\<dots> = True # map (\<lambda>j. False) [0..<n]"
    by (simp add: map_upt_Suc del: upt_Suc)
  also have "\<dots> = True # replicate n False" by (simp add: map_replicate_const)
  finally have prim: "map cv_Primary (as_Coverers asg) = True # replicate n False" .
  have len: "length (as_Coverers asg) = Suc n" using sel(3) n by (metis length_map)
  have stream: "streamFor f e = map_of (fn_streams f) (primary_of asg)"
    using ne sel(5) by (simp add: streamFor_eq k)
  have "hd ?cs \<in> fst ` set (fn_streams f)" using covers_connected [of e f k] ne hd_in_set by blast
  then have "IsSubscribed f e"
    using connected_stream [of "hd ?cs" f] stream sel(5) by (auto simp: IsSubscribed_def)
  then show ?thesis
    using asg sel(2,3) prim len stream assign_loop_connected(3) [OF covers_connected, of f 0 e k] by auto
qed

section \<open>Re-homing\<close>

abbreviation ch_of :: "fan \<Rightarrow> nat \<Rightarrow> assignment list" where
  "ch_of f a \<equiv> st_ch (fn_heap f ! a)"

text \<open>The agent of \<open>e\<close> was told another primary than the current one.\<close>

definition moved :: "fan \<Rightarrow> edge_id \<Rightarrow> bool" where
  "moved f e = (case (fn_lastPrimary f e, assignmentFor f e) of
     (Some p, Some asg) \<Rightarrow> primary_of asg \<noteq> p | _ \<Rightarrow> False)"

definition serves :: "fan \<Rightarrow> nat \<Rightarrow> edge_id \<Rightarrow> bool" where
  "serves f a e \<longleftrightarrow> (\<exists>c \<in> set (Coverers e (connectedCovererIDs f) (fn_k f)). map_of (fn_streams f) c = Some a)"

definition rehome_msg :: "fan \<Rightarrow> edge_id \<Rightarrow> assignment" where
  "rehome_msg f e = EDGE_DIRECTIVE e (REHOME (the (assignmentFor f e)))"

lemma enqueue_ch:
  "b < length (fn_heap f) \<Longrightarrow> ch_of (enqueue f a x) b = (if b = a then ch_of f a @ [x] else ch_of f b)"
  by (simp add: enqueue_def Let_def heap_set_stream)

lemma offer_all_ch:
  assumes "distinct as" "\<forall>a \<in> set as. a < length (fn_heap f) \<and> \<not> st_done (fn_heap f ! a) \<and> room (fn_heap f ! a)"
    and "b < length (fn_heap f)"
  shows "ch_of (offer_all f x as) b = (if b \<in> set as then ch_of f b @ [x] else ch_of f b)"
  using assms
proof (induction f x as rule: offer_all.induct)
  case (2 f x a as)
  let ?g = "enqueue f a x"
  have same: "same_streams f ?g" by (rule enqueue_same)
  have g: "\<forall>c \<in> set as. c < length (fn_heap ?g) \<and> \<not> st_done (fn_heap ?g ! c) \<and> room (fn_heap ?g ! c)"
    using "2.prems" same by (auto simp: same_streams_def room_def enqueue_ch)
  have b: "b < length (fn_heap ?g)" using "2.prems" same by (simp add: same_streams_def)
  have if_g: "(if room (fn_heap f ! a) \<and> \<not> st_done (fn_heap f ! a) then ?g else f) = ?g" using "2.prems" by simp
  have "ch_of (offer_all ?g x as) b = (if b \<in> set as then ch_of ?g b @ [x] else ch_of ?g b)"
    using "2.IH" if_g "2.prems"(1) g b by simp
  then show ?case using if_g "2.prems" by (auto simp: enqueue_ch)
qed simp

lemma addresses_ok:
  fixes f e
  assumes "fan_ok f"
  defines "as \<equiv> List.map_filter (map_of (fn_streams f)) (Coverers e (connectedCovererIDs f) (fn_k f))"
  shows "distinct as" "a \<in> set as \<longleftrightarrow> serves f a e"
    "\<forall>a \<in> set as. a < length (fn_heap f) \<and> \<not> st_done (fn_heap f ! a)"
proof -
  have cur: "current f c a" if "map_of (fn_streams f) c = Some a" for c a
    using assms(1) map_of_SomeD [OF that] by (auto simp: fan_ok_def)
  show "a \<in> set as \<longleftrightarrow> serves f a e" by (auto simp: as_def map_filter_def serves_def image_iff)
  show "\<forall>a \<in> set as. a < length (fn_heap f) \<and> \<not> st_done (fn_heap f ! a)"
    using cur by (auto simp: as_def map_filter_def current_def)
  have "distinct (connectedCovererIDs f)" using assms(1) by (simp add: connectedCovererIDs_def fan_ok_def)
  then have d: "distinct (Coverers e (connectedCovererIDs f) (fn_k f))" by (rule hrw.sel_distinct)
  have inj: "c = d" if "map_of (fn_streams f) c = Some a" "map_of (fn_streams f) d = Some a" for c d a
    using cur [OF that(1)] cur [OF that(2)] by (simp add: current_def)
  from d show "distinct as"
    unfolding as_def by (auto simp: map_filter_def distinct_map inj_on_def dest: inj)
qed

lemma same_streams_assignment:
  assumes ok: "fan_ok f" and same: "same_streams f f'"
  shows "assignmentFor f' e = assignmentFor f e" "serves f' a e = serves f a e"
proof -
  have conn: "connectedCovererIDs f' = connectedCovererIDs f" "fn_k f' = fn_k f" "fn_streams f' = fn_streams f"
    using same by (simp_all add: same_streams_def connectedCovererIDs_def)
  have "st_endpoint (fn_heap f' ! a) = st_endpoint (fn_heap f ! a)" if "map_of (fn_streams f) c = Some a" for c a
    using ok map_of_SomeD [OF that] same by (auto simp: fan_ok_def current_def same_streams_def)
  then have loop: "assign_loop f' i cs = assign_loop f i cs" for i cs
    using conn by (induction cs arbitrary: i) (auto split: option.splits)
  show "assignmentFor f' e = assignmentFor f e" unfolding assignmentFor_def conn loop ..
  show "serves f' a e = serves f a e" by (simp add: serves_def conn)
qed

text \<open>One edge: the count, the baseline and the channels.\<close>

lemma rehome_edge_baseline:
  "fn_lastPrimary (snd (rehome_edge e (n, f))) =
     (case assignmentFor f e of None \<Rightarrow> fn_lastPrimary f | Some asg \<Rightarrow> (fn_lastPrimary f)(e \<mapsto> primary_of asg))"
  "fst (rehome_edge e (n, f)) = (if moved f e then Suc n else n)"
  by (auto simp: rehome_edge_def Let_def moved_def notePrimary_def split: option.splits)

lemma rehome_edge_ch:
  assumes ok: "fan_ok f" and a: "a < length (fn_heap f)"
    and room: "\<forall>s \<in> set (fn_heap f). length (st_ch s) < seamBuffer"
  shows "ch_of (snd (rehome_edge e (n, f))) a =
    ch_of f a @ (if moved f e \<and> serves f a e then [rehome_msg f e] else [])"
proof (cases "moved f e")
  case True
  then obtain p asg where m: "fn_lastPrimary f e = Some p" "assignmentFor f e = Some asg" "primary_of asg \<noteq> p"
    by (auto simp: moved_def split: option.splits)
  let ?g = "notePrimary f e (primary_of asg)"
  have g: "fan_ok ?g" by (rule notePrimary_ok [OF ok])
  have "\<forall>b \<in> set (List.map_filter (map_of (fn_streams ?g)) (Coverers e (connectedCovererIDs ?g) (fn_k ?g))).
      b < length (fn_heap ?g) \<and> \<not> st_done (fn_heap ?g ! b) \<and> room (fn_heap ?g ! b)"
    using addresses_ok(3) [OF g, of e] room by (auto simp: room_def)
  then have "ch_of (PushRehomeAll ?g e asg) a = (if serves ?g a e
      then ch_of ?g a @ [EDGE_DIRECTIVE e (REHOME asg)] else ch_of ?g a)"
    unfolding PushRehomeAll_def emitToAllCovers_def
    using offer_all_ch [OF addresses_ok(1) [OF g, of e]] a addresses_ok(2) [OF g, of _ e] by simp
  moreover have "serves ?g a e = serves f a e" by (rule same_streams_assignment(2) [OF ok notePrimary_same])
  ultimately show ?thesis using m True by (simp add: rehome_edge_def Let_def rehome_msg_def)
next
  case False
  then show ?thesis by (auto simp: rehome_edge_def Let_def moved_def split: option.splits)
qed

lemma rehome_edge_moved:
  assumes ok: "fan_ok f" and "e' \<noteq> e"
  shows "moved (snd (rehome_edge e (n, f))) e' = moved f e'"
    and "rehome_msg (snd (rehome_edge e (n, f))) e' = rehome_msg f e'"
  using same_streams_assignment(1) [OF ok rehome_edge_same [of "(n, f)" e, simplified]] assms(2)
  by (auto simp: moved_def rehome_msg_def rehome_edge_baseline split: option.splits)

lemma fold_rehome_baseline:
  assumes "fan_ok f" "distinct es"
  shows "fn_lastPrimary (snd (fold rehome_edge es (n, f))) e =
      (if e \<in> set es \<and> assignmentFor f e \<noteq> None then map_option primary_of (assignmentFor f e) else fn_lastPrimary f e)
    \<and> fst (fold rehome_edge es (n, f)) = n + length (filter (moved f) es)"
  using assms
proof (induction es arbitrary: n f)
  case (Cons e' es)
  obtain m g where mg: "rehome_edge e' (n, f) = (m, g)" by (cases "rehome_edge e' (n, f)")
  have g: "fan_ok g" using rehome_edge_ok [of "(n, f)" e'] Cons.prems mg by simp
  have assign: "assignmentFor g d = assignmentFor f d" for d
    using same_streams_assignment(1) [OF Cons.prems(1) rehome_edge_same [of "(n, f)" e', simplified]] mg by simp
  have base: "fn_lastPrimary g =
      (case assignmentFor f e' of None \<Rightarrow> fn_lastPrimary f | Some asg \<Rightarrow> (fn_lastPrimary f)(e' \<mapsto> primary_of asg))"
    and m: "m = (if moved f e' then Suc n else n)"
    using rehome_edge_baseline [of e' n f] mg by simp_all
  have mv: "moved g d = moved f d" if "d \<in> set es" for d
    using rehome_edge_moved(1) [OF Cons.prems(1), of d e' n] mg Cons.prems(2) that by fastforce
  have flt: "filter (moved g) es = filter (moved f) es" by (intro filter_cong refl mv)
  have IH: "fn_lastPrimary (snd (fold rehome_edge es (m, g))) e =
      (if e \<in> set es \<and> assignmentFor f e \<noteq> None then map_option primary_of (assignmentFor f e) else fn_lastPrimary g e)"
    "fst (fold rehome_edge es (m, g)) = m + length (filter (moved f) es)"
    using Cons.IH [OF g, of m, unfolded assign flt] Cons.prems(2) by simp_all
  show ?case using IH Cons.prems(2) mg m base by (cases "assignmentFor f e'") auto
qed simp

lemma fold_rehome_ch:
  assumes "fan_ok f" "distinct es" "a < length (fn_heap f)"
    and "\<forall>s \<in> set (fn_heap f). length (st_ch s) + length es \<le> seamBuffer"
  shows "ch_of (snd (fold rehome_edge es (n, f))) a =
    ch_of f a @ map (rehome_msg f) (filter (\<lambda>e. moved f e \<and> serves f a e) es)"
  using assms
proof (induction es arbitrary: n f)
  case (Cons e es)
  obtain m g where mg: "rehome_edge e (n, f) = (m, g)" by (cases "rehome_edge e (n, f)")
  have same: "same_streams f g" using rehome_edge_same [of "(n, f)" e] mg by simp
  have g: "fan_ok g" using rehome_edge_ok [of "(n, f)" e] Cons.prems mg by simp
  have room: "\<forall>s \<in> set (fn_heap f). length (st_ch s) < seamBuffer" using Cons.prems(4) by fastforce
  have ch: "ch_of g b = ch_of f b @ (if moved f e \<and> serves f b e then [rehome_msg f e] else [])"
    if "b < length (fn_heap f)" for b
    using rehome_edge_ch [OF Cons.prems(1) that room, of e n] mg by simp
  have "\<forall>s \<in> set (fn_heap g). length (st_ch s) + length es \<le> seamBuffer"
  proof
    fix s assume "s \<in> set (fn_heap g)"
    then obtain b where b: "b < length (fn_heap f)" "s = fn_heap g ! b"
      using same by (auto simp: in_set_conv_nth same_streams_def)
    have "length (ch_of f b) + length (e # es) \<le> seamBuffer" using Cons.prems(4) b(1) nth_mem by blast
    then show "length (st_ch s) + length es \<le> seamBuffer" using ch [OF b(1)] b(2) by simp
  qed
  moreover have mv: "moved g d = moved f d" if "d \<in> set es" for d
    using rehome_edge_moved(1) [OF Cons.prems(1), of d e n] mg Cons.prems(2) that by fastforce
  moreover have "filter (\<lambda>d. moved g d \<and> serves g a d) es = filter (\<lambda>d. moved f d \<and> serves f a d) es"
    using mv same_streams_assignment(2) [OF Cons.prems(1) same] by (intro filter_cong refl) simp
  moreover have msg: "rehome_msg g d = rehome_msg f d" if "d \<in> set es" for d
    using rehome_edge_moved(2) [OF Cons.prems(1), of d e n] mg Cons.prems(2) that by fastforce
  moreover have "map (rehome_msg g) ds = map (rehome_msg f) ds" if "set ds \<subseteq> set es" for ds
    using msg that by (intro map_cong refl) blast
  ultimately have "ch_of (snd (fold rehome_edge es (m, g))) a =
      ch_of g a @ map (rehome_msg f) (filter (\<lambda>d. moved f d \<and> serves f a d) es)"
    using Cons.IH [OF g, of m] Cons.prems same by (auto simp: same_streams_def)
  then show ?case using ch [OF Cons.prems(3)] mg by simp
qed simp

lemma block_send_room:
  "room (fn_heap f ! a) \<Longrightarrow> \<not> st_done (fn_heap f ! a) \<Longrightarrow> block_send rel f a x = enqueue f a x"
  by (simp add: block_send_def select_send_def)

text \<open>The loop over the connected coverers, with room in the buffers: one COVERAGE each.\<close>

lemma fold_coverage:
  fixes ids cs :: "coverer_id list" and es :: "edge_id list" and rel :: "coverer_id \<Rightarrow> bool"
  defines "step \<equiv> \<lambda>c f. emitCoverage (rel c) f c (CoveredEdges c es ids (fn_k f))"
  assumes "fan_ok f" "distinct cs" "\<forall>c \<in> set cs. \<forall>a. map_of (fn_streams f) c = Some a \<longrightarrow> room (fn_heap f ! a)"
  shows "same_streams f (fold step cs f) \<and> fn_lastPrimary (fold step cs f) = fn_lastPrimary f
    \<and> (\<forall>a < length (fn_heap f). ch_of (fold step cs f) a =
         ch_of f a @ (if map_of (fn_streams f) (st_id (fn_heap f ! a)) = Some a \<and> st_id (fn_heap f ! a) \<in> set cs
                      then [COVERAGE (CoveredEdges (st_id (fn_heap f ! a)) es ids (fn_k f))] else []))"
  using assms(2-)
proof (induction cs arbitrary: f)
  case (Cons c cs)
  have cur: "current f d a" if "map_of (fn_streams f) d = Some a" for d a
    using Cons.prems(1) map_of_SomeD [OF that] by (auto simp: fan_ok_def)
  have step: "same_streams f (step c f) \<and> fn_lastPrimary (step c f) = fn_lastPrimary f
    \<and> (\<forall>b < length (fn_heap f). ch_of (step c f) b = ch_of f b @
         (if map_of (fn_streams f) c = Some b then [COVERAGE (CoveredEdges c es ids (fn_k f))] else []))"
  proof (cases "map_of (fn_streams f) c")
    case None
    then show ?thesis by (simp add: step_def emitCoverage_def)
  next
    case (Some a)
    then have "step c f = enqueue f a (COVERAGE (CoveredEdges c es ids (fn_k f)))"
      using cur [OF Some] Cons.prems(3) by (simp add: step_def emitCoverage_def current_def block_send_room)
    then show ?thesis using Some enqueue_same by (auto simp: enqueue_ch)
  qed
  have g: "fan_ok (step c f)" using emitCoverage_ok [OF Cons.prems(1)] by (simp add: step_def)
  have streams: "fn_streams (step c f) = fn_streams f" "fn_k (step c f) = fn_k f"
    and sid: "\<And>a. a < length (fn_heap f) \<Longrightarrow> st_id (fn_heap (step c f) ! a) = st_id (fn_heap f ! a)"
    and len: "length (fn_heap (step c f)) = length (fn_heap f)"
    using step by (auto simp: same_streams_def)
  have room: "\<forall>d \<in> set cs. \<forall>a. map_of (fn_streams (step c f)) d = Some a \<longrightarrow> room (fn_heap (step c f) ! a)"
  proof (intro ballI allI impI)
    fix d a assume d: "d \<in> set cs" "map_of (fn_streams (step c f)) d = Some a"
    then have "a < length (fn_heap f)" "st_id (fn_heap f ! a) = d" "room (fn_heap f ! a)"
      using cur [of d a] Cons.prems(3) by (auto simp: streams current_def)
    moreover have "map_of (fn_streams f) c \<noteq> Some a"
      using cur [of c a] cur [of d a] d Cons.prems(2) by (auto simp: streams current_def)
    ultimately show "room (fn_heap (step c f) ! a)" using step by (simp add: room_def)
  qed
  note IH = Cons.IH [OF g _ room]
  have owner: "map_of (fn_streams f) c = Some b \<longleftrightarrow> map_of (fn_streams f) (st_id (fn_heap f ! b)) = Some b
      \<and> st_id (fn_heap f ! b) = c" for b
    using cur [of c b] by (auto simp: current_def)
  show ?case
  proof (intro conjI allI impI)
    have "same_streams (step c f) (fold step cs (step c f))" using IH Cons.prems(2) by simp
    then show "same_streams f (fold step (c # cs) f)" using step same_streams_trans by auto
    show "fn_lastPrimary (fold step (c # cs) f) = fn_lastPrimary f" using step IH Cons.prems(2) by simp
    fix a assume a: "a < length (fn_heap f)"
    have "ch_of (fold step cs (step c f)) a = ch_of (step c f) a @
        (if map_of (fn_streams f) (st_id (fn_heap f ! a)) = Some a \<and> st_id (fn_heap f ! a) \<in> set cs
         then [COVERAGE (CoveredEdges (st_id (fn_heap f ! a)) es ids (fn_k f))] else [])"
      using IH Cons.prems(2) a by (simp add: len sid streams)
    moreover have "ch_of (step c f) a = ch_of f a @ (if map_of (fn_streams f) c = Some a
        then [COVERAGE (CoveredEdges c es ids (fn_k f))] else [])" using step a by blast
    ultimately have both: "ch_of (fold step (c # cs) f) a = ch_of f a @
        (if map_of (fn_streams f) c = Some a then [COVERAGE (CoveredEdges c es ids (fn_k f))] else []) @
        (if map_of (fn_streams f) (st_id (fn_heap f ! a)) = Some a \<and> st_id (fn_heap f ! a) \<in> set cs
         then [COVERAGE (CoveredEdges (st_id (fn_heap f ! a)) es ids (fn_k f))] else [])"
      by (simp only: fold_simps append_assoc)
    show "ch_of (fold step (c # cs) f) a = ch_of f a @
        (if map_of (fn_streams f) (st_id (fn_heap f ! a)) = Some a \<and> st_id (fn_heap f ! a) \<in> set (c # cs)
         then [COVERAGE (CoveredEdges (st_id (fn_heap f ! a)) es ids (fn_k f))] else [])"
    proof (cases "map_of (fn_streams f) c = Some a")
      case True
      then have "st_id (fn_heap f ! a) = c" "c \<notin> set cs" using owner [of a] Cons.prems(2) by auto
      then show ?thesis using True both by simp
    next
      case False
      then have "st_id (fn_heap f ! a) \<noteq> c \<or> map_of (fn_streams f) (st_id (fn_heap f ! a)) \<noteq> Some a"
        using owner [of a] by blast
      then show ?thesis using False both by auto
    qed
  qed
qed simp


text \<open>
  A second recompute over the same streams pushes nothing, also where a full buffer dropped the first REHOME.
\<close>

theorem rehome_not_refired:
  assumes f: "f = run_fan ops (newDesiredFan k)" and "distinct es"
    and r: "rehomeChangedPrimaries f es = (n, f')"
  shows "fst (rehomeChangedPrimaries f' es) = 0"
proof -
  have ok: "fan_ok f" unfolding f by (rule run_fan_ok)
  have f': "f' = snd (fold rehome_edge es (0, f))" using r by (simp add: rehomeChangedPrimaries_def)
  have "fan_ok f'" unfolding f' by (rule fold_rehome_ok) (simp add: ok)
  moreover have "\<not> moved f' e" if "e \<in> set es" for e
    using that fold_rehome_baseline [OF ok assms(2), of 0 e]
      same_streams_assignment(1) [OF ok fold_rehome_same [of "(0, f)" es, simplified]]
    by (auto simp: f' moved_def split: option.splits)
  ultimately show ?thesis
    using fold_rehome_baseline [of f' es 0] assms(2) by (simp add: rehomeChangedPrimaries_def filter_empty_conv)
qed

section \<open>Rate limit\<close>

abbreviation stamp :: "fan \<Rightarrow> edge_id \<Rightarrow> gtime option" where
  "stamp f \<equiv> fn_misHomeRehomedAt f"

lemma evictCoverer_stamp [simp]: "stamp (evictCoverer f c a) = stamp f"
  by (simp add: evictCoverer_def scheduleCoverageRecompute_def)

lemma pump_stamp [simp]: "stamp (snd (pump f a)) = stamp f"
  by (simp add: pump_def Let_def split: list.splits)

lemma fold_rehome_stamp [simp]: "stamp (snd (fold rehome_edge es nf)) = stamp (snd nf)"
proof (induction es arbitrary: nf)
  case (Cons e es)
  have "stamp (snd (rehome_edge e nf)) = stamp (snd nf)"
    by (auto simp: rehome_edge_def Let_def notePrimary_def split: prod.splits option.splits)
  then show ?case using Cons by simp
qed simp

lemma emitCoverage_stamp [simp]: "stamp (emitCoverage rel f c es) = stamp f"
  by (auto simp: emitCoverage_def block_send_def select_send_def Let_def split: option.splits if_splits)

lemma fan_step_stamp:
  assumes "\<And>e c now. op \<noteq> MisHome e c now"
  shows "stamp (fan_step op f) = stamp f"
proof (cases op)
  case (Connect c ep)
  then show ?thesis by (auto simp: connectCoverer_def Let_def scheduleCoverageRecompute_def split: option.splits)
next
  case StopAll
  have "stamp (stop_loop xs f) = stamp f" for xs
    by (induction xs f rule: stop_loop.induct) (simp_all add: Let_def)
  then show ?thesis using StopAll by (simp add: Stop_def)
next
  case (Recompute rel es)
  have "stamp (fold (\<lambda>c f. emitCoverage (rel c) f c (CoveredEdges c es ids (fn_k f))) cs g) = stamp g" for ids cs g
    by (induction cs arbitrary: g) simp_all
  then show ?thesis using Recompute by (simp add: recomputeCoverage_def Let_def rehomeChangedPrimaries_def)
qed (use assms in \<open>auto simp: select_send_def Let_def emitToAllCovers_def notePrimary_def rehomeChangedPrimaries_def\<close>)

lemma rehomeMisHome_cases:
  "rehomeMisHome f e c now = ([], f)
   \<or> stamp (snd (rehomeMisHome f e c now)) = (stamp f)(e \<mapsto> now)
     \<and> (case stamp f e of None \<Rightarrow> True | Some at \<Rightarrow> misHomeRehomeInterval \<le> now - at)"
  by (auto simp: rehomeMisHome_def Let_def split: option.splits)

lemma run_fan_stamp:
  assumes "stamp f e = Some t0" "t \<le> t0" "\<forall>e c now. MisHome e c now \<in> set ops \<longrightarrow> t \<le> now"
  shows "\<exists>t1 \<ge> t. stamp (run_fan ops f) e = Some t1"
  using assms
proof (induction ops arbitrary: f t0)
  case Nil
  then show ?case by (auto simp: run_fan_def)
next
  case (Cons op ops)
  have "\<exists>t1 \<ge> t. stamp (fan_step op f) e = Some t1"
  proof (cases "\<exists>e c now. op = MisHome e c now")
    case True
    then obtain e' c now where op: "op = MisHome e' c now" by blast
    then show ?thesis using Cons.prems rehomeMisHome_cases [of f e' c now] by auto
  next
    case False
    then show ?thesis using Cons.prems fan_step_stamp [of op f] by auto
  qed
  then show ?case using Cons.IH Cons.prems(3) by (fastforce simp: run_fan_def)
qed

text \<open>
  The correction of a mis-homed agent is rate limited: between two REHOMEs of one edge lie at least 15 seconds,
  whatever happens to the fan in between.
\<close>

theorem misHome_rate_limited:
  assumes "fst (rehomeMisHome f e c t) \<noteq> []"
    and "\<forall>e c now. MisHome e c now \<in> set ops \<longrightarrow> t \<le> now"
    and "fst (rehomeMisHome (run_fan ops (snd (rehomeMisHome f e c t))) e c' t') \<noteq> []"
  shows "misHomeRehomeInterval \<le> t' - t"
proof -
  have "stamp (snd (rehomeMisHome f e c t)) e = Some t" using assms(1) rehomeMisHome_cases [of f e c t] by auto
  then obtain t1 where "t \<le> t1" "stamp (run_fan ops (snd (rehomeMisHome f e c t))) e = Some t1"
    using run_fan_stamp assms(2) by blast
  then show ?thesis
    using assms(3) rehomeMisHome_cases [of "run_fan ops (snd (rehomeMisHome f e c t))" e c' t'] by auto
qed

section \<open>Examples\<close>

text \<open>Two coverers; the first reconnects and its old stream is evicted late. Edge \<open>l2\<close> belongs to the second.\<close>

definition demo_fan_ops :: "fan_op list" where
  "demo_fan_ops = [Connect ''c1'' ''10.0.0.1:9000'', Note ''l1'' ''c1'', Note ''l2'' ''c1'',
     Connect ''c2'' ''10.0.0.2:9000'', Connect ''c1'' ''10.0.0.3:9000'', Evict ''c1'' 0]"

definition demo_fan :: fan where
  "demo_fan = run_fan demo_fan_ops (newDesiredFan 2)"

lemma demo_fan_streams: "fn_streams demo_fan = [(''c1'', 2), (''c2'', 1)]"
  by code_simp

theorem assignment_matches_routing_witness:
  "fn_streams demo_fan \<noteq> [] \<and> (\<exists>asg. assignmentFor demo_fan ''l2'' = Some asg \<and> IsSubscribed demo_fan ''l2''
     \<and> streamFor demo_fan ''l2'' = map_of (fn_streams demo_fan) (primary_of asg))"
  using assignment_matches_routing [OF demo_fan_def, of "''l2''"] demo_fan_streams by auto


theorem misHome_rate_limited_witness:
  "fst (rehomeMisHome demo_fan ''l2'' ''c1'' 0) \<noteq> []
   \<and> misHomeRehomeInterval \<le> seconds 20 - 0"
proof
  show m: "fst (rehomeMisHome demo_fan ''l2'' ''c1'' 0) \<noteq> []" by code_simp
  have "fst (rehomeMisHome (run_fan [Pump 1] (snd (rehomeMisHome demo_fan ''l2'' ''c1'' 0))) ''l2'' ''c1'' (seconds 20)) \<noteq> []"
    by code_simp
  then show "misHomeRehomeInterval \<le> seconds 20 - 0"
    using misHome_rate_limited [OF m, of "[Pump 1]"] by simp
qed

end
