(* ===== verification/ApiResult.thy ===== *)
theory ApiResult
  imports Liveness Presence Fan
begin

text \<open>
  The state of the control plane and its event stream (\<open>internal/apiresult/apiresult.go\<close>, the emit
  helpers and per-edge tracking maps of \<open>internal/server/controlplane.go\<close>, the report cache of
  \<open>accounts.go\<close>). An event that is produced to the broker is recorded with its partition key.
  Every operation takes the clock reading it stamps its events with.
\<close>

section \<open>Events\<close>

record api_event =
  ev_RequestID :: string
  ev_Op :: string
  ev_PoolID :: pool_id
  ev_Edge :: edge_id
  ev_Outcome :: string
  ev_Reason :: string
  ev_Generation :: u64
  ev_TSUnixMs :: int
  ev_Source :: string
  ev_FromEdge :: edge_id
  ev_ToEdge :: edge_id
  ev_MemberPrefix :: string
  ev_Gap :: int
  ev_DisplacedByPool :: pool_id
  ev_Action :: string
  ev_CapacityBps :: int
  ev_CIRKbps :: u64
  ev_IngressCIRKbps :: u64
  ev_Tokens :: int
  ev_BillingMode :: string
  ev_Unlimited :: bool

definition zero_event :: api_event where
  "zero_event = \<lparr>ev_RequestID = [], ev_Op = [], ev_PoolID = 0, ev_Edge = [], ev_Outcome = [], ev_Reason = [],
     ev_Generation = 0, ev_TSUnixMs = 0, ev_Source = [], ev_FromEdge = [], ev_ToEdge = [], ev_MemberPrefix = [],
     ev_Gap = 0, ev_DisplacedByPool = 0, ev_Action = [], ev_CapacityBps = 0, ev_CIRKbps = 0, ev_IngressCIRKbps = 0,
     ev_Tokens = 0, ev_BillingMode = [], ev_Unlimited = False\<rparr>"

definition OutcomeConverged :: string where
  "OutcomeConverged = ''converged''"

definition OutcomeFailed :: string where
  "OutcomeFailed = ''failed''"

definition unix_ms :: "gtime \<Rightarrow> int" where
  "unix_ms now = now div 1000000"

text \<open>The shape every unsolicited event shares.\<close>

definition controller_event :: "gtime \<Rightarrow> string \<Rightarrow> api_event" where
  "controller_event now oper = zero_event\<lparr>ev_Op := oper, ev_Source := ''controller'', ev_TSUnixMs := unix_ms now\<rparr>"

text \<open>\<open>Noop\<close> drops events; a \<open>Producer\<close> keys a record and hands it to the client.\<close>

datatype emitter = Noop | Producer string

definition event_key :: "api_event \<Rightarrow> string" where
  "event_key ev = (if ev_RequestID ev \<noteq> [] then ev_RequestID ev
     else if ev_MemberPrefix ev \<noteq> [] then ev_MemberPrefix ev
     else show_dec (int (ev_PoolID ev)))"

datatype api_error = NoBroker | NoTopic | NewClient string

text \<open>\<open>NewProducer\<close>; the client constructor is a parameter.\<close>

definition NewProducer :: "(string list \<Rightarrow> string \<Rightarrow> string option) \<Rightarrow> string list \<Rightarrow> string \<Rightarrow> api_error + emitter" where
  "NewProducer newClient brokers topic =
     (if brokers = [] then Inl NoBroker
      else if topic = [] then Inl NoTopic
      else case newClient brokers topic of Some err \<Rightarrow> Inl (NewClient err) | None \<Rightarrow> Inr (Producer topic))"

section \<open>Reports\<close>

datatype health_state = HealthDataPlaneDown | HealthState string

record health =
  h_State :: health_state
  h_FaultKind :: faultKind
  h_AppliedVersion :: u64
  h_FIBDrift :: int
  h_DeltasDropped :: u64
  h_VPPConnected :: bool
  h_Phase :: string
  h_PolicersDesired :: int
  h_PolicersActual :: int
  h_SessionsDesired :: int
  h_SessionsActual :: int

record edge_report =
  er_EdgeID :: edge_id
  er_Generation :: u64
  er_InstalledPoolHash :: u64
  er_Health :: health
  er_SessionBudget :: u64
  er_SoldBandwidthBps :: u64

section \<open>State of the control plane\<close>

record rate_basis =
  rb_cirKbps :: u64
  rb_ingressCIRKbps :: u64
  rb_tokens :: int
  rb_unlimited :: bool

record pending_result =
  pn_requestID :: string
  pn_op :: string
  pn_poolID :: pool_id
  pn_primaryEdge :: edge_id
  pn_generation :: u64
  pn_createdAt :: gtime
  pn_fromEdge :: edge_id
  pn_rate :: "rate_basis option"

record reported_hash =
  rh_hash :: u64
  rh_at :: gtime
  rh_seen :: bool

record cp =
  cp_Liveness :: monitor
  cp_fan :: fan
  cp_presence :: member_presence
  cp_reports :: "edge_id \<rightharpoonup> edge_report"
  cp_progStreak :: "edge_id \<rightharpoonup> int"
  cp_driftReported :: "(edge_id \<times> reported_hash) list"
  cp_driftStreak :: "edge_id \<rightharpoonup> int"
  cp_reconcileQ :: "pool_id list"
  cp_pending :: "(string \<times> pending_result) list"
  cp_dpDownEdges :: "edge_id \<rightharpoonup> bool"
  cp_meteringStaleEdge :: "edge_id \<rightharpoonup> bool"
  cp_fibDriftEdges :: "edge_id \<rightharpoonup> bool"
  cp_deathMethodByEdge :: "edge_id \<rightharpoonup> string"
  cp_emitter :: emitter
  cp_sent :: "(string \<times> api_event) list"

definition Emit :: "api_event \<Rightarrow> cp \<Rightarrow> cp" where
  "Emit ev cp = (case cp_emitter cp of
     Noop \<Rightarrow> cp
   | Producer topic \<Rightarrow> cp\<lparr>cp_sent := cp_sent cp @ [(event_key ev, ev)]\<rparr>)"

definition SetAPIResultEmitter :: "emitter option \<Rightarrow> cp \<Rightarrow> cp" where
  "SetAPIResultEmitter e cp = cp\<lparr>cp_emitter := (case e of None \<Rightarrow> Noop | Some e \<Rightarrow> e)\<rparr>"

definition reports_put :: "edge_report \<Rightarrow> cp \<Rightarrow> cp" where
  "reports_put r cp = cp\<lparr>cp_reports := (cp_reports cp)(er_EdgeID r \<mapsto> r)\<rparr>"

definition reports_delete :: "edge_id \<Rightarrow> cp \<Rightarrow> cp" where
  "reports_delete e cp = cp\<lparr>cp_reports := (cp_reports cp)(e := None)\<rparr>"

definition edgeSessionBudget :: "cp \<Rightarrow> edge_id \<Rightarrow> u64" where
  "edgeSessionBudget cp e = (case cp_reports cp e of Some r \<Rightarrow> er_SessionBudget r | None \<Rightarrow> 0)"

section \<open>Notifications of pool and member moves\<close>

definition deathReasonFor :: "cp \<Rightarrow> edge_id \<Rightarrow> string" where
  "deathReasonFor cp e = (case cp_deathMethodByEdge cp e of None \<Rightarrow> ''node-failure''
     | Some m \<Rightarrow> if m = [] then ''node-failure'' else m)"

definition emitFailover :: "gtime \<Rightarrow> pool_id \<Rightarrow> edge_id \<Rightarrow> edge_id \<Rightarrow> u64 \<Rightarrow> cp \<Rightarrow> cp" where
  "emitFailover now i src to gen cp = Emit ((controller_event now ''failover'')\<lparr>ev_PoolID := i,
     ev_FromEdge := src, ev_ToEdge := to, ev_Reason := deathReasonFor cp src, ev_Generation := gen\<rparr>) cp"

definition onEdgeDeath :: "gtime \<Rightarrow> edge_id \<Rightarrow> string \<Rightarrow> cp \<Rightarrow> cp" where
  "onEdgeDeath now e meth cp =
     (let meth = (if meth = [] then ''node-failure'' else meth);
          cp = cp\<lparr>cp_deathMethodByEdge := (cp_deathMethodByEdge cp)(e \<mapsto> meth)\<rparr>
      in Emit ((controller_event now ''edge-down'')\<lparr>ev_Edge := e, ev_Reason := meth\<rparr>) cp)"

definition emitEdgeUp :: "gtime \<Rightarrow> edge_id \<Rightarrow> cp \<Rightarrow> cp" where
  "emitEdgeUp now e cp =
     (let cp = cp\<lparr>cp_deathMethodByEdge := (cp_deathMethodByEdge cp)(e := None)\<rparr>
      in Emit ((controller_event now ''edge-up'')\<lparr>ev_Edge := e, ev_Reason := ''revived''\<rparr>) cp)"

definition emitMemberDown :: "gtime \<Rightarrow> pool_id \<Rightarrow> edge_id \<Rightarrow> pfx \<Rightarrow> string \<Rightarrow> cp \<Rightarrow> cp" where
  "emitMemberDown now i e m reason = Emit ((controller_event now ''member-down'')\<lparr>ev_PoolID := i, ev_Edge := e,
     ev_MemberPrefix := pfx_String m, ev_Reason := reason\<rparr>)"

definition emitMemberUp :: "gtime \<Rightarrow> pool_id \<Rightarrow> edge_id \<Rightarrow> pfx \<Rightarrow> cp \<Rightarrow> cp" where
  "emitMemberUp now i e m = Emit ((controller_event now ''member-up'')\<lparr>ev_PoolID := i, ev_Edge := e,
     ev_MemberPrefix := pfx_String m\<rparr>)"

definition emitProgramDrift :: "gtime \<Rightarrow> edge_id \<Rightarrow> string \<Rightarrow> int \<Rightarrow> cp \<Rightarrow> cp" where
  "emitProgramDrift now e kind gap cp = (if kind = [] then cp
     else Emit ((controller_event now kind)\<lparr>ev_Edge := e, ev_Reason := kind, ev_Gap := gap\<rparr>) cp)"

definition emitDeliveryDegraded :: "gtime \<Rightarrow> edge_id \<Rightarrow> u64 \<Rightarrow> cp \<Rightarrow> cp" where
  "emitDeliveryDegraded now e delta = Emit ((controller_event now ''delivery-degraded'')\<lparr>ev_Edge := e,
     ev_Reason := ''delta-queue-overflow'', ev_Gap := sint delta\<rparr>)"

definition anchor_event :: "gtime \<Rightarrow> string \<Rightarrow> string \<Rightarrow> edge_id \<Rightarrow> pfx \<Rightarrow> api_event" where
  "anchor_event now oper reason e p = (controller_event now oper)\<lparr>ev_Edge := e,
     ev_MemberPrefix := pfx_String p, ev_Reason := reason\<rparr>"

definition emitAnchorMismatch :: "gtime \<Rightarrow> edge_id \<Rightarrow> pfx list \<Rightarrow> pfx list \<Rightarrow> cp \<Rightarrow> cp" where
  "emitAnchorMismatch now e unprovisioned rogue cp =
     fold (\<lambda>p. Emit (anchor_event now ''anchor-rogue'' ''rogue'' e p)) rogue
       (fold (\<lambda>p. Emit (anchor_event now ''anchor-unprovisioned'' ''unprovisioned'' e p)) unprovisioned cp)"

definition emitDoubleDeath :: "gtime \<Rightarrow> pool_id \<Rightarrow> bool \<Rightarrow> cp \<Rightarrow> cp" where
  "emitDoubleDeath now i failOpen = Emit ((controller_event now ''pool-double-death'')\<lparr>ev_PoolID := i,
     ev_Reason := (if failOpen then ''fail-open'' else ''fail-close'')\<rparr>)"

definition emitPoolExpired :: "gtime \<Rightarrow> pool_id \<Rightarrow> string \<Rightarrow> cp \<Rightarrow> cp" where
  "emitPoolExpired now i action = Emit ((controller_event now ''pool-expired'')\<lparr>ev_PoolID := i,
     ev_Reason := ''ttl-expired'', ev_Action := action\<rparr>)"

definition emitMemberEvicted :: "gtime \<Rightarrow> pool_id \<Rightarrow> pfx \<Rightarrow> pool_id \<Rightarrow> cp \<Rightarrow> cp" where
  "emitMemberEvicted now displaced m byPool = Emit ((controller_event now ''member-evicted'')\<lparr>ev_PoolID := displaced,
     ev_MemberPrefix := pfx_String m, ev_DisplacedByPool := byPool, ev_Reason := ''cross-pool-replace''\<rparr>)"

definition emitEdgeRegistered :: "gtime \<Rightarrow> edge_id \<Rightarrow> int \<Rightarrow> cp \<Rightarrow> cp" where
  "emitEdgeRegistered now e cap = Emit ((controller_event now ''edge-registered'')\<lparr>ev_Edge := e, ev_CapacityBps := cap\<rparr>)"

definition emitEdgeCapacityChanged :: "gtime \<Rightarrow> edge_id \<Rightarrow> int \<Rightarrow> cp \<Rightarrow> cp" where
  "emitEdgeCapacityChanged now e cap = Emit ((controller_event now ''edge-capacity-changed'')\<lparr>ev_Edge := e,
     ev_CapacityBps := cap\<rparr>)"

definition emitBackupChanged :: "gtime \<Rightarrow> pool_id \<Rightarrow> edge_id \<Rightarrow> cp \<Rightarrow> cp" where
  "emitBackupChanged now i to = Emit ((controller_event now ''backup-changed'')\<lparr>ev_PoolID := i, ev_ToEdge := to\<rparr>)"

definition emitRedundancyLost :: "gtime \<Rightarrow> pool_id \<Rightarrow> string \<Rightarrow> cp \<Rightarrow> cp" where
  "emitRedundancyLost now i reason = Emit ((controller_event now ''redundancy-lost'')\<lparr>ev_PoolID := i, ev_Reason := reason\<rparr>)"

definition emitRedundancyRegained :: "gtime \<Rightarrow> pool_id \<Rightarrow> cp \<Rightarrow> cp" where
  "emitRedundancyRegained now i = Emit ((controller_event now ''redundancy-regained'')\<lparr>ev_PoolID := i\<rparr>)"

definition emitCapacityExhausted :: "gtime \<Rightarrow> pool_id \<Rightarrow> cp \<Rightarrow> cp" where
  "emitCapacityExhausted now i = Emit ((controller_event now ''capacity-exhausted'')\<lparr>ev_PoolID := i,
     ev_Reason := ''no-capacity''\<rparr>)"

definition emitRehome :: "gtime \<Rightarrow> pool_id \<Rightarrow> edge_id \<Rightarrow> edge_id \<Rightarrow> string \<Rightarrow> cp \<Rightarrow> cp" where
  "emitRehome now i src to reason = Emit ((controller_event now ''rehome'')\<lparr>ev_PoolID := i,
     ev_FromEdge := src, ev_ToEdge := to, ev_Reason := reason\<rparr>)"

definition onRedundancyNotify :: "gtime \<Rightarrow> string \<Rightarrow> pool_id \<Rightarrow> edge_id \<Rightarrow> string \<Rightarrow> cp \<Rightarrow> cp" where
  "onRedundancyNotify now kind i to reason cp =
     (if kind = ''backup-changed'' then emitRedundancyRegained now i (emitBackupChanged now i to cp)
      else if kind = ''redundancy-lost'' then emitRedundancyLost now i reason cp
      else if kind = ''capacity-exhausted'' then emitCapacityExhausted now i cp
      else cp)"

section \<open>Levels into edges\<close>

text \<open>An absent key reads as the benign level.\<close>

definition level :: "(edge_id \<rightharpoonup> bool) \<Rightarrow> edge_id \<Rightarrow> bool" where
  "level m e = (case m e of None \<Rightarrow> False | Some b \<Rightarrow> b)"

definition emitEdgeDataplane :: "gtime \<Rightarrow> edge_id \<Rightarrow> bool \<Rightarrow> cp \<Rightarrow> cp" where
  "emitEdgeDataplane now e dpDown cp =
     (if level (cp_dpDownEdges cp) e = dpDown then cp
      else
        let cp = cp\<lparr>cp_dpDownEdges := (cp_dpDownEdges cp)(e \<mapsto> dpDown)\<rparr>;
            oper = (if dpDown then ''edge-dataplane-down'' else ''edge-dataplane-up'');
            reason = (if dpDown then ''dataplane-down'' else ''dataplane-recovered'')
        in Emit ((controller_event now oper)\<lparr>ev_Edge := e, ev_Reason := reason\<rparr>) cp)"

definition emitFIBDrift :: "gtime \<Rightarrow> edge_id \<Rightarrow> int \<Rightarrow> cp \<Rightarrow> cp" where
  "emitFIBDrift now e drift cp =
     (let drifted = (drift \<noteq> 0)
      in if level (cp_fibDriftEdges cp) e = drifted then cp
         else
           let cp = cp\<lparr>cp_fibDriftEdges := (cp_fibDriftEdges cp)(e \<mapsto> drifted)\<rparr>;
               (oper, reason, gap) = (if drifted
                 then (''fib-drift'', ''bird-vpp-fib-mismatch'', if drift < 0 then wrap64 (- drift) else drift)
                 else (''fib-drift-cleared'', ''fib-baseline-restored'', 0))
           in Emit ((controller_event now oper)\<lparr>ev_Edge := e, ev_Reason := reason, ev_Gap := gap\<rparr>) cp)"

definition emitMeteringStale :: "gtime \<Rightarrow> edge_id \<Rightarrow> bool \<Rightarrow> cp \<Rightarrow> cp" where
  "emitMeteringStale now e stale cp =
     (if level (cp_meteringStaleEdge cp) e = stale then cp
      else
        let cp = cp\<lparr>cp_meteringStaleEdge := (cp_meteringStaleEdge cp)(e \<mapsto> stale)\<rparr>;
            oper = (if stale then ''metering-stale'' else ''metering-resumed'');
            reason = (if stale then ''heartbeat-stale'' else ''metering-resumed'')
        in Emit ((controller_event now oper)\<lparr>ev_Edge := e, ev_Reason := reason\<rparr>) cp)"

definition emitReportObservability :: "gtime \<Rightarrow> edge_report \<Rightarrow> cp \<Rightarrow> cp" where
  "emitReportObservability now r cp =
     (let cp = emitFIBDrift now (er_EdgeID r) (h_FIBDrift (er_Health r)) cp
      in case cp_reports cp (er_EdgeID r) of
           Some prev \<Rightarrow>
             if h_DeltasDropped (er_Health r) > h_DeltasDropped (er_Health prev)
             then emitDeliveryDegraded now (er_EdgeID r)
                    (h_DeltasDropped (er_Health r) - h_DeltasDropped (er_Health prev)) cp
             else cp
         | None \<Rightarrow> cp)"

section \<open>Forgetting an edge\<close>

text \<open>\<open>cleanupEdge\<close> less the orchestrator's own maps.\<close>

definition cleanup_maps :: "edge_id \<Rightarrow> cp \<Rightarrow> cp" where
  "cleanup_maps e cp = reports_delete e (cp\<lparr>
     cp_progStreak := (cp_progStreak cp)(e := None),
     cp_driftReported := AList.delete e (cp_driftReported cp),
     cp_driftStreak := (cp_driftStreak cp)(e := None),
     cp_dpDownEdges := (cp_dpDownEdges cp)(e := None),
     cp_meteringStaleEdge := (cp_meteringStaleEdge cp)(e := None),
     cp_deathMethodByEdge := (cp_deathMethodByEdge cp)(e := None)\<rparr>)"

definition emitEdgeDeregistered :: "gtime \<Rightarrow> edge_id \<Rightarrow> cp \<Rightarrow> cp" where
  "emitEdgeDeregistered now e cp =
     Emit ((controller_event now ''edge-deregistered'')\<lparr>ev_Edge := e, ev_Reason := ''decommission''\<rparr>) (cleanup_maps e cp)"

section \<open>Edge-triggered events\<close>

lemma Emit_sel [simp]:
  "cp_Liveness (Emit ev cp) = cp_Liveness cp" "cp_fan (Emit ev cp) = cp_fan cp"
  "cp_presence (Emit ev cp) = cp_presence cp" "cp_reports (Emit ev cp) = cp_reports cp"
  "cp_progStreak (Emit ev cp) = cp_progStreak cp" "cp_driftReported (Emit ev cp) = cp_driftReported cp"
  "cp_driftStreak (Emit ev cp) = cp_driftStreak cp" "cp_reconcileQ (Emit ev cp) = cp_reconcileQ cp"
  "cp_pending (Emit ev cp) = cp_pending cp" "cp_dpDownEdges (Emit ev cp) = cp_dpDownEdges cp"
  "cp_meteringStaleEdge (Emit ev cp) = cp_meteringStaleEdge cp"
  "cp_fibDriftEdges (Emit ev cp) = cp_fibDriftEdges cp"
  "cp_deathMethodByEdge (Emit ev cp) = cp_deathMethodByEdge cp" "cp_emitter (Emit ev cp) = cp_emitter cp"
  by (simp_all add: Emit_def split: emitter.splits)

lemma Emit_sent: "cp_sent (Emit ev cp) = cp_sent cp @ (if cp_emitter cp = Noop then [] else [(event_key ev, ev)])"
  by (simp add: Emit_def split: emitter.splits)

definition produced :: "cp \<Rightarrow> api_event list" where
  "produced cp = map snd (cp_sent cp)"

lemma produced_Emit [simp]: "produced (Emit ev cp) = produced cp @ (if cp_emitter cp = Noop then [] else [ev])"
  by (simp add: produced_def Emit_sent)

text \<open>
  What the three converters share: an operation fed with the current reading of an edge that keeps the
  last level it reported and emits one event when the level of the reading differs from it.
\<close>

locale level_converter =
  fixes lvl :: "cp \<Rightarrow> edge_id \<Rightarrow> bool"
    and conv :: "gtime \<Rightarrow> edge_id \<Rightarrow> 'v \<Rightarrow> cp \<Rightarrow> cp"
    and bad :: "'v \<Rightarrow> bool"
    and msg :: "gtime \<Rightarrow> edge_id \<Rightarrow> 'v \<Rightarrow> api_event"
    and down up :: string
  assumes repeat: "lvl cp e = bad v \<Longrightarrow> conv now e v cp = cp"
    and change_level: "lvl cp e \<noteq> bad v \<Longrightarrow> lvl (conv now e v cp) d = (if d = e then bad v else lvl cp d)"
    and change_sent: "lvl cp e \<noteq> bad v \<Longrightarrow> produced (conv now e v cp) =
          produced cp @ (if cp_emitter cp = Noop then [] else [msg now e v])"
    and keeps_emitter: "cp_emitter (conv now e v cp) = cp_emitter cp"
    and msg_edge: "ev_Edge (msg now e v) = e"
    and msg_op: "ev_Op (msg now e v) = (if bad v then down else up)"
begin

lemma conv_level: "lvl (conv now e v cp) d = (if d = e then bad v else lvl cp d)"
  using repeat [of cp e v now] change_level [of cp e v now d] by (cases "lvl cp e = bad v") auto

text \<open>A stream of readings of any edges.\<close>

abbreviation feed :: "(gtime \<times> edge_id \<times> 'v) list \<Rightarrow> cp \<Rightarrow> cp" where
  "feed rs cp \<equiv> fold (\<lambda>(t, e, v). conv t e v) rs cp"

primrec changes :: "bool \<Rightarrow> (gtime \<times> 'v) list \<Rightarrow> (gtime \<times> 'v) list" where
  "changes prev [] = []"
| "changes prev (r # rs) = (if bad (snd r) = prev then changes prev rs else r # changes (bad (snd r)) rs)"

definition readings :: "edge_id \<Rightarrow> (gtime \<times> edge_id \<times> 'v) list \<Rightarrow> (gtime \<times> 'v) list" where
  "readings e rs = map (\<lambda>(t, d, v). (t, v)) (filter (\<lambda>(t, d, v). d = e) rs)"

lemma feed_events:
  assumes "cp_emitter cp \<noteq> Noop"
  shows "\<exists>evs. produced (feed rs cp) = produced cp @ evs
    \<and> filter (\<lambda>ev. ev_Edge ev = e) evs = map (\<lambda>(t, v). msg t e v) (changes (lvl cp e) (readings e rs))"
  using assms
proof (induction rs arbitrary: cp)
  case Nil
  then show ?case by (simp add: readings_def)
next
  case (Cons r rs)
  obtain t d v where r: "r = (t, d, v)" by (cases r)
  let ?cp = "conv t d v cp"
  have em: "cp_emitter ?cp \<noteq> Noop" using Cons.prems by (simp add: keeps_emitter)
  obtain evs where evs: "produced (feed rs ?cp) = produced ?cp @ evs"
    "filter (\<lambda>ev. ev_Edge ev = e) evs = map (\<lambda>(t, v). msg t e v) (changes (lvl ?cp e) (readings e rs))"
    using Cons.IH [OF em] by blast
  have lv: "lvl ?cp e = (if e = d then bad v else lvl cp e)" by (rule conv_level)
  have rd: "readings e (r # rs) = (if d = e then (t, v) # readings e rs else readings e rs)"
    by (simp add: readings_def r)
  show ?case
  proof (cases "lvl cp d = bad v")
    case True
    then show ?thesis using evs repeat [OF True, of t] lv rd by (auto simp: r)
  next
    case False
    have "produced ?cp = produced cp @ [msg t d v]" using change_sent [OF False] Cons.prems by simp
    then have "produced (feed (r # rs) cp) = produced cp @ (msg t d v # evs)" using evs by (simp add: r)
    then show ?thesis using evs(2) lv rd False msg_edge by (intro exI [of _ "msg t d v # evs"]) auto
  qed
qed

lemma changes_levels: "map (\<lambda>r. bad (snd r)) (changes prev rs) = tl (remdups_adj (prev # map (\<lambda>r. bad (snd r)) rs))"
  by (induction rs arbitrary: prev) auto

lemma feed_ops:
  assumes "cp_emitter cp \<noteq> Noop" "\<not> lvl cp e"
  shows "map ev_Op (filter (\<lambda>ev. ev_Edge ev = e) (drop (length (produced cp)) (produced (feed rs cp)))) =
    map (\<lambda>b. if b then down else up)
      (tl (remdups_adj (False # map (\<lambda>(t, d, v). bad v) (filter (\<lambda>(t, d, v). d = e) rs))))"
proof -
  obtain evs where evs: "produced (feed rs cp) = produced cp @ evs"
    "filter (\<lambda>ev. ev_Edge ev = e) evs = map (\<lambda>(t, v). msg t e v) (changes (lvl cp e) (readings e rs))"
    using feed_events [OF assms(1)] by blast
  let ?levels = "map (\<lambda>(t, d, v). bad v) (filter (\<lambda>(t, d, v). d = e) rs)"
  have rd: "map (\<lambda>r. bad (snd r)) (readings e rs) = ?levels" by (auto simp: readings_def)
  have "map ev_Op (map (\<lambda>(t, v). msg t e v) cs) = map (\<lambda>b. if b then down else up) (map (\<lambda>r. bad (snd r)) cs)" for cs
    by (auto simp: msg_op)
  from this [of "changes False (readings e rs)"]
  have "map ev_Op (filter (\<lambda>ev. ev_Edge ev = e) evs) =
      map (\<lambda>b. if b then down else up) (tl (remdups_adj (False # ?levels)))"
    using evs(2) assms(2) by (simp only: changes_levels rd)
  then show ?thesis using evs(1) by simp
qed

end

definition dp_event :: "gtime \<Rightarrow> edge_id \<Rightarrow> bool \<Rightarrow> api_event" where
  "dp_event now e b = (controller_event now (if b then ''edge-dataplane-down'' else ''edge-dataplane-up''))\<lparr>ev_Edge := e,
     ev_Reason := (if b then ''dataplane-down'' else ''dataplane-recovered'')\<rparr>"

definition ms_event :: "gtime \<Rightarrow> edge_id \<Rightarrow> bool \<Rightarrow> api_event" where
  "ms_event now e b = (controller_event now (if b then ''metering-stale'' else ''metering-resumed''))\<lparr>ev_Edge := e,
     ev_Reason := (if b then ''heartbeat-stale'' else ''metering-resumed'')\<rparr>"

definition fib_event :: "gtime \<Rightarrow> edge_id \<Rightarrow> int \<Rightarrow> api_event" where
  "fib_event now e d = (controller_event now (if d \<noteq> 0 then ''fib-drift'' else ''fib-drift-cleared''))\<lparr>ev_Edge := e,
     ev_Reason := (if d \<noteq> 0 then ''bird-vpp-fib-mismatch'' else ''fib-baseline-restored''),
     ev_Gap := (if d < 0 then wrap64 (- d) else d)\<rparr>"

interpretation dp: level_converter "\<lambda>cp. level (cp_dpDownEdges cp)" emitEdgeDataplane "\<lambda>b. b" dp_event
    "''edge-dataplane-down''" "''edge-dataplane-up''"
  by unfold_locales (auto simp: emitEdgeDataplane_def level_def dp_event_def produced_def Emit_def Let_def
      controller_event_def zero_event_def split: emitter.splits)

interpretation ms: level_converter "\<lambda>cp. level (cp_meteringStaleEdge cp)" emitMeteringStale "\<lambda>b. b" ms_event
    "''metering-stale''" "''metering-resumed''"
  by unfold_locales (auto simp: emitMeteringStale_def level_def ms_event_def produced_def Emit_def Let_def
      controller_event_def zero_event_def split: emitter.splits)

interpretation fib: level_converter "\<lambda>cp. level (cp_fibDriftEdges cp)" emitFIBDrift "\<lambda>d. d \<noteq> 0" fib_event
    "''fib-drift''" "''fib-drift-cleared''"
  by unfold_locales (auto simp: emitFIBDrift_def level_def fib_event_def produced_def Emit_def Let_def
      controller_event_def zero_event_def split: emitter.splits)

text \<open>
  The three observations of an edge (data plane down, metering stale, FIB drift) are edge-triggered: in a stream of
  readings of any edges, the events produced for one edge are exactly the changes of its level, starting from
  the benign one. Repeated readings produce nothing and no change is lost.
\<close>

theorem observations_are_edge_triggered:
  assumes "cp_emitter cp = Producer topic" "cp_dpDownEdges cp e = None" "cp_meteringStaleEdge cp e = None"
    "cp_fibDriftEdges cp e = None"
  shows "map ev_Op (filter (\<lambda>ev. ev_Edge ev = e) (drop (length (produced cp))
        (produced (fold (\<lambda>(t, e, v). emitEdgeDataplane t e v) bs cp)))) =
      map (\<lambda>b. if b then ''edge-dataplane-down'' else ''edge-dataplane-up'')
        (tl (remdups_adj (False # map (\<lambda>(t, d, b). b) (filter (\<lambda>(t, d, b). d = e) bs))))
    \<and> map ev_Op (filter (\<lambda>ev. ev_Edge ev = e) (drop (length (produced cp))
        (produced (fold (\<lambda>(t, e, v). emitMeteringStale t e v) bs cp)))) =
      map (\<lambda>b. if b then ''metering-stale'' else ''metering-resumed'')
        (tl (remdups_adj (False # map (\<lambda>(t, d, b). b) (filter (\<lambda>(t, d, b). d = e) bs))))
    \<and> map ev_Op (filter (\<lambda>ev. ev_Edge ev = e) (drop (length (produced cp))
        (produced (fold (\<lambda>(t, e, v). emitFIBDrift t e v) vs cp)))) =
      map (\<lambda>b. if b then ''fib-drift'' else ''fib-drift-cleared'')
        (tl (remdups_adj (False # map (\<lambda>(t, d, v). v \<noteq> 0) (filter (\<lambda>(t, d, v). d = e) vs))))"
proof (intro conjI)
  have em: "cp_emitter cp \<noteq> Noop" using assms(1) by simp
  show "map ev_Op (filter (\<lambda>ev. ev_Edge ev = e) (drop (length (produced cp))
        (produced (fold (\<lambda>(t, e, v). emitEdgeDataplane t e v) bs cp)))) =
      map (\<lambda>b. if b then ''edge-dataplane-down'' else ''edge-dataplane-up'')
        (tl (remdups_adj (False # map (\<lambda>(t, d, b). b) (filter (\<lambda>(t, d, b). d = e) bs))))"
    by (rule dp.feed_ops [OF em]) (simp add: level_def assms)
  show "map ev_Op (filter (\<lambda>ev. ev_Edge ev = e) (drop (length (produced cp))
        (produced (fold (\<lambda>(t, e, v). emitMeteringStale t e v) bs cp)))) =
      map (\<lambda>b. if b then ''metering-stale'' else ''metering-resumed'')
        (tl (remdups_adj (False # map (\<lambda>(t, d, b). b) (filter (\<lambda>(t, d, b). d = e) bs))))"
    by (rule ms.feed_ops [OF em]) (simp add: level_def assms)
  show "map ev_Op (filter (\<lambda>ev. ev_Edge ev = e) (drop (length (produced cp))
        (produced (fold (\<lambda>(t, e, v). emitFIBDrift t e v) vs cp)))) =
      map (\<lambda>b. if b then ''fib-drift'' else ''fib-drift-cleared'')
        (tl (remdups_adj (False # map (\<lambda>(t, d, v). v \<noteq> 0) (filter (\<lambda>(t, d, v). d = e) vs))))"
    by (rule fib.feed_ops [OF em]) (simp add: level_def assms)
qed

definition demo_monitor :: monitor where
  "demo_monitor = New 30 \<lparr>grace = 0, softDebounce = 0, hardDebounce = 0, restartGrace = 0, startupGrace = 0, readyAt = 0,
     quorum = 1, selfID = ''s1'', edges = Map.empty, onRevive_set = True, reporting = None,
     meteringStale_set = True, onDeath_set = True\<rparr> 0"

definition demo_cp :: cp where
  "demo_cp = \<lparr>cp_Liveness = demo_monitor, cp_fan = newDesiredFan 1, cp_presence = newMemberPresence 0,
     cp_reports = Map.empty, cp_progStreak = Map.empty, cp_driftReported = [], cp_driftStreak = Map.empty,
     cp_reconcileQ = [], cp_pending = [], cp_dpDownEdges = Map.empty, cp_meteringStaleEdge = Map.empty,
     cp_fibDriftEdges = Map.empty, cp_deathMethodByEdge = Map.empty, cp_emitter = Producer ''api-results'', cp_sent = []\<rparr>"

theorem observations_are_edge_triggered_witness:
  "map ev_Op (filter (\<lambda>ev. ev_Edge ev = ''l1'') (produced (fold (\<lambda>(t, e, v). emitFIBDrift t e v)
     [(1, ''l1'', 4), (2, ''l2'', 1), (3, ''l1'', -3), (4, ''l1'', 0)] demo_cp))) = [''fib-drift'', ''fib-drift-cleared'']"
  using observations_are_edge_triggered [of demo_cp "''api-results''" "''l1''" "[]"
      "[(1, ''l1'', 4), (2, ''l2'', 1), (3, ''l1'', -3), (4, ''l1'', 0)]"]
  by (simp add: demo_cp_def produced_def)

text \<open>
  \<open>cleanupEdge\<close> leaves the FIB level of a removed edge in place: when an edge of that name comes back with a drift, its
  first drifted report produces no event.
\<close>

theorem fib_level_survives_decommission:
  assumes "level (cp_fibDriftEdges cp) e" "d \<noteq> 0"
  shows "emitFIBDrift now e d (emitEdgeDeregistered t e cp) = emitEdgeDeregistered t e cp"
    and "level (cp_dpDownEdges (emitEdgeDeregistered t e cp)) e = False"
  using assms by (simp_all add: emitFIBDrift_def emitEdgeDeregistered_def cleanup_maps_def reports_delete_def level_def)

end
