(* ===== verification/Pending.thy ===== *)
theory Pending
  imports ApiResult
begin

text \<open>
  Request-correlated results (\<open>internal/server/controlplane.go\<close>): an accepted create, update, destroy, migrate or
  decommission waits under its request id until a report of its edge echoes the pushed generation
  or a sweep finds it too old. Both resolvers remove the entries they resolve in one critical section and emit
  afterwards; Go's iteration order over the map is the order of the association list.
\<close>

section \<open>Operations\<close>

definition registerPendingEnriched ::
  "gtime \<Rightarrow> string \<Rightarrow> string \<Rightarrow> pool_id \<Rightarrow> edge_id \<Rightarrow> edge_id \<Rightarrow> u64 \<Rightarrow> rate_basis option \<Rightarrow> cp \<Rightarrow> cp"
where
  "registerPendingEnriched now rid oper i e src gen rate cp =
     (if rid = [] \<or> e = [] then cp
      else cp\<lparr>cp_pending := AList.update rid \<lparr>pn_requestID = rid, pn_op = oper, pn_poolID = i,
        pn_primaryEdge = e, pn_generation = gen, pn_createdAt = now, pn_fromEdge = src, pn_rate = rate\<rparr> (cp_pending cp)\<rparr>)"

definition RegisterPending :: "gtime \<Rightarrow> string \<Rightarrow> string \<Rightarrow> pool_id \<Rightarrow> edge_id \<Rightarrow> u64 \<Rightarrow> cp \<Rightarrow> cp" where
  "RegisterPending now rid oper i e gen cp =
     (if rid = [] \<or> e = [] then cp
      else cp\<lparr>cp_pending := AList.update rid \<lparr>pn_requestID = rid, pn_op = oper, pn_poolID = i,
        pn_primaryEdge = e, pn_generation = gen, pn_createdAt = now, pn_fromEdge = [], pn_rate = None\<rparr> (cp_pending cp)\<rparr>)"

definition rateBasisForPool :: "pool \<Rightarrow> int \<Rightarrow> rate_basis option" where
  "rateBasisForPool p tokens =
     (if a_Kind (p_Action p) \<noteq> ActionRateLimit then None
      else Some \<lparr>rb_cirKbps = r_CIR (p_EgressRate p), rb_ingressCIRKbps = r_CIR (p_IngressRate p),
        rb_tokens = tokens, rb_unlimited = (r_CIR (p_EgressRate p) = 0)\<rparr>)"

definition decoratePendingEvent :: "api_event \<Rightarrow> pending_result \<Rightarrow> api_event" where
  "decoratePendingEvent ev p =
     (let ev = (if pn_fromEdge p \<noteq> [] then ev\<lparr>ev_FromEdge := pn_fromEdge p, ev_ToEdge := pn_primaryEdge p\<rparr> else ev)
      in case pn_rate p of
           None \<Rightarrow> ev
         | Some r \<Rightarrow> ev\<lparr>ev_CIRKbps := rb_cirKbps r, ev_IngressCIRKbps := rb_ingressCIRKbps r,
             ev_Tokens := rb_tokens r, ev_Unlimited := rb_unlimited r,
             ev_BillingMode := (if rb_unlimited r then ''95th-pct'' else ''cir'')\<rparr>)"

definition converged_event :: "gtime \<Rightarrow> pending_result \<Rightarrow> api_event" where
  "converged_event now p = decoratePendingEvent (zero_event\<lparr>ev_RequestID := pn_requestID p, ev_Op := pn_op p,
     ev_PoolID := pn_poolID p, ev_Edge := pn_primaryEdge p, ev_Outcome := OutcomeConverged,
     ev_Generation := pn_generation p, ev_TSUnixMs := unix_ms now\<rparr>) p"

definition timeout_event :: "gtime \<Rightarrow> pending_result \<Rightarrow> api_event" where
  "timeout_event now p = decoratePendingEvent (zero_event\<lparr>ev_RequestID := pn_requestID p, ev_Op := pn_op p,
     ev_PoolID := pn_poolID p, ev_Edge := pn_primaryEdge p, ev_Outcome := OutcomeFailed, ev_Reason := ''timeout'',
     ev_Generation := pn_generation p, ev_TSUnixMs := unix_ms now\<rparr>) p"

definition applied_by :: "edge_report \<Rightarrow> pending_result \<Rightarrow> bool" where
  "applied_by r p \<longleftrightarrow> pn_primaryEdge p = er_EdgeID r \<and> er_Generation r \<ge> pn_generation p"

definition resolvePending :: "gtime \<Rightarrow> edge_report \<Rightarrow> cp \<Rightarrow> cp" where
  "resolvePending now r cp =
     (let resolved = filter (\<lambda>(i, p). applied_by r p) (cp_pending cp);
          cp = cp\<lparr>cp_pending := filter (\<lambda>(i, p). \<not> applied_by r p) (cp_pending cp)\<rparr>
      in fold (\<lambda>(i, p). Emit (converged_event now p)) resolved cp)"

definition too_old :: "gtime \<Rightarrow> duration \<Rightarrow> pending_result \<Rightarrow> bool" where
  "too_old now timeout p \<longleftrightarrow> now - pn_createdAt p \<ge> timeout"

definition resultTimeoutSweep :: "gtime \<Rightarrow> duration \<Rightarrow> cp \<Rightarrow> cp" where
  "resultTimeoutSweep now timeout cp =
     (let expired = filter (\<lambda>(i, p). too_old now timeout p) (cp_pending cp);
          cp = cp\<lparr>cp_pending := filter (\<lambda>(i, p). \<not> too_old now timeout p) (cp_pending cp)\<rparr>
      in fold (\<lambda>(i, p). Emit (timeout_event now p)) expired cp)"

section \<open>One resolver\<close>

text \<open>Both resolvers are instances of removing what satisfies a predicate and emitting for it.\<close>

definition resolve :: "(pending_result \<Rightarrow> bool) \<Rightarrow> (pending_result \<Rightarrow> api_event) \<Rightarrow> cp \<Rightarrow> cp" where
  "resolve P msg cp = fold (\<lambda>(i, p). Emit (msg p)) (filter (\<lambda>(i, p). P p) (cp_pending cp))
     (cp\<lparr>cp_pending := filter (\<lambda>(i, p). \<not> P p) (cp_pending cp)\<rparr>)"

lemma resolve_eqs:
  "resolvePending now r cp = resolve (applied_by r) (converged_event now) cp"
  "resultTimeoutSweep now timeout cp = resolve (too_old now timeout) (timeout_event now) cp"
  by (simp_all add: resolvePending_def resultTimeoutSweep_def resolve_def Let_def)

definition pending_ok :: "cp \<Rightarrow> bool" where
  "pending_ok cp \<longleftrightarrow> map_ok (cp_pending cp) \<and> (\<forall>(i, p) \<in> set (cp_pending cp). pn_requestID p = i)"

lemma event_request [simp]:
  "ev_RequestID (converged_event now p) = pn_requestID p" "ev_RequestID (timeout_event now p) = pn_requestID p"
  "ev_Outcome (converged_event now p) = OutcomeConverged" "ev_Outcome (timeout_event now p) = OutcomeFailed"
  by (simp_all add: converged_event_def timeout_event_def decoratePendingEvent_def Let_def split: option.splits)

lemma fold_Emit:
  "produced (fold (\<lambda>(i, p). Emit (msg p)) xs cp) =
     produced cp @ (if cp_emitter cp = Noop then [] else map (\<lambda>(i, p). msg p) xs)"
  "cp_pending (fold (\<lambda>(i, p). Emit (msg p)) xs cp) = cp_pending cp"
  "cp_emitter (fold (\<lambda>(i, p). Emit (msg p)) xs cp) = cp_emitter cp"
  by (induction xs arbitrary: cp) auto

lemma map_of_filter_value:
  assumes "map_ok al"
  shows "map_of (filter (\<lambda>(k, v). P v) al) k = (case map_of al k of None \<Rightarrow> None | Some v \<Rightarrow> if P v then Some v else None)"
  using assms by (induction al) (auto simp: map_of_eq_None_iff split: option.splits)

lemma filter_request:
  assumes "map_ok al" "\<forall>(i, p) \<in> set al. pn_requestID p = i"
  shows "filter (\<lambda>(i, p). pn_requestID p = rid) al = (case map_of al rid of None \<Rightarrow> [] | Some p \<Rightarrow> [(rid, p)])"
  using assms
proof (induction al)
  case (Cons x al)
  obtain i p where x: "x = (i, p)" by (cases x)
  have "map_of al i = None" using Cons.prems x by (simp add: map_of_eq_None_iff)
  then show ?case using Cons x by (auto split: option.splits)
qed simp

definition events_for :: "string \<Rightarrow> cp \<Rightarrow> api_event list" where
  "events_for rid cp = filter (\<lambda>ev. ev_RequestID ev = rid) (produced cp)"

text \<open>What a resolver does to one request: nothing to the others.\<close>

lemma resolve_one:
  assumes ok: "pending_ok cp" and msg: "\<And>p. ev_RequestID (msg p) = pn_requestID p" and em: "cp_emitter cp \<noteq> Noop"
  shows "map_of (cp_pending (resolve P msg cp)) rid =
      (case map_of (cp_pending cp) rid of None \<Rightarrow> None | Some p \<Rightarrow> if P p then None else Some p)"
    and "events_for rid (resolve P msg cp) =
      events_for rid cp @ (case map_of (cp_pending cp) rid of None \<Rightarrow> [] | Some p \<Rightarrow> if P p then [msg p] else [])"
    and "pending_ok (resolve P msg cp)" and "cp_emitter (resolve P msg cp) = cp_emitter cp"
proof -
  have p: "map_ok (cp_pending cp)" "\<forall>(i, p) \<in> set (cp_pending cp). pn_requestID p = i"
    using ok by (auto simp: pending_ok_def)
  show "cp_emitter (resolve P msg cp) = cp_emitter cp" by (simp add: resolve_def fold_Emit)
  show "pending_ok (resolve P msg cp)"
    using p by (auto simp: pending_ok_def resolve_def fold_Emit distinct_map_filter)
  show "map_of (cp_pending (resolve P msg cp)) rid =
      (case map_of (cp_pending cp) rid of None \<Rightarrow> None | Some p \<Rightarrow> if P p then None else Some p)"
    by (simp add: resolve_def fold_Emit map_of_filter_value [OF p(1), of "\<lambda>p. \<not> P p"] split: option.splits)
  have "filter (\<lambda>ev. ev_RequestID ev = rid) (map (\<lambda>(i, p). msg p) (filter (\<lambda>(i, p). P p) (cp_pending cp)))
      = map (\<lambda>(i, p). msg p) (filter (\<lambda>(i, p). P p) (filter (\<lambda>(i, p). pn_requestID p = rid) (cp_pending cp)))"
    by (auto simp: filter_map comp_def msg case_prod_unfold conj_commute)
  also have "\<dots> = (case map_of (cp_pending cp) rid of None \<Rightarrow> [] | Some p \<Rightarrow> if P p then [msg p] else [])"
    by (simp add: filter_request [OF p] split: option.splits)
  finally show "events_for rid (resolve P msg cp) =
      events_for rid cp @ (case map_of (cp_pending cp) rid of None \<Rightarrow> [] | Some p \<Rightarrow> if P p then [msg p] else [])"
    using em by (simp add: events_for_def resolve_def fold_Emit) (simp add: produced_def)
qed

section \<open>Histories\<close>

datatype pending_op =
    Accept gtime string string pool_id edge_id edge_id u64 "rate_basis option"
  | Report gtime edge_report
  | Timeout gtime duration

primrec pending_step :: "pending_op \<Rightarrow> cp \<Rightarrow> cp" where
  "pending_step (Accept now rid oper i e src gen rate) cp = registerPendingEnriched now rid oper i e src gen rate cp"
| "pending_step (Report now r) cp = resolvePending now r cp"
| "pending_step (Timeout now timeout) cp = resultTimeoutSweep now timeout cp"

definition run_pending :: "pending_op list \<Rightarrow> cp \<Rightarrow> cp" where
  "run_pending ops cp = fold pending_step ops cp"

text \<open>\<open>RegisterPending\<close> is the enriched registration without enrichment.\<close>

lemma RegisterPending_eq: "RegisterPending now rid oper i e gen cp = pending_step (Accept now rid oper i e [] gen None) cp"
  by (simp add: RegisterPending_def registerPendingEnriched_def)

primrec accepts :: "string \<Rightarrow> pending_op \<Rightarrow> bool" where
  "accepts rid (Accept now rid' oper i e src gen rate) = (rid' = rid)"
| "accepts rid (Report now r) = False"
| "accepts rid (Timeout now timeout) = False"

text \<open>The event an operation resolves a waiting request with, if it does.\<close>

primrec resolution :: "pending_result \<Rightarrow> pending_op \<Rightarrow> api_event option" where
  "resolution p (Accept now rid oper i e src gen rate) = None"
| "resolution p (Report now r) = (if applied_by r p then Some (converged_event now p) else None)"
| "resolution p (Timeout now timeout) = (if too_old now timeout p then Some (timeout_event now p) else None)"

lemma pending_step_one:
  assumes "pending_ok cp" "cp_emitter cp \<noteq> Noop" "\<not> accepts rid op"
  shows "map_of (cp_pending (pending_step op cp)) rid =
      (case map_of (cp_pending cp) rid of None \<Rightarrow> None | Some p \<Rightarrow> if resolution p op = None then Some p else None)"
    and "events_for rid (pending_step op cp) = events_for rid cp @
      (case map_of (cp_pending cp) rid of None \<Rightarrow> [] | Some p \<Rightarrow> (case resolution p op of None \<Rightarrow> [] | Some ev \<Rightarrow> [ev]))"
proof -
  have req: "\<And>now p. ev_RequestID (converged_event now p) = pn_requestID p"
    "\<And>now p. ev_RequestID (timeout_event now p) = pn_requestID p" by simp_all
  show "map_of (cp_pending (pending_step op cp)) rid =
      (case map_of (cp_pending cp) rid of None \<Rightarrow> None | Some p \<Rightarrow> if resolution p op = None then Some p else None)"
    using assms resolve_one(1) [OF assms(1) req(1) assms(2)] resolve_one(1) [OF assms(1) req(2) assms(2)]
    by (cases op) (auto simp: resolve_eqs registerPendingEnriched_def update_conv' split: option.splits)
  show "events_for rid (pending_step op cp) = events_for rid cp @
      (case map_of (cp_pending cp) rid of None \<Rightarrow> [] | Some p \<Rightarrow> (case resolution p op of None \<Rightarrow> [] | Some ev \<Rightarrow> [ev]))"
    using assms resolve_one(2) [OF assms(1) req(1) assms(2)] resolve_one(2) [OF assms(1) req(2) assms(2)]
    by (cases op) (auto simp: resolve_eqs registerPendingEnriched_def events_for_def produced_def split: option.splits)
qed

lemma pending_step_ok:
  assumes "pending_ok cp" "cp_emitter cp \<noteq> Noop"
  shows "pending_ok (pending_step op cp) \<and> cp_emitter (pending_step op cp) = cp_emitter cp"
proof (cases op)
  case (Accept now rid oper i e src gen rate)
  then show ?thesis using assms(1)
    by (auto simp: pending_ok_def registerPendingEnriched_def distinct_update dest: in_update)
qed (use resolve_one(3,4) [OF assms(1) _ assms(2)] in \<open>simp_all add: resolve_eqs\<close>)

lemma run_pending_ok:
  assumes "pending_ok cp" "cp_emitter cp \<noteq> Noop"
  shows "pending_ok (run_pending ops cp) \<and> cp_emitter (run_pending ops cp) = cp_emitter cp"
  using assms
proof (induction ops arbitrary: cp)
  case (Cons op ops)
  then show ?case using pending_step_ok [OF Cons.prems, of op] by (simp add: run_pending_def)
qed (simp add: run_pending_def)

lemma run_idle:
  assumes "pending_ok cp" "cp_emitter cp \<noteq> Noop" "\<forall>op \<in> set ops. \<not> accepts rid op"
    and "map_of (cp_pending cp) rid = None"
  shows "map_of (cp_pending (run_pending ops cp)) rid = None \<and> events_for rid (run_pending ops cp) = events_for rid cp"
  using assms
proof (induction ops arbitrary: cp)
  case (Cons op ops)
  have step: "\<not> accepts rid op" using Cons.prems(3) by simp
  show ?case
    using Cons pending_step_ok [OF Cons.prems(1,2), of op] pending_step_one [OF Cons.prems(1,2) step]
    by (simp add: run_pending_def)
qed (simp add: run_pending_def)

text \<open>The first operation that resolves a waiting request ends it with its one event.\<close>

lemma run_waiting:
  assumes "pending_ok cp" "cp_emitter cp \<noteq> Noop" "\<forall>op \<in> set ops. \<not> accepts rid op"
    and "map_of (cp_pending cp) rid = Some p"
  shows "(case find (\<lambda>op. resolution p op \<noteq> None) ops of
      None \<Rightarrow> map_of (cp_pending (run_pending ops cp)) rid = Some p \<and> events_for rid (run_pending ops cp) = events_for rid cp
    | Some op \<Rightarrow> map_of (cp_pending (run_pending ops cp)) rid = None
        \<and> events_for rid (run_pending ops cp) = events_for rid cp @ [the (resolution p op)])"
  using assms
proof (induction ops arbitrary: cp)
  case (Cons op ops)
  let ?cp = "pending_step op cp"
  have step: "\<not> accepts rid op" and rest: "\<forall>op \<in> set ops. \<not> accepts rid op" using Cons.prems(3) by simp_all
  have ok: "pending_ok ?cp" "cp_emitter ?cp \<noteq> Noop" using pending_step_ok [OF Cons.prems(1,2), of op] Cons.prems(2) by auto
  note one = pending_step_one [OF Cons.prems(1,2) step, unfolded Cons.prems(4), simplified]
  have run: "run_pending (op # ops) cp = run_pending ops ?cp" by (simp add: run_pending_def)
  show ?case
  proof (cases "resolution p op")
    case None
    then have "map_of (cp_pending ?cp) rid = Some p" "events_for rid ?cp = events_for rid cp" using one by auto
    then show ?thesis using Cons.IH [OF ok rest] None unfolding run by (simp split: option.splits)
  next
    case (Some ev)
    then have "map_of (cp_pending ?cp) rid = None" "events_for rid ?cp = events_for rid cp @ [ev]" using one by auto
    then show ?thesis using run_idle [OF ok rest] Some run by simp
  qed
qed (simp add: run_pending_def)


definition demo_edge_report :: "edge_id \<Rightarrow> u64 \<Rightarrow> edge_report" where
  "demo_edge_report e gen = \<lparr>er_EdgeID = e, er_Generation = gen, er_InstalledPoolHash = 0,
     er_Health = \<lparr>h_State = HealthState ''ok'', h_FaultKind = FaultNone, h_AppliedVersion = 0, h_FIBDrift = 0,
       h_DeltasDropped = 0, h_VPPConnected = True, h_Phase = ''ready'', h_PolicersDesired = 0, h_PolicersActual = 0,
       h_SessionsDesired = 0, h_SessionsActual = 0\<rparr>, er_SessionBudget = 0, er_SoldBandwidthBps = 0\<rparr>"

definition demo_requests :: "pending_op list" where
  "demo_requests = [Accept 1 ''r1'' ''create'' 7 ''l1'' [] 5 None]
     @ Accept 2 ''r2'' ''create'' 8 ''l1'' [] 6 None
     # [Report 3 (demo_edge_report ''l1'' 5), Report 4 (demo_edge_report ''l1'' 6)] @ [Timeout 60 30]"


end
