(* ===== verification/Ledger.thy ===== *)
theory Ledger
  imports Etcd
begin

text \<open>
  The token ledger (\<open>internal/ledger/ledger.go\<close>): per-agent balances split over 64 counters in etcd,
  and the sweep that pays expired reservations back. The operations run on any etcd client; the
  lemmas hold in the locale \<open>etcd_client\<close>.
\<close>

section \<open>Operations\<close>

definition StateReserved :: string where
  "StateReserved = ''reserved''"

definition tokenShards :: nat where
  "tokenShards = 64"

record 's ledger =
  ld_kv :: "'s etcd"
  ld_prefix :: string
  ld_ttl :: duration

datatype ledger_error = LdClient string | LdParse

definition tokPrefix :: "'s ledger \<Rightarrow> string \<Rightarrow> string" where
  "tokPrefix ld agent = ld_prefix ld @ ''tok/'' @ agent @ ''/''"

definition tokShard :: "'s ledger \<Rightarrow> string \<Rightarrow> int \<Rightarrow> string" where
  "tokShard ld agent i = tokPrefix ld agent @ FormatInt i"

definition resvPrefix :: "'s ledger \<Rightarrow> string" where
  "resvPrefix ld = ld_prefix ld @ ''resv/''"

definition splitTokens :: "int \<Rightarrow> int list" where
  "splitTokens tokens =
     (let base = go_div tokens (int tokenShards);
          rm = go_rem tokens (int tokenShards);
          shards = replicate tokenShards base
      in shards[0 := wrap64 (shards ! 0 + rm)])"

definition putShardsOps :: "'s ledger \<Rightarrow> string \<Rightarrow> int \<Rightarrow> etcd_op list" where
  "putShardsOps ld agent tokens =
     map (\<lambda>i. OpPut (tokShard ld agent (int i)) (Txt (FormatInt (splitTokens tokens ! i)))) [0..<tokenShards]"

definition InitAgent :: "'s ledger \<Rightarrow> string \<Rightarrow> int \<Rightarrow> 's \<Rightarrow> (ledger_error + bool) \<times> 's" where
  "InitAgent ld agent tokens s =
     (case E_Txn (ld_kv ld) [CmpCreate (tokShard ld agent 0) 0] (putShardsOps ld agent tokens) s of
        (Inl e, s) \<Rightarrow> (Inl (LdClient e), s)
      | (Inr b, s) \<Rightarrow> (Inr b, s))"

definition SetTokens :: "'s ledger \<Rightarrow> string \<Rightarrow> int \<Rightarrow> 's \<Rightarrow> (ledger_error + unit) \<times> 's" where
  "SetTokens ld agent tokens s =
     (case E_Txn (ld_kv ld) [] (putShardsOps ld agent tokens) s of
        (Inl e, s) \<Rightarrow> (Inl (LdClient e), s)
      | (Inr _, s) \<Rightarrow> (Inr (), s))"

text \<open>A value read as text; a JSON document is not a number.\<close>

definition parse_bal :: "etcd_val \<Rightarrow> int option" where
  "parse_bal v = (case v of Txt t \<Rightarrow> ParseInt t | _ \<Rightarrow> None)"

definition add_shard :: "int \<Rightarrow> string \<times> kv \<Rightarrow> ledger_error + int" where
  "add_shard acc kv = (case parse_bal (kv_Value (snd kv)) of None \<Rightarrow> Inl LdParse | Some v \<Rightarrow> Inr (wrap64 (acc + v)))"

definition ld_Remaining :: "'s ledger \<Rightarrow> string \<Rightarrow> 's \<Rightarrow> (ledger_error + int) \<times> 's" where
  "ld_Remaining ld agent s =
     (case E_List (ld_kv ld) (tokPrefix ld agent) s of
        (Inl e, s) \<Rightarrow> (Inl (LdClient e), s)
      | (Inr (kvs, _), s) \<Rightarrow> (foldE add_shard 0 kvs, s))"

definition credit_ops :: "'s ledger \<Rightarrow> string \<Rightarrow> reservation \<Rightarrow> int \<Rightarrow> etcd_op list" where
  "credit_ops ld resvKey r bal =
     [OpPut (tokShard ld (rv_Agent r) (rv_Shard r)) (Txt (FormatInt (wrap64 (bal + rv_Amount r)))), OpDelete resvKey]"

definition returnOne ::
  "'s ledger \<Rightarrow> string \<Rightarrow> int \<Rightarrow> reservation \<Rightarrow> 's \<Rightarrow> (ledger_error + bool) \<times> 's"
where
  "returnOne ld resvKey resvRev r s =
     (let shardKey = tokShard ld (rv_Agent r) (rv_Shard r) in
      case E_Get (ld_kv ld) shardKey s of
        (Inl e, s) \<Rightarrow> (Inl (LdClient e), s)
      | (Inr x, s) \<Rightarrow>
          (case (case x of None \<Rightarrow> Some (0, 0)
                 | Some kv \<Rightarrow> map_option (\<lambda>b. (b, kv_ModRevision kv)) (parse_bal (kv_Value kv))) of
             None \<Rightarrow> (Inl LdParse, s)
           | Some (bal, shardRev) \<Rightarrow>
               (case E_Txn (ld_kv ld) [CmpMod resvKey resvRev, CmpMod shardKey shardRev]
                       (credit_ops ld resvKey r bal) s of
                  (Inl e, s) \<Rightarrow> (Inl (LdClient e), s)
                | (Inr b, s) \<Rightarrow> (Inr b, s))))"

text \<open>
  Decoding a value as a reservation: another JSON object decodes with every field zero, plain text does
  not decode.
\<close>

definition zero_resv :: reservation where
  "zero_resv = \<lparr>rv_Agent = [], rv_Amount = 0, rv_State = [], rv_Pool = [], rv_CreatedAt = 0, rv_ExpireAt = 0, rv_Shard = 0\<rparr>"

definition unmarshal_resv :: "etcd_val \<Rightarrow> reservation option" where
  "unmarshal_resv v = (case v of JResv r \<Rightarrow> Some r | JAgent _ \<Rightarrow> Some zero_resv | JCtrl _ \<Rightarrow> Some zero_resv | Txt _ \<Rightarrow> None)"

text \<open>The loop of \<open>Reclaim\<close>; an error carries the number reclaimed before it.\<close>

fun reclaim_loop ::
  "'s ledger \<Rightarrow> int \<Rightarrow> nat \<Rightarrow> (string \<times> kv) list \<Rightarrow> 's \<Rightarrow> (nat \<times> ledger_error option) \<times> 's"
where
  "reclaim_loop ld nowMs n [] s = ((n, None), s)"
| "reclaim_loop ld nowMs n ((k, kv) # kvs) s =
     (case unmarshal_resv (kv_Value kv) of
        None \<Rightarrow> reclaim_loop ld nowMs n kvs s
      | Some r \<Rightarrow>
          if rv_State r \<noteq> StateReserved \<or> nowMs \<le> rv_ExpireAt r then reclaim_loop ld nowMs n kvs s
          else
            (case returnOne ld k (kv_ModRevision kv) r s of
               (Inl e, s) \<Rightarrow> ((n, Some e), s)
             | (Inr ok, s) \<Rightarrow> reclaim_loop ld nowMs (if ok then n + 1 else n) kvs s))"

definition Reclaim :: "'s ledger \<Rightarrow> int \<Rightarrow> 's \<Rightarrow> (nat \<times> ledger_error option) \<times> 's" where
  "Reclaim ld nowMs s =
     (case E_List (ld_kv ld) (resvPrefix ld) s of
        (Inl e, s) \<Rightarrow> ((0, Some (LdClient e)), s)
      | (Inr (kvs, _), s) \<Rightarrow> reclaim_loop ld nowMs 0 kvs s)"

section \<open>The split of a balance\<close>

lemma go_div_between:
  assumes "0 < b"
  shows "min 0 a \<le> go_div a b \<and> go_div a b \<le> max 0 a"
    and "min 0 a \<le> go_div a b + go_rem a b \<and> go_div a b + go_rem a b \<le> max 0 a"
proof -
  have neg: "go_div (- a) b = - go_div a b" "go_rem (- a) b = - go_rem a b"
    by (simp_all add: go_div_def go_rem_def sgn_if)
  have pos: "0 \<le> go_div a b \<and> go_div a b \<le> a \<and> 0 \<le> go_div a b + go_rem a b \<and> go_div a b + go_rem a b \<le> a"
    if "0 \<le> a" for a
  proof -
    have q: "go_div a b = a div b" using that assms by (rule go_div_pos)
    then have r: "go_rem a b = a mod b" by (simp add: go_rem_def minus_mult_div_eq_mod)
    have "0 \<le> a div b" "0 \<le> a mod b" "a div b * b + a mod b = a"
      using that assms by (auto simp: pos_imp_zdiv_nonneg_iff)
    moreover have "a div b * 1 \<le> a div b * b"
      using that assms by (intro mult_left_mono) (auto simp: pos_imp_zdiv_nonneg_iff)
    ultimately show ?thesis unfolding q r by linarith
  qed
  show "min 0 a \<le> go_div a b \<and> go_div a b \<le> max 0 a"
    "min 0 a \<le> go_div a b + go_rem a b \<and> go_div a b + go_rem a b \<le> max 0 a"
    using pos [of a] pos [of "- a"] neg by (cases "0 \<le> a"; simp)+
qed

abbreviation i64_range :: "int \<Rightarrow> bool" where
  "i64_range x \<equiv> - (2 ^ 63) \<le> x \<and> x < 2 ^ 63"

lemma length_splitTokens: "length (splitTokens t) = 64"
  by (simp add: splitTokens_def tokenShards_def Let_def)

lemma splitTokens_nth:
  assumes "i64_range t" "i < 64"
  shows "splitTokens t ! i = (if i = 0 then go_div t 64 + go_rem t 64 else go_div t 64)"
proof -
  have "i64_range (go_div t 64 + go_rem t 64)" using go_div_between(2) [of 64 t] assms(1) by linarith
  then show ?thesis using assms(2) by (simp add: splitTokens_def tokenShards_def Let_def wrap64_id)
qed

lemma splitTokens_range: "i64_range t \<Longrightarrow> i < 64 \<Longrightarrow> i64_range (splitTokens t ! i)"
  using go_div_between [of 64 t] by (auto simp: splitTokens_nth)

lemma splitTokens_sum:
  assumes "i64_range t"
  shows "(\<Sum>i<64. splitTokens t ! i) = t"
proof -
  have "(\<Sum>i<64. splitTokens t ! i) = (\<Sum>i<Suc 63. if i = 0 then go_div t 64 + go_rem t 64 else go_div t 64)"
    using assms by (intro sum.cong) (simp_all add: splitTokens_nth)
  also have "\<dots> = 64 * go_div t 64 + go_rem t 64"
    by (subst sum.lessThan_Suc_shift) simp
  finally show ?thesis by (simp add: go_div_rem)
qed

lemma ParseInt_FormatInt: "i64_range n \<Longrightarrow> ParseInt (FormatInt n) = Some n"
proof (cases "n < 0")
  case True
  assume n: "i64_range n"
  then have "parse_digits 0 (show_dec (- n)) = Some (- n)" using True by (intro parse_show_dec) simp_all
  then show ?thesis using True n by (simp add: ParseInt_def FormatInt_def show_dec_not_Nil)
next
  case False
  assume n: "i64_range n"
  then have p: "parse_digits 0 (show_dec n) = Some n" using False by (intro parse_show_dec) simp_all
  obtain c cs where c: "show_dec n = c # cs" using show_dec_not_Nil by (cases "show_dec n") auto
  have "digit_val c \<noteq> None" using p c by (auto split: option.splits)
  then have "c \<noteq> CHR ''-''" "c \<noteq> CHR ''+''" by (auto simp: digit_val_def)
  then show ?thesis using False n p c by (simp add: ParseInt_def FormatInt_def)
qed

section \<open>Reading back what was set\<close>

definition val_at :: "etcd_log \<Rightarrow> string \<Rightarrow> etcd_val option" where
  "val_at l k = map_option kv_Value (kv_at l k)"

lemma tokShard_inj: "inj_on (\<lambda>i. tokShard ld agent (int i)) {..<64}"
proof (rule inj_onI)
  fix i j :: nat
  assume "i \<in> {..<64}" "j \<in> {..<64}" "tokShard ld agent (int i) = tokShard ld agent (int j)"
  then have "ParseInt (FormatInt (int i)) = ParseInt (FormatInt (int j))" by (simp add: tokShard_def)
  then show "i = j" using \<open>i \<in> _\<close> \<open>j \<in> _\<close> by (simp add: ParseInt_FormatInt)
qed

lemma apply_ops_puts:
  assumes "inj_on f (set is)" "i \<in> set is"
  shows "map_option kv_Value (apply_ops r (f i) cur (map (\<lambda>i. OpPut (f i) (g i)) is)) = Some (g i)"
  using assms
proof (induction "is" rule: rev_induct)
  case (snoc j js)
  have "apply_ops r (f i) cur (map (\<lambda>i. OpPut (f i) (g i)) (js @ [j]))
      = apply_op r (f i) (apply_ops r (f i) cur (map (\<lambda>i. OpPut (f i) (g i)) js)) (OpPut (f j) (g j))"
    by (simp add: apply_ops_def)
  moreover have "f j = f i \<longleftrightarrow> j = i" using snoc.prems by (auto simp: inj_on_def)
  ultimately show ?case using snoc by (auto simp: apply_op_def inj_on_def)
qed simp

text \<open>Transactions that write a balance only by setting it to the same amount.\<close>

definition only_sets :: "'s ledger \<Rightarrow> string \<Rightarrow> int \<Rightarrow> etcd_log \<Rightarrow> bool" where
  "only_sets ld agent tokens r \<longleftrightarrow> (\<forall>ops \<in> set r. ops = putShardsOps ld agent tokens \<or>
     (\<forall>op \<in> set ops. \<not> prefix (tokPrefix ld agent) (op_key op)))"

definition shard_keys :: "'s ledger \<Rightarrow> string \<Rightarrow> string set" where
  "shard_keys ld agent = (\<lambda>i. tokShard ld agent (int i)) ` {..<64}"

lemma keys_putShardsOps: "op_key ` set (putShardsOps ld agent tokens) = shard_keys ld agent"
  by (force simp: putShardsOps_def shard_keys_def op_key_def tokenShards_def)

lemma own_keys_sets:
  assumes "only_sets ld agent tokens r"
    and "\<forall>k. prefix (tokPrefix ld agent) k \<and> kv_at l0 k \<noteq> None \<longrightarrow> k \<in> shard_keys ld agent"
  shows "\<forall>k. prefix (tokPrefix ld agent) k \<and> kv_at (l0 @ r) k \<noteq> None \<longrightarrow> k \<in> shard_keys ld agent"
  using assms
proof (induction r rule: rev_induct)
  case (snoc ops r)
  have IH: "prefix (tokPrefix ld agent) k \<and> kv_at (l0 @ r) k \<noteq> None \<Longrightarrow> k \<in> shard_keys ld agent" for k
    using snoc by (auto simp: only_sets_def)
  have ops: "ops = putShardsOps ld agent tokens \<or> (\<forall>op \<in> set ops. \<not> prefix (tokPrefix ld agent) (op_key op))"
    using snoc.prems(1) by (auto simp: only_sets_def)
  show ?case
  proof (intro allI impI)
    fix k assume k: "prefix (tokPrefix ld agent) k \<and> kv_at (l0 @ r @ [ops]) k \<noteq> None"
    show "k \<in> shard_keys ld agent"
    proof (cases "touches k ops")
      case True
      then show ?thesis using ops k keys_putShardsOps [of ld agent tokens] by (auto simp: touches_def)
    next
      case False
      then show ?thesis using k IH kv_at_snoc_untouched [OF False, of "l0 @ r"] by simp
    qed
  qed
qed simp

lemma val_at_set:
  assumes "i < 64"
  shows "val_at (l @ [putShardsOps ld agent tokens]) (tokShard ld agent (int i)) = Some (Txt (FormatInt (splitTokens tokens ! i)))"
  using assms tokShard_inj [of ld agent]
  by (simp add: val_at_def kv_at_snoc putShardsOps_def tokenShards_def atLeast0LessThan apply_ops_puts
      [where f = "\<lambda>i. tokShard ld agent (int i)" and g = "\<lambda>i. Txt (FormatInt (splitTokens tokens ! i))"])

lemma val_at_kept:
  assumes "only_sets ld agent tokens r" "i < 64"
    and "val_at l (tokShard ld agent (int i)) = Some (Txt (FormatInt (splitTokens tokens ! i)))"
  shows "val_at (l @ r) (tokShard ld agent (int i)) = Some (Txt (FormatInt (splitTokens tokens ! i)))"
  using assms(1)
proof (induction r rule: rev_induct)
  case (snoc ops r)
  let ?k = "tokShard ld agent (int i)"
  show ?case
  proof (cases "ops = putShardsOps ld agent tokens")
    case True
    then show ?thesis using val_at_set [OF assms(2), of "l @ r"] by simp
  next
    case False
    moreover have "prefix (tokPrefix ld agent) ?k" by (simp add: tokShard_def)
    ultimately have "\<not> touches ?k ops" using snoc.prems by (auto simp: only_sets_def touches_def)
    then show ?thesis using snoc kv_at_snoc_untouched [of ?k ops "l @ r"] by (simp add: val_at_def only_sets_def)
  qed
qed (simp add: assms(3))

lemma fold_add_shard:
  assumes "\<forall>(k, x) \<in> set kvs. parse_bal (kv_Value x) = Some (g k)" "i64_range acc"
  shows "foldE add_shard acc kvs = Inr (wrap64 (acc + sum_list (map (\<lambda>kx. g (fst kx)) kvs)))"
  using assms
proof (induction kvs arbitrary: acc)
  case (Cons kx kvs)
  obtain k x where kx: "kx = (k, x)" by force
  have "foldE add_shard acc (kx # kvs) = foldE add_shard (wrap64 (acc + g k)) kvs"
    using Cons.prems(1) kx by (simp add: add_shard_def bindE_simps)
  also have "\<dots> = Inr (wrap64 (wrap64 (acc + g k) + sum_list (map (\<lambda>kx. g (fst kx)) kvs)))"
    using Cons.prems(1) wrap64_range by (intro Cons.IH) auto
  finally show ?case by (simp add: wrap64_add_left kx add.assoc)
qed (simp add: wrap64_id)

text \<open>What a read of a balance returns when exactly the shard keys exist and hold the split of an amount.\<close>

lemma remaining_value:
  assumes t: "i64_range tokens"
    and v: "\<forall>i < 64. val_at l (tokShard ld agent (int i)) = Some (Txt (FormatInt (splitTokens tokens ! i)))"
    and own: "\<forall>k. prefix (tokPrefix ld agent) k \<and> kv_at l k \<noteq> None \<longrightarrow> k \<in> shard_keys ld agent"
  shows "foldE add_shard 0 (kvs_under (tokPrefix ld agent) l) = Inr tokens"
proof -
  let ?kvs = "kvs_under (tokPrefix ld agent) l" and ?key = "\<lambda>i. tokShard ld agent (int i)"
  define g where "g k = the (parse_bal (the (val_at l k)))" for k
  have pt: "ParseInt (FormatInt (splitTokens tokens ! i)) = Some (splitTokens tokens ! i)" if "i < 64" for i
    by (rule ParseInt_FormatInt [OF splitTokens_range [OF t that]])
  have g: "g (?key i) = splitTokens tokens ! i" if "i < 64" for i
    using that v pt by (simp add: g_def parse_bal_def)
  have keys: "fst ` set ?kvs = shard_keys ld agent"
  proof -
    have "k \<in> fst ` set ?kvs \<longleftrightarrow> k \<in> shard_keys ld agent" for k
    proof -
      have "k \<in> fst ` set ?kvs \<longleftrightarrow> (\<exists>x. (k, x) \<in> set ?kvs)" by force
      then have "k \<in> fst ` set ?kvs \<longleftrightarrow> prefix (tokPrefix ld agent) k \<and> kv_at l k \<noteq> None"
        by (auto simp: kvs_under_iff)
      moreover have "prefix (tokPrefix ld agent) k \<and> kv_at l k \<noteq> None" if k: "k \<in> shard_keys ld agent"
      proof -
        obtain i where i: "i < 64" "k = ?key i" using k by (auto simp: shard_keys_def)
        then have "val_at l k \<noteq> None" using v by simp
        then show ?thesis using i(2) by (auto simp: val_at_def tokShard_def)
      qed
      ultimately show ?thesis using own by blast
    qed
    then show ?thesis by blast
  qed
  have "\<forall>(k, x) \<in> set ?kvs. parse_bal (kv_Value x) = Some (g k)"
  proof (clarify)
    fix k x assume kx: "(k, x) \<in> set ?kvs"
    then have "k \<in> shard_keys ld agent" using keys by (force simp: image_iff)
    then obtain i where i: "i < 64" "k = ?key i" by (auto simp: shard_keys_def)
    have "kv_at l k = Some x" using kx by (simp add: kvs_under_iff)
    then have "kv_Value x = Txt (FormatInt (splitTokens tokens ! i))" using v i by (auto simp: val_at_def)
    then show "parse_bal (kv_Value x) = Some (g k)"
      using g i pt by (simp add: parse_bal_def)
  qed
  then have "foldE add_shard 0 ?kvs = Inr (wrap64 (sum_list (map (\<lambda>kx. g (fst kx)) ?kvs)))"
    using fold_add_shard [of ?kvs g 0] by simp
  also have "sum_list (map (\<lambda>kx. g (fst kx)) ?kvs) = sum_list (map g (map fst ?kvs))" by (simp add: comp_def)
  also have "\<dots> = sum g (shard_keys ld agent)"
    using keys distinct_kvs_under [of "tokPrefix ld agent" l] by (simp only: sum_list_distinct_conv_sum_set set_map)
  also have "\<dots> = (\<Sum>i<64. splitTokens tokens ! i)"
    unfolding shard_keys_def using g by (simp add: sum.reindex [OF tokShard_inj])
  finally show ?thesis using t by (simp add: splitTokens_sum wrap64_id)
qed

text \<open>A balance reads back as it was set: after SetTokens succeeded, Remaining returns exactly that
  amount, for every 64-bit amount (negative ones too) and any etcd client with the documented behaviour,
  provided that meanwhile nobody writes this agent's counters except to set the same amount and that
  nothing but the 64 counters lies under the agent's key prefix.\<close>

theorem SetTokens_Remaining:
  assumes c: "etcd_client (ld_kv ld) log" and t: "i64_range tokens"
    and set: "SetTokens ld agent tokens s = (Inr (), s1)" and rd: "ld_Remaining ld agent s1 = (Inr n, s2)"
    and own: "\<forall>k. prefix (tokPrefix ld agent) k \<and> kv_at (log s) k \<noteq> None \<longrightarrow> k \<in> shard_keys ld agent"
    and quiet: "only_sets ld agent tokens (drop (length (log s)) (log s2))"
  shows "n = tokens"
proof -
  let ?ops = "putShardsOps ld agent tokens"
  obtain b where "E_Txn (ld_kv ld) [] ?ops s = (Inr b, s1)"
    using set by (auto simp: SetTokens_def split: prod.splits sum.splits)
  then have "\<exists>l. prefix (log s) l \<and> prefix (l @ [?ops]) (log s1)"
    using etcd_client.txn_true [OF c] etcd_client.txn_false [OF c] by (cases b) fastforce+
  then obtain l where l: "prefix (log s) l" "prefix (l @ [?ops]) (log s1)" by blast
  obtain kvs rv where rd': "E_List (ld_kv ld) (tokPrefix ld agent) s1 = (Inr (kvs, rv), s2)"
    and n: "foldE add_shard 0 kvs = Inr n"
    using rd by (auto simp: ld_Remaining_def split: prod.splits sum.splits)
  obtain l2 where l2: "prefix (log s1) l2" "prefix l2 (log s2)" "kvs = kvs_under (tokPrefix ld agent) l2"
    using etcd_client.list_ok [OF c rd'] by blast
  obtain r1 where r1: "l = log s @ r1" using l(1) by (auto simp: prefix_def)
  obtain r2 where r2: "l2 = l @ ?ops # r2" using prefix_order.trans [OF l(2) l2(1)] by (auto simp: prefix_def)
  have "only_sets ld agent tokens (r1 @ ?ops # r2)"
    using quiet l2(2) r1 r2 by (auto simp: prefix_def only_sets_def)
  then have q: "only_sets ld agent tokens (r1 @ ?ops # r2)" "only_sets ld agent tokens r2" by (auto simp: only_sets_def)
  have l2': "l2 = (l @ [?ops]) @ r2" by (simp add: r2)
  have "\<forall>i < 64. val_at l2 (tokShard ld agent (int i)) = Some (Txt (FormatInt (splitTokens tokens ! i)))"
    unfolding l2' by (intro allI impI val_at_kept [OF q(2)] val_at_set)
  moreover have "l2 = log s @ r1 @ ?ops # r2" by (simp add: r1 r2)
  then have "\<forall>k. prefix (tokPrefix ld agent) k \<and> kv_at l2 k \<noteq> None \<longrightarrow> k \<in> shard_keys ld agent"
    using own_keys_sets [OF q(1) own] by (simp only:)
  ultimately have "foldE add_shard 0 (kvs_under (tokPrefix ld agent) l2) = Inr tokens"
    by (rule remaining_value [OF t])
  then show ?thesis using n l2(3) by simp
qed

definition demo_ledger :: "cluster ledger" where
  "demo_ledger = \<lparr>ld_kv = cluster_client, ld_prefix = ''sbw/'', ld_ttl = seconds 30\<rparr>"

definition demo_quiet_cluster :: cluster where
  "demo_quiet_cluster = \<lparr>cl_log = [], cl_peers = [], cl_faults = []\<rparr>"

lemma demo_set: "SetTokens demo_ledger ''a'' 1000 demo_quiet_cluster
    = (Inr (), \<lparr>cl_log = [putShardsOps demo_ledger ''a'' 1000], cl_peers = [], cl_faults = []\<rparr>)"
  by (simp add: SetTokens_def demo_ledger_def demo_quiet_cluster_def cluster_client_def cluster_txn_def cluster_step_def)

lemma demo_readable:
  "\<exists>n. ld_Remaining demo_ledger ''a'' \<lparr>cl_log = [putShardsOps demo_ledger ''a'' 1000], cl_peers = [], cl_faults = []\<rparr>
     = (Inr n, \<lparr>cl_log = [putShardsOps demo_ledger ''a'' 1000], cl_peers = [], cl_faults = []\<rparr>)"
proof -
  let ?l = "[putShardsOps demo_ledger ''a'' 1000]"
  have "\<forall>i < 64. val_at ?l (tokShard demo_ledger ''a'' (int i)) = Some (Txt (FormatInt (splitTokens 1000 ! i)))"
    using val_at_set [of _ "[]" demo_ledger "''a''" 1000] unfolding append_Nil by blast
  moreover have "\<forall>k. prefix (tokPrefix demo_ledger ''a'') k \<and> kv_at ?l k \<noteq> None \<longrightarrow> k \<in> shard_keys demo_ledger ''a''"
    using own_keys_sets [of demo_ledger "''a''" 1000 ?l "[]"] by (simp add: only_sets_def)
  ultimately have "foldE add_shard 0 (kvs_under (tokPrefix demo_ledger ''a'') ?l) = Inr 1000"
    by (intro remaining_value) simp_all
  then show ?thesis
    by (simp add: ld_Remaining_def demo_ledger_def cluster_client_def cluster_read_def cluster_step_def)
qed

theorem SetTokens_Remaining_witness:
  "\<exists>s1. SetTokens demo_ledger ''a'' 1000 demo_quiet_cluster = (Inr (), s1)
     \<and> ld_Remaining demo_ledger ''a'' s1 = (Inr 1000, s1)"
proof -
  obtain n where n: "ld_Remaining demo_ledger ''a'' \<lparr>cl_log = [putShardsOps demo_ledger ''a'' 1000], cl_peers = [], cl_faults = []\<rparr>
     = (Inr n, \<lparr>cl_log = [putShardsOps demo_ledger ''a'' 1000], cl_peers = [], cl_faults = []\<rparr>)"
    using demo_readable by blast
  have "etcd_client (ld_kv demo_ledger) cl_log"
    using cluster.etcd_client_axioms by (simp add: demo_ledger_def)
  from SetTokens_Remaining [OF this _ demo_set n] have "n = 1000"
    by (simp add: demo_quiet_cluster_def only_sets_def)
  then show ?thesis using demo_set n by blast
qed

section \<open>Reclaim pays each expired reservation once\<close>

text \<open>The balance of one counter; an absent counter is zero.\<close>

definition bal_at :: "etcd_log \<Rightarrow> string \<Rightarrow> int option" where
  "bal_at l k = (case val_at l k of None \<Rightarrow> Some 0 | Some v \<Rightarrow> parse_bal v)"

text \<open>Transaction \<open>ops\<close> on log \<open>l\<close> deletes the expired reservation at \<open>k\<close> and credits its amount.\<close>

definition pays :: "'s ledger \<Rightarrow> int \<Rightarrow> etcd_log \<Rightarrow> string \<Rightarrow> etcd_op list \<Rightarrow> bool" where
  "pays ld nowMs l k ops \<longleftrightarrow>
     (\<exists>r bal. val_at l k = Some (JResv r) \<and> rv_State r = StateReserved \<and> rv_ExpireAt r < nowMs \<and>
        bal_at l (tokShard ld (rv_Agent r) (rv_Shard r)) = Some bal \<and>
        val_at (l @ [ops]) k = None \<and>
        val_at (l @ [ops]) (tokShard ld (rv_Agent r) (rv_Shard r)) = Some (Txt (FormatInt (wrap64 (bal + rv_Amount r)))) \<and>
        (\<forall>k'. k' \<noteq> k \<longrightarrow> k' \<noteq> tokShard ld (rv_Agent r) (rv_Shard r) \<longrightarrow> kv_at (l @ [ops]) k' = kv_at l k'))"

lemma unmarshal_reserved: "unmarshal_resv v = Some r \<Longrightarrow> rv_State r = StateReserved \<Longrightarrow> v = JResv r"
  by (auto simp: unmarshal_resv_def zero_resv_def StateReserved_def split: etcd_val.splits)

lemma tok_not_resv: "prefix (resvPrefix ld) k \<Longrightarrow> k \<noteq> tokShard ld agent i"
  by (auto simp: resvPrefix_def tokShard_def tokPrefix_def prefix_def)

lemma credit_effect:
  assumes "prefix (resvPrefix ld) k"
  shows "val_at (l @ [credit_ops ld k r bal]) k = None"
    and "val_at (l @ [credit_ops ld k r bal]) (tokShard ld (rv_Agent r) (rv_Shard r))
      = Some (Txt (FormatInt (wrap64 (bal + rv_Amount r))))"
    and "k' \<noteq> k \<Longrightarrow> k' \<noteq> tokShard ld (rv_Agent r) (rv_Shard r) \<Longrightarrow> kv_at (l @ [credit_ops ld k r bal]) k' = kv_at l k'"
  using tok_not_resv [OF assms, of "rv_Agent r" "rv_Shard r"]
  by (auto simp: val_at_def kv_at_snoc apply_ops_def apply_op_def credit_ops_def)

context etcd_client
begin

lemma returnOne_grows:
  assumes "ld_kv ld = cl" "returnOne ld k rv r s = (b, s')"
  shows "prefix (log s) (log s')"
proof -
  obtain y s1 where g: "E_Get cl (tokShard ld (rv_Agent r) (rv_Shard r)) s = (y, s1)" by force
  have "prefix (log s1) (log s')"
    using assms(2) g unfolding returnOne_def Let_def assms(1)
    by (auto dest!: txn_grows split: prod.splits sum.splits option.splits)
  then show ?thesis using get_grows [OF g] by (blast intro: prefix_order.trans)
qed

lemma returnOne_pays:
  assumes cl: "ld_kv ld = cl" and r: "returnOne ld k (kv_ModRevision x) rv s = (Inr b, s')"
    and seen: "kv_at l0 k = Some x" "prefix l0 (log s)" "kv_Value x = JResv rv"
    and due: "rv_State rv = StateReserved" "rv_ExpireAt rv < nowMs" and k: "prefix (resvPrefix ld) k"
  shows "prefix (log s) (log s') \<and>
    (b \<longrightarrow> (\<exists>l ops. prefix (log s) l \<and> prefix (l @ [ops]) (log s') \<and> pays ld nowMs l k ops))"
proof -
  let ?sk = "tokShard ld (rv_Agent rv) (rv_Shard rv)"
  obtain y s1 where g: "E_Get cl ?sk s = (Inr y, s1)"
    using r cl by (auto simp: returnOne_def Let_def split: prod.splits sum.splits)
  obtain bal shardRev where bal: "(case y of None \<Rightarrow> Some (0, 0)
      | Some kv \<Rightarrow> map_option (\<lambda>b. (b, kv_ModRevision kv)) (parse_bal (kv_Value kv))) = Some (bal, shardRev)"
    and t: "E_Txn cl [CmpMod k (kv_ModRevision x), CmpMod ?sk shardRev] (credit_ops ld k rv bal) s1 = (Inr b, s')"
    using r cl g by (auto simp: returnOne_def Let_def split: prod.splits sum.splits option.splits)
  obtain lg where lg: "prefix (log s) lg" "prefix lg (log s1)" "y = kv_at lg ?sk" using get_ok [OF g] by blast
  have grows: "prefix (log s) (log s')" by (rule returnOne_grows [OF cl r])
  have "\<exists>l ops. prefix (log s) l \<and> prefix (l @ [ops]) (log s') \<and> pays ld nowMs l k ops" if b
  proof -
    have "E_Txn cl [CmpMod k (kv_ModRevision x), CmpMod ?sk shardRev] (credit_ops ld k rv bal) s1 = (Inr True, s')"
      using t that by simp
    then obtain l where l: "prefix (log s1) l" "cmp_holds l (CmpMod k (kv_ModRevision x))" "cmp_holds l (CmpMod ?sk shardRev)"
      "prefix (l @ [credit_ops ld k rv bal]) (log s')"
      using txn_true by fastforce
    have sl: "prefix (log s) l" using lg(1,2) l(1) by (meson prefix_order.trans)
    have "mod_rev l0 k = mod_rev l k" using l(2) seen(1) by (simp add: cmp_holds_def mod_rev_def)
    then have "kv_at l k = Some x" using mod_rev_no_ABA [OF _ prefix_order.trans [OF seen(2) sl]] seen(1) by simp
    moreover have "mod_rev lg ?sk = mod_rev l ?sk"
      using bal lg(3) l(3) by (auto simp: mod_rev_def cmp_holds_def split: option.splits)
    then have "kv_at lg ?sk = kv_at l ?sk"
      by (rule mod_rev_no_ABA) (rule prefix_order.trans [OF lg(2) l(1)])
    then have "bal_at l ?sk = Some bal"
      using bal lg(3) by (auto simp: bal_at_def val_at_def split: option.splits)
    ultimately have "pays ld nowMs l k (credit_ops ld k rv bal)"
      using seen(3) due credit_effect [OF k, where l = l and r = rv and bal = bal] unfolding pays_def
      by (intro exI [of _ rv] exI [of _ bal]) (simp add: val_at_def)
    then show ?thesis using l(4) sl by blast
  qed
  then show ?thesis using grows by blast
qed

text \<open>The transactions of a run that pay, as positions in the final log with the reservation's key.\<close>

definition paid :: "'s ledger \<Rightarrow> int \<Rightarrow> 's \<Rightarrow> 's \<Rightarrow> (nat \<times> string) list \<Rightarrow> bool" where
  "paid ld nowMs s s' ps \<longleftrightarrow> distinct (map snd ps) \<and>
     (\<forall>(p, k) \<in> set ps. length (log s) \<le> p \<and> p < length (log s') \<and> pays ld nowMs (take p (log s')) k (log s' ! p))"

lemma paid_mono:
  assumes "paid ld nowMs s1 s2 ps" "prefix (log s) (log s1)" "prefix (log s2) (log s')"
  shows "paid ld nowMs s s' ps"
proof -
  obtain r where r: "log s' = log s2 @ r" using assms(3) by (auto simp: prefix_def)
  have "length (log s) \<le> length (log s1)" using assms(2) by (rule prefix_length_le)
  then show ?thesis using assms(1) by (fastforce simp: paid_def r nth_append)
qed

lemma reclaim_loop_paid:
  assumes "ld_kv ld = cl" and "reclaim_loop ld nowMs n kvs s = ((m, err), s')"
    and "\<forall>(k, x) \<in> set kvs. kv_at l0 k = Some x \<and> prefix (resvPrefix ld) k" "distinct (map fst kvs)"
    and "prefix l0 (log s)"
  shows "prefix (log s) (log s') \<and> (\<exists>ps. paid ld nowMs s s' ps \<and> m = n + length ps \<and> snd ` set ps \<subseteq> fst ` set kvs)"
  using assms(2-5)
proof (induction kvs arbitrary: n s)
  case Nil
  then show ?case by (intro conjI exI [of _ "[]"]) (auto simp: paid_def)
next
  case (Cons kx kvs)
  obtain k x where kx: "kx = (k, x)" by force
  have tl: "\<forall>(k, x) \<in> set kvs. kv_at l0 k = Some x \<and> prefix (resvPrefix ld) k" "distinct (map fst kvs)"
    using Cons.prems by auto
  have wide: ?case if "prefix (log s) (log s')" "paid ld nowMs s s' ps" "m = n + length ps" "snd ` set ps \<subseteq> fst ` set (kx # kvs)" for ps
    using that by blast
  show ?case
  proof (cases "\<exists>r. unmarshal_resv (kv_Value x) = Some r \<and> rv_State r = StateReserved \<and> rv_ExpireAt r < nowMs")
    case False
    then have "reclaim_loop ld nowMs n kvs s = ((m, err), s')"
      using Cons.prems(1) kx by (auto split: option.splits)
    from Cons.IH [OF this tl Cons.prems(4)] show ?thesis by auto
  next
    case True
    then obtain r where r: "unmarshal_resv (kv_Value x) = Some r" "rv_State r = StateReserved" "rv_ExpireAt r < nowMs" by blast
    have xr: "kv_at l0 k = Some x" "prefix (resvPrefix ld) k" "kv_Value x = JResv r"
      using Cons.prems(2) kx unmarshal_reserved r by auto
    obtain b s1 where one: "returnOne ld k (kv_ModRevision x) r s = (b, s1)" by force
    show ?thesis
    proof (cases b)
      case (Inl e)
      then have "m = n" "s' = s1" using Cons.prems(1) kx r one by auto
      moreover have "prefix (log s) (log s1)" by (rule returnOne_grows [OF assms(1) one])
      ultimately show ?thesis by (intro conjI exI [of _ "[]"]) (auto simp: paid_def)
    next
      case (Inr ok)
      note pay = returnOne_pays [OF assms(1) one [unfolded Inr] xr(1) Cons.prems(4) xr(3) r(2,3) xr(2)]
      have rest: "reclaim_loop ld nowMs (if ok then n + 1 else n) kvs s1 = ((m, err), s')"
        using Cons.prems(1) kx r one Inr by simp
      from Cons.IH [OF rest tl] pay Cons.prems(4) obtain ps where ps: "prefix (log s1) (log s')" "paid ld nowMs s1 s' ps"
        "m = (if ok then n + 1 else n) + length ps" "snd ` set ps \<subseteq> fst ` set kvs"
        by (blast intro: prefix_order.trans)
      have g: "prefix (log s) (log s')" using pay ps(1) by (blast intro: prefix_order.trans)
      have ps': "paid ld nowMs s s' ps" using ps(2) pay by (intro paid_mono [of ld nowMs s1 s' ps s s']) auto
      show ?thesis
      proof (cases ok)
        case True
        then obtain l ops where l: "prefix (log s) l" "prefix (l @ [ops]) (log s1)" "pays ld nowMs l k ops" using pay by blast
        obtain z where z: "log s' = l @ ops # z" using prefix_order.trans [OF l(2) ps(1)] by (auto simp: prefix_def)
        have "k \<notin> snd ` set ps" using ps(4) Cons.prems(3) kx by auto
        then have "paid ld nowMs s s' ((length l, k) # ps)"
          using ps' l(3) z prefix_length_le [OF l(1)] by (auto simp: paid_def)
        then show ?thesis using g ps True kx by (intro wide [of "(length l, k) # ps"]) auto
      qed (use g ps ps' in \<open>auto intro: wide\<close>)
    qed
  qed
qed

end

text \<open>C30: The reclaim sweep pays every expired reservation at most once, whatever other replicas do: the
  number it reports, also when it stops with an error, is the number of transactions of its own in the log,
  each of which found its reservation still reserved and expired, deleted it and in the same step added
  exactly its amount (64-bit) to the counter the reservation names, touching no other key; no two of them
  are for the same reservation key.\<close>

theorem Reclaim_pays_once:
  assumes "etcd_client (ld_kv ld) log" "Reclaim ld nowMs s = ((m, err), s')"
  shows "\<exists>ps. length ps = m \<and> distinct (map snd ps) \<and>
    (\<forall>(p, k) \<in> set ps. length (log s) \<le> p \<and> p < length (log s') \<and>
       pays ld nowMs (take p (log s')) k (log s' ! p))"
proof -
  obtain r s1 where l: "E_List (ld_kv ld) (resvPrefix ld) s = (r, s1)" by force
  show ?thesis
  proof (cases r)
    case (Inl e)
    then show ?thesis using assms(2) l by (intro exI [of _ "[]"]) (auto simp: Reclaim_def)
  next
    case (Inr x)
    then obtain kvs rv where x: "r = Inr (kvs, rv)" by (cases x) auto
    then obtain l0 where l0: "prefix (log s) l0" "prefix l0 (log s1)" "kvs = kvs_under (resvPrefix ld) l0"
      using etcd_client.list_ok [OF assms(1)] l by blast
    have run: "reclaim_loop ld nowMs 0 kvs s1 = ((m, err), s')" using assms(2) l x by (simp add: Reclaim_def)
    have snap: "\<forall>(k, x) \<in> set kvs. kv_at l0 k = Some x \<and> prefix (resvPrefix ld) k"
      by (auto simp: l0(3) kvs_under_iff)
    have "distinct (map fst kvs)" by (simp add: l0(3) distinct_kvs_under)
    from etcd_client.reclaim_loop_paid [OF assms(1) refl run snap this l0(2)]
    obtain ps where ps: "etcd_client.paid log ld nowMs s1 s' ps" "m = length ps" by auto
    have "length (log s) \<le> length (log s1)" using l0(1,2) by (meson prefix_length_le prefix_order.trans)
    then show ?thesis
      using ps by (intro exI [of _ ps]) (fastforce simp: etcd_client.paid_def [OF assms(1)])
  qed
qed

text \<open>Two reservations of agent a, one expired; the sweep runs at time 100.\<close>

definition demo_resv :: "int \<Rightarrow> reservation" where
  "demo_resv t = \<lparr>rv_Agent = ''a'', rv_Amount = 7, rv_State = ''reserved'', rv_Pool = ''p'', rv_CreatedAt = 1,
     rv_ExpireAt = t, rv_Shard = 3\<rparr>"

definition demo_hung :: cluster where
  "demo_hung = \<lparr>cl_log = [[OpPut ''sbw/tok/a/3'' (Txt ''10'')], [OpPut ''sbw/resv/x'' (JResv (demo_resv 50))],
     [OpPut ''sbw/resv/y'' (JResv (demo_resv 500))]], cl_peers = [], cl_faults = []\<rparr>"

lemma demo_reclaim: "fst (Reclaim demo_ledger 100 demo_hung) = (1, None)"
  by code_simp

theorem Reclaim_pays_once_witness:
  "\<exists>p k. pays demo_ledger 100 (take p (cl_log (snd (Reclaim demo_ledger 100 demo_hung)))) k
     (cl_log (snd (Reclaim demo_ledger 100 demo_hung)) ! p)"
proof -
  obtain r s' where r: "Reclaim demo_ledger 100 demo_hung = (r, s')" by (rule prod.exhaust)
  then have run: "Reclaim demo_ledger 100 demo_hung = ((1, None), s')" using demo_reclaim by simp
  have "etcd_client (ld_kv demo_ledger) cl_log"
    using cluster.etcd_client_axioms by (simp add: demo_ledger_def)
  from Reclaim_pays_once [OF this run] obtain ps :: "(nat \<times> string) list" where "length ps = 1"
    "\<forall>(p, k) \<in> set ps. pays demo_ledger 100 (take p (cl_log s')) k (cl_log s' ! p)"
    by auto
  then show ?thesis unfolding run snd_conv by (cases ps) auto
qed

end
