(* ===== verification/DeathVote.thy ===== *)
theory DeathVote
  imports Etcd Liveness
begin

text \<open>
  Death votes (\<open>internal/deathvote/deathvote.go\<close>) and their consumer \<open>RunDeathVotes\<close>
  (\<open>internal/server/controlplane.go\<close>). A vote is a key attached to the voter's lease. Leases
  are an interface beside the etcd client of \<open>Etcd\<close>; the expiry of a lease deletes its keys, which is a transaction of
  the log like any other.
\<close>

section \<open>Leases\<close>

type_synonym lease_id = int

record 's lease_etcd =
  le_kv :: "'s etcd"
  L_Grant :: "int \<Rightarrow> 's \<Rightarrow> (string + lease_id) \<times> 's"
  L_KeepAlive :: "lease_id \<Rightarrow> 's \<Rightarrow> (string + unit) \<times> 's"
  L_Put :: "string \<Rightarrow> etcd_val \<Rightarrow> lease_id \<Rightarrow> 's \<Rightarrow> (string + unit) \<times> 's"

text \<open>
  What etcd documents: a put under a live lease is a put; a put under a lease that does not exist
  fails; a lease that was lost stays lost.
\<close>

locale lease_client = etcd_client "le_kv lc" log for lc :: "'s lease_etcd" and log :: "'s \<Rightarrow> etcd_log" +
  fixes live :: "'s \<Rightarrow> lease_id set"
  assumes lput_ok: "L_Put lc k v i s = (Inr (), s') \<Longrightarrow>
      i \<in> live s \<and> (\<exists>l. prefix (log s) l \<and> prefix (l @ [[OpPut k v]]) (log s'))"
    and lput_grows: "L_Put lc k v i s = (r, s') \<Longrightarrow> prefix (log s) (log s')"
    and lput_live: "L_Put lc k v i s = (r, s') \<Longrightarrow> live s' \<subseteq> live s"

section \<open>The voter\<close>

record 's voter =
  vt_cli :: "'s lease_etcd"
  vt_prefix :: string
  vt_self :: coverer_id
  vt_ttl :: duration
  vt_leaseID :: lease_id

record vote_event =
  ve_Edge :: edge_id
  ve_Coverer :: coverer_id
  ve_Down :: bool

definition votesPrefix :: "'s voter \<Rightarrow> string" where
  "votesPrefix v = vt_prefix v @ ''deathvotes/''"

definition vote_key :: "'s voter \<Rightarrow> edge_id \<Rightarrow> coverer_id \<Rightarrow> string" where
  "vote_key v edge coverer = votesPrefix v @ edge @ ''/'' @ coverer"

text \<open>The lease of a voter, granted on first use; the keep-alive goroutine only drains responses.\<close>

definition ensureLease :: "'s voter \<Rightarrow> 's \<Rightarrow> (string + 's voter) \<times> 's" where
  "ensureLease v s =
     (if vt_leaseID v \<noteq> 0 then (Inr v, s)
      else
        let ttlSec = (let t = go_div (vt_ttl v) 1000000000 in if t < 1 then 1 else t) in
        case L_Grant (vt_cli v) ttlSec s of
          (Inl e, s) \<Rightarrow> (Inl e, s)
        | (Inr i, s) \<Rightarrow>
            (case L_KeepAlive (vt_cli v) i s of
               (Inl e, s) \<Rightarrow> (Inl e, s)
             | (Inr _, s) \<Rightarrow> (Inr (v\<lparr>vt_leaseID := i\<rparr>), s)))"

definition Down :: "'s voter \<Rightarrow> edge_id \<Rightarrow> 's \<Rightarrow> (string option \<times> 's voter) \<times> 's" where
  "Down v edge s =
     (case ensureLease v s of
        (Inl e, s) \<Rightarrow> ((Some e, v), s)
      | (Inr v, s) \<Rightarrow>
          (case L_Put (vt_cli v) (vote_key v edge (vt_self v)) (Txt ''down'') (vt_leaseID v) s of
             (Inl e, s) \<Rightarrow> ((Some e, v), s)
           | (Inr _, s) \<Rightarrow> ((None, v), s)))"

definition Up :: "'s voter \<Rightarrow> edge_id \<Rightarrow> 's \<Rightarrow> string option \<times> 's" where
  "Up v edge s =
     (case E_Do (le_kv (vt_cli v)) (OpDelete (vote_key v edge (vt_self v))) s of
        (Inl e, s) \<Rightarrow> (Some e, s)
      | (Inr _, s) \<Rightarrow> (None, s))"

text \<open>\<open>strings.LastIndex(s, "/")\<close>: the text before and after the last slash.\<close>

definition last_slash :: "string \<Rightarrow> (string \<times> string) option" where
  "last_slash s =
     (if CHR ''/'' \<in> set s
      then Some (let r = rev s; c = takeWhile (\<lambda>c. c \<noteq> CHR ''/'') r
                 in (rev (drop (Suc (length c)) r), rev c))
      else None)"

definition vote_parse :: "'s voter \<Rightarrow> string \<Rightarrow> bool \<Rightarrow> vote_event option" where
  "vote_parse v key down =
     (if \<not> prefix (votesPrefix v) key then None
      else (case last_slash (drop (length (votesPrefix v)) key) of
              None \<Rightarrow> None
            | Some (edge, coverer) \<Rightarrow>
                if edge = [] \<or> coverer = [] then None
                else Some \<lparr>ve_Edge = edge, ve_Coverer = coverer, ve_Down = down\<rparr>))"

text \<open>\<open>Watch\<close>: the snapshot events and the revision the live stream starts from.\<close>

definition snapshot_votes :: "'s voter \<Rightarrow> (string \<times> kv) list \<Rightarrow> vote_event list" where
  "snapshot_votes v kvs = List.map_filter (\<lambda>(k, _). vote_parse v k True) kvs"

definition vote_Watch :: "'s voter \<Rightarrow> 's \<Rightarrow> (string + vote_event list \<times> int) \<times> 's" where
  "vote_Watch v s =
     (case E_List (le_kv (vt_cli v)) (votesPrefix v) s of
        (Inl e, s) \<Rightarrow> (Inl e, s)
      | (Inr (kvs, rv), s) \<Rightarrow> (Inr (snapshot_votes v kvs, rv + 1), s))"

definition change_vote :: "'s voter \<Rightarrow> etcd_op \<Rightarrow> vote_event option" where
  "change_vote v op = (case op of OpPut k _ \<Rightarrow> vote_parse v k True | OpDelete k \<Rightarrow> vote_parse v k False)"

definition live_votes :: "'s voter \<Rightarrow> int \<Rightarrow> 's \<Rightarrow> vote_event list" where
  "live_votes v rv s = List.map_filter (change_vote v) (E_Watch (le_kv (vt_cli v)) (votesPrefix v) rv s)"

text \<open>\<open>RunDeathVotes\<close>: every event is a \<open>Vote\<close> of the monitor; \<open>now\<close> is the clock a new entry is stamped with.\<close>

definition feed_votes :: "monitor \<Rightarrow> gtime \<Rightarrow> vote_event list \<Rightarrow> monitor" where
  "feed_votes m now evs = foldl (\<lambda>m ev. Vote m now (ve_Edge ev) (ve_Coverer ev) (ve_Down ev)) m evs"

section \<open>Keys and votes\<close>

definition valid_vote :: "edge_id \<Rightarrow> coverer_id \<Rightarrow> bool" where
  "valid_vote e c \<longleftrightarrow> e \<noteq> [] \<and> c \<noteq> [] \<and> CHR ''/'' \<notin> set c"

lemma last_slash_Some: "last_slash s = Some (e, c) \<longleftrightarrow> s = e @ ''/'' @ c \<and> CHR ''/'' \<notin> set c"
proof
  assume "last_slash s = Some (e, c)"
  then have in_s: "CHR ''/'' \<in> set (rev s)" and c: "c = rev (takeWhile (\<lambda>c. c \<noteq> CHR ''/'') (rev s))"
    and e: "e = rev (drop (Suc (length (takeWhile (\<lambda>c. c \<noteq> CHR ''/'') (rev s)))) (rev s))"
    by (auto simp: last_slash_def Let_def split: if_splits)
  define t where "t = takeWhile (\<lambda>c. c \<noteq> CHR ''/'') (rev s)"
  have ne: "dropWhile (\<lambda>c. c \<noteq> CHR ''/'') (rev s) \<noteq> []" using in_s by (simp only: dropWhile_eq_Nil_conv) blast
  obtain u where u: "dropWhile (\<lambda>c. c \<noteq> CHR ''/'') (rev s) = CHR ''/'' # u"
    using ne hd_dropWhile [OF ne] by (cases "dropWhile (\<lambda>c. c \<noteq> CHR ''/'') (rev s)") simp_all
  have "rev s = t @ dropWhile (\<lambda>c. c \<noteq> CHR ''/'') (rev s)" by (simp add: t_def)
  then have r: "rev s = t @ CHR ''/'' # u" by (simp only: u)
  have "e = rev (drop (Suc (length t)) (rev s))" using e by (simp only: t_def)
  then have eu: "e = rev u" unfolding r by simp
  have ct: "c = rev t" using c by (simp only: t_def)
  have "s = rev (rev s)" by simp
  also have "\<dots> = e @ ''/'' @ c" unfolding r eu ct by simp
  finally have "s = e @ ''/'' @ c" .
  moreover have "CHR ''/'' \<notin> set t" using set_takeWhileD by (force simp: t_def)
  ultimately show "s = e @ ''/'' @ c \<and> CHR ''/'' \<notin> set c" by (simp add: ct)
next
  assume a: "s = e @ ''/'' @ c \<and> CHR ''/'' \<notin> set c"
  then have r: "rev s = rev c @ CHR ''/'' # rev e" by simp
  moreover have "takeWhile (\<lambda>c. c \<noteq> CHR ''/'') (rev c @ CHR ''/'' # rev e) = rev c"
    using a by (subst takeWhile_append2) auto
  ultimately show "last_slash s = Some (e, c)" using a by (simp add: last_slash_def Let_def)
qed

lemma vote_parse_Some:
  "vote_parse v k d = Some ev \<longleftrightarrow> k = vote_key v (ve_Edge ev) (ve_Coverer ev) \<and> ve_Down ev = d \<and>
     valid_vote (ve_Edge ev) (ve_Coverer ev)"
proof (cases "prefix (votesPrefix v) k")
  case True
  then obtain t where k: "k = votesPrefix v @ t" by (auto simp: prefix_def)
  have "vote_parse v k d = Some ev \<longleftrightarrow> last_slash t = Some (ve_Edge ev, ve_Coverer ev) \<and> ve_Edge ev \<noteq> [] \<and>
      ve_Coverer ev \<noteq> [] \<and> ve_Down ev = d"
    by (cases ev) (auto simp: vote_parse_def k split: option.split if_splits)
  then show ?thesis by (auto simp: last_slash_Some k vote_key_def valid_vote_def)
next
  case False
  then show ?thesis by (auto simp: vote_parse_def vote_key_def)
qed

lemma vote_key_inj:
  "valid_vote e c \<Longrightarrow> valid_vote e' c' \<Longrightarrow> vote_key v e c = vote_key v e' c' \<longleftrightarrow> e = e' \<and> c = c'"
proof -
  assume v: "valid_vote e c" "valid_vote e' c'"
  have "last_slash (e @ ''/'' @ c) = Some (e, c)" "last_slash (e' @ ''/'' @ c') = Some (e', c')"
    using v by (simp_all add: last_slash_Some valid_vote_def del: append.simps)
  then show ?thesis unfolding vote_key_def by (metis Pair_inject append_same_eq option.inject same_append_eq)
qed

section \<open>The monitor mirrors the votes in etcd\<close>

definition votes_at :: "'s voter \<Rightarrow> (string \<rightharpoonup> kv) \<Rightarrow> (edge_id \<times> coverer_id) set" where
  "votes_at v f = {(e, c). valid_vote e c \<and> f (vote_key v e c) \<noteq> None}"

definition apply_vote :: "(edge_id \<times> coverer_id) set \<Rightarrow> vote_event \<Rightarrow> (edge_id \<times> coverer_id) set" where
  "apply_vote S ev = (if ve_Down ev then insert (ve_Edge ev, ve_Coverer ev) S else S - {(ve_Edge ev, ve_Coverer ev)})"

definition apply_votes :: "(edge_id \<times> coverer_id) set \<Rightarrow> vote_event list \<Rightarrow> (edge_id \<times> coverer_id) set" where
  "apply_votes S evs = foldl apply_vote S evs"

lemma apply_votes_simps [simp]:
  "apply_votes S [] = S" "apply_votes S (ev # evs) = apply_votes (apply_vote S ev) evs"
  "apply_votes S (evs @ evs') = apply_votes (apply_votes S evs) evs'"
  by (simp_all add: apply_votes_def)

lemma apply_downs: "\<forall>ev \<in> set evs. ve_Down ev \<Longrightarrow> apply_votes S evs = S \<union> (\<lambda>ev. (ve_Edge ev, ve_Coverer ev)) ` set evs"
  by (induction evs arbitrary: S) (auto simp: apply_vote_def)

lemma vote_key_prefix [simp]: "prefix (votesPrefix v) (vote_key v e c)"
  by (simp add: vote_key_def)

lemma set_map_filter: "y \<in> set (List.map_filter f xs) \<longleftrightarrow> (\<exists>x \<in> set xs. f x = Some y)"
  by (induction xs) (auto simp: map_filter_simps split: option.splits)

lemma snapshot_is_votes: "apply_votes {} (snapshot_votes v (kvs_under (votesPrefix v) l)) = votes_at v (kv_at l)"
proof -
  let ?evs = "snapshot_votes v (kvs_under (votesPrefix v) l)"
  have "ev \<in> set ?evs \<longleftrightarrow> (\<exists>k x. (k, x) \<in> set (kvs_under (votesPrefix v) l) \<and> vote_parse v k True = Some ev)" for ev
    unfolding snapshot_votes_def set_map_filter by force
  then have mem: "ev \<in> set ?evs \<longleftrightarrow> (\<exists>k x. kv_at l k = Some x \<and> prefix (votesPrefix v) k \<and> vote_parse v k True = Some ev)" for ev
    unfolding kvs_under_iff by blast
  then have "\<forall>ev \<in> set ?evs. ve_Down ev" by (auto simp: vote_parse_Some)
  then have "apply_votes {} ?evs = (\<lambda>ev. (ve_Edge ev, ve_Coverer ev)) ` set ?evs" by (simp add: apply_downs)
  also have "\<dots> = votes_at v (kv_at l)"
  proof (intro equalityI subsetI)
    fix ec assume "ec \<in> votes_at v (kv_at l)"
    then obtain e c x where ec: "ec = (e, c)" "valid_vote e c" "kv_at l (vote_key v e c) = Some x"
      by (auto simp: votes_at_def)
    then have "\<lparr>ve_Edge = e, ve_Coverer = c, ve_Down = True\<rparr> \<in> set ?evs" by (auto simp: mem vote_parse_Some)
    then show "ec \<in> (\<lambda>ev. (ve_Edge ev, ve_Coverer ev)) ` set ?evs" using ec(1) by force
  qed (auto simp: mem vote_parse_Some votes_at_def)
  finally show ?thesis .
qed

lemma change_is_votes:
  "apply_votes (votes_at v f) (List.map_filter (change_vote v) (filter (\<lambda>op. prefix (votesPrefix v) (op_key op)) [op]))
     = votes_at v (\<lambda>k. apply_op r k (f k) op)"
proof (cases "\<exists>e c. valid_vote e c \<and> op_key op = vote_key v e c")
  case True
  then obtain e c where ec: "valid_vote e c" "op_key op = vote_key v e c" by blast
  have same: "vote_key v e c = vote_key v e' c' \<longleftrightarrow> e = e' \<and> c = c'" if "valid_vote e' c'" for e' c'
    using vote_key_inj [OF ec(1) that] .
  show ?thesis
  proof (cases op)
    case (OpPut k x)
    then have op: "op = OpPut (vote_key v e c) x" using ec(2) by (simp add: op_key_def)
    have "change_vote v op = Some \<lparr>ve_Edge = e, ve_Coverer = c, ve_Down = True\<rparr>"
      using ec(1) by (simp add: op change_vote_def vote_parse_Some)
    moreover have "insert (e, c) (votes_at v f) = votes_at v (\<lambda>k. apply_op r k (f k) op)"
      using ec(1) same by (auto simp: op votes_at_def apply_op_def)
    ultimately show ?thesis by (simp add: map_filter_simps ec(2) apply_vote_def)
  next
    case (OpDelete k)
    then have op: "op = OpDelete (vote_key v e c)" using ec(2) by (simp add: op_key_def)
    have "change_vote v op = Some \<lparr>ve_Edge = e, ve_Coverer = c, ve_Down = False\<rparr>"
      using ec(1) by (simp add: op change_vote_def vote_parse_Some)
    moreover have "votes_at v f - {(e, c)} = votes_at v (\<lambda>k. apply_op r k (f k) op)"
      using ec(1) same by (auto simp: op votes_at_def apply_op_def)
    ultimately show ?thesis by (simp add: map_filter_simps ec(2) apply_vote_def)
  qed
next
  case False
  then have "change_vote v op = None"
    by (cases op; cases "change_vote v op") (auto simp: change_vote_def vote_parse_Some op_key_def)
  moreover have "apply_op r (vote_key v e c) x op = x" if "valid_vote e c" for e c x
    using False that by (cases op) (auto simp: apply_op_def op_key_def)
  ultimately show ?thesis by (auto simp: map_filter_simps votes_at_def)
qed

lemma changes_are_votes:
  "apply_votes (votes_at v f) (List.map_filter (change_vote v) (filter (\<lambda>op. prefix (votesPrefix v) (op_key op)) ops))
     = votes_at v (\<lambda>k. apply_ops r k (f k) ops)"
proof (induction ops arbitrary: f)
  case (Cons op ops)
  let ?P = "\<lambda>op. prefix (votesPrefix v) (op_key op)"
  have split: "List.map_filter (change_vote v) (filter ?P (op # ops))
      = List.map_filter (change_vote v) (filter ?P [op]) @ List.map_filter (change_vote v) (filter ?P ops)"
    by (simp add: map_filter_simps split: option.split)
  have "(\<lambda>k. apply_ops r k (f k) (op # ops)) = (\<lambda>k. apply_ops r k (apply_op r k (f k) op) ops)"
    by (simp add: apply_ops_def)
  then show ?case
    unfolding split apply_votes_simps(3) change_is_votes [where r = r] by (simp only: Cons.IH)
qed (simp add: apply_ops_def map_filter_simps)

lemma log_changes_are_votes:
  "apply_votes (votes_at v (kv_at l)) (List.map_filter (change_vote v) (changes_under (votesPrefix v) (revision l + 1) (l @ ls)))
     = votes_at v (kv_at (l @ ls))"
proof (induction ls rule: rev_induct)
  case Nil
  then show ?case by (simp add: changes_under_def revision_def map_filter_simps)
next
  case (snoc ops ls)
  have c: "changes_under (votesPrefix v) (revision l + 1) (l @ ls @ [ops]) = changes_under (votesPrefix v) (revision l + 1) (l @ ls)
      @ filter (\<lambda>op. prefix (votesPrefix v) (op_key op)) ops"
    by (simp add: changes_under_def revision_def)
  have kv: "kv_at (l @ ls @ [ops]) = (\<lambda>k. apply_ops (revision (l @ ls) + 1) k (kv_at (l @ ls) k) ops)"
    using kv_at_snoc [of "l @ ls" ops] by (simp add: fun_eq_iff)
  have app: "List.map_filter g (xs @ ys) = List.map_filter g xs @ List.map_filter g ys" for g :: "etcd_op \<Rightarrow> vote_event option" and xs ys
    by (simp add: map_filter_def)
  show ?case unfolding c app apply_votes_simps snoc.IH kv by (rule changes_are_votes)
qed

lemma change_vote_valid: "change_vote v op = Some ev \<Longrightarrow> valid_vote (ve_Edge ev) (ve_Coverer ev)"
  by (cases op) (auto simp: change_vote_def vote_parse_Some)

text \<open>The votes a monitor holds, its own apart.\<close>

definition peer_votes :: "monitor \<Rightarrow> (edge_id \<times> coverer_id) set" where
  "peer_votes m = {(e, c). c \<noteq> localVoteKey m \<and> c \<in> (case edges m e of None \<Rightarrow> {} | Some s \<Rightarrow> hardVotes s)}"

lemma Vote_peer_votes:
  assumes "valid_vote (ve_Edge ev) (ve_Coverer ev)"
  shows "peer_votes (Vote m now (ve_Edge ev) (ve_Coverer ev) (ve_Down ev)) = apply_vote (peer_votes m) ev - {(e, c). c = localVoteKey m}"
    and "localVoteKey (Vote m now (ve_Edge ev) (ve_Coverer ev) (ve_Down ev)) = localVoteKey m"
  using assms
  by (auto simp: Vote_def peer_votes_def apply_vote_def valid_vote_def put_def get_def fresh_state_def localVoteKey_def Let_def
      split: option.splits if_splits)

lemma apply_vote_minus: "apply_vote (S - {(e, c). c = k}) ev - {(e, c). c = k} = apply_vote S ev - {(e, c). c = k}"
  by (auto simp: apply_vote_def)

lemma feed_peer_votes:
  assumes "\<forall>ev \<in> set evs. valid_vote (ve_Edge ev) (ve_Coverer ev)" "peer_votes m = S - {(e, c). c = localVoteKey m}"
  shows "peer_votes (feed_votes m now evs) = apply_votes S evs - {(e, c). c = localVoteKey m}
    \<and> localVoteKey (feed_votes m now evs) = localVoteKey m"
  using assms
proof (induction evs arbitrary: m S)
  case (Cons ev evs)
  let ?m = "Vote m now (ve_Edge ev) (ve_Coverer ev) (ve_Down ev)"
  have k: "localVoteKey ?m = localVoteKey m" by (rule Vote_peer_votes) (use Cons.prems in simp)
  have "peer_votes ?m = apply_vote S ev - {(e, c). c = localVoteKey ?m}"
    using Vote_peer_votes(1) [of ev m now] Cons.prems by (simp add: apply_vote_minus k)
  from Cons.IH [OF _ this] show ?case using Cons.prems k by (simp add: feed_votes_def)
qed (simp add: feed_votes_def)

lemma feed_own_vote:
  assumes "case edges m e of None \<Rightarrow> True | Some s \<Rightarrow> localVoteKey m \<notin> hardVotes s"
  shows "case edges (feed_votes m now evs) e of None \<Rightarrow> True | Some s \<Rightarrow> localVoteKey m \<notin> hardVotes s"
  using assms
proof (induction evs arbitrary: m)
  case (Cons ev evs)
  let ?m = "Vote m now (ve_Edge ev) (ve_Coverer ev) (ve_Down ev)"
  have "localVoteKey ?m = localVoteKey m"
    by (auto simp: Vote_def put_def localVoteKey_def Let_def)
  moreover have "case edges ?m e of None \<Rightarrow> True | Some s \<Rightarrow> localVoteKey ?m \<notin> hardVotes s"
    using Cons.prems by (auto simp: Vote_def put_def get_def fresh_state_def localVoteKey_def Let_def split: option.splits)
  ultimately show ?case using Cons.IH [of ?m] by (simp add: feed_votes_def split: option.splits)
qed (simp add: feed_votes_def)

text \<open>C31: The monitor mirrors the death votes in etcd: for every client with the documented behaviour, after
  consuming the snapshot of Watch and the changes from the next revision on, a fresh monitor counts for
  each edge exactly the coverers other than this replica whose vote key exists at that moment: no vote is
  missed, none outlives its key (explicit clear or lease expiry).\<close>

theorem monitor_mirrors_votes:
  assumes "etcd_client (le_kv (vt_cli v)) log" "vote_Watch v s = (Inr (snapshot, rv), s')"
    and "prefix (log s') (log s'')" "edges m = Map.empty"
  shows "hardVotes (get (feed_votes m now (snapshot @ live_votes v rv s'')) now e)
    = {c. c \<noteq> localVoteKey m \<and> valid_vote e c \<and> kv_at (log s'') (vote_key v e c) \<noteq> None}"
proof -
  obtain kvs rv0 where li: "E_List (le_kv (vt_cli v)) (votesPrefix v) s = (Inr (kvs, rv0), s')"
    and sn: "snapshot = snapshot_votes v kvs" and rv: "rv = rv0 + 1"
    using assms(2) by (auto simp: vote_Watch_def split: prod.splits sum.splits)
  obtain l where l: "prefix l (log s')" "kvs = kvs_under (votesPrefix v) l" "rv0 = revision l"
    using etcd_client.list_ok [OF assms(1) li] by blast
  obtain ls where ls: "log s'' = l @ ls" using prefix_order.trans [OF l(1) assms(3)] by (auto simp: prefix_def)
  let ?live = "List.map_filter (change_vote v) (changes_under (votesPrefix v) (revision l + 1) (l @ ls))"
  have live: "live_votes v rv s'' = ?live"
    using etcd_client.watch_ok [OF assms(1)] rv l(3) ls by (simp add: live_votes_def)
  define evs where "evs = snapshot @ live_votes v rv s''"
  have ap: "apply_votes {} evs = votes_at v (kv_at (log s''))"
    unfolding evs_def live sn l(2) ls apply_votes_simps snapshot_is_votes by (rule log_changes_are_votes)
  have "\<forall>ev \<in> set evs. valid_vote (ve_Edge ev) (ve_Coverer ev)"
    by (auto simp: evs_def live sn snapshot_votes_def set_map_filter vote_parse_Some change_vote_valid)
  moreover have "peer_votes m = {} - {(e, c). c = localVoteKey m}" using assms(4) by (simp add: peer_votes_def)
  ultimately have pv: "peer_votes (feed_votes m now evs) = votes_at v (kv_at (log s'')) - {(e, c). c = localVoteKey m}"
    and k: "localVoteKey (feed_votes m now evs) = localVoteKey m"
    using feed_peer_votes [of evs m "{}" now] ap by auto
  have own: "case edges (feed_votes m now evs) e of None \<Rightarrow> True | Some s \<Rightarrow> localVoteKey m \<notin> hardVotes s"
    by (rule feed_own_vote) (simp add: assms(4))
  show ?thesis
    unfolding evs_def [symmetric]
  proof (rule set_eqI)
    fix c
    have "(e, c) \<in> peer_votes (feed_votes m now evs) \<longleftrightarrow> (e, c) \<in> votes_at v (kv_at (log s'')) - {(e, c). c = localVoteKey m}"
      by (simp only: pv)
    then show "c \<in> hardVotes (get (feed_votes m now evs) now e) \<longleftrightarrow>
        c \<in> {c. c \<noteq> localVoteKey m \<and> valid_vote e c \<and> kv_at (log s'') (vote_key v e c) \<noteq> None}"
      using own by (cases "edges (feed_votes m now evs) e") (auto simp: peer_votes_def votes_at_def get_def fresh_state_def k)
  qed
qed

section \<open>A voter whose lease is lost\<close>

text \<open>Votes for a list of edges, with the error of each.\<close>

fun down_all :: "'s voter \<Rightarrow> edge_id list \<Rightarrow> 's \<Rightarrow> (string option list \<times> 's voter) \<times> 's" where
  "down_all v [] s = (([], v), s)"
| "down_all v (e # es) s =
     (case Down v e s of ((r, v), s) \<Rightarrow> (case down_all v es s of ((rs, v), s) \<Rightarrow> ((r # rs, v), s)))"

context lease_client
begin

lemma Down_lost:
  assumes "vt_cli v = lc" "vt_leaseID v \<noteq> 0" "vt_leaseID v \<notin> live s" "Down v e s = ((r, v'), s')"
  shows "r \<noteq> None \<and> v' = v \<and> vt_leaseID v \<notin> live s'"
proof -
  obtain x s1 where p: "L_Put lc (vote_key v e (vt_self v)) (Txt ''down'') (vt_leaseID v) s = (x, s1)" by force
  then have "x \<noteq> Inr ()" using lput_ok assms(3) by blast
  then show ?thesis
    using assms p lput_live [OF p] by (cases x) (auto simp: Down_def ensureLease_def)
qed

lemma down_all_lost:
  assumes "vt_cli v = lc" "vt_leaseID v \<noteq> 0" "vt_leaseID v \<notin> live s" "down_all v es s = ((rs, v'), s')"
  shows "None \<notin> set rs \<and> length rs = length es"
  using assms(3,4)
proof (induction es arbitrary: s rs v' s')
  case (Cons e es)
  obtain r v1 s1 where d: "Down v e s = ((r, v1), s1)" by (metis surj_pair)
  note l = Down_lost [OF assms(1,2) Cons.prems(1) d]
  obtain rs' v2 s2 where t: "down_all v es s1 = ((rs', v2), s2)" by (metis surj_pair)
  have "rs = r # rs'" using Cons.prems(2) d t l by simp
  then show ?case using Cons.IH [OF _ t] l by auto
qed simp

end

section \<open>A cluster with leases\<close>

text \<open>
  The cluster of \<open>Etcd\<close> with the set of live leases; \<open>lx_losses\<close> says which leases expire before each
  call. The keys of an expired lease are deleted by a peer transaction of the cluster.
\<close>

record lease_cluster =
  lx_cl :: cluster
  lx_live :: "lease_id list"
  lx_next :: lease_id
  lx_losses :: "lease_id list list"

definition lx_step :: "lease_cluster \<Rightarrow> lease_cluster" where
  "lx_step s = (case lx_losses s of [] \<Rightarrow> s
     | d # ds \<Rightarrow> s\<lparr>lx_live := filter (\<lambda>i. i \<notin> set d) (lx_live s), lx_losses := ds\<rparr>)"

definition lx_lift :: "(cluster \<Rightarrow> 'a \<times> cluster) \<Rightarrow> lease_cluster \<Rightarrow> 'a \<times> lease_cluster" where
  "lx_lift f s = (let s = lx_step s; (r, c) = f (lx_cl s) in (r, s\<lparr>lx_cl := c\<rparr>))"

definition lx_kv :: "lease_cluster etcd" where
  "lx_kv = \<lparr>E_Get = (\<lambda>k. lx_lift (E_Get cluster_client k)), E_List = (\<lambda>p. lx_lift (E_List cluster_client p)),
     E_Txn = (\<lambda>c t. lx_lift (E_Txn cluster_client c t)), E_Watch = (\<lambda>p r s. E_Watch cluster_client p r (lx_cl s))\<rparr>"

definition lx_client :: "lease_cluster lease_etcd" where
  "lx_client = \<lparr>le_kv = lx_kv,
     L_Grant = (\<lambda>ttl s. (Inr (lx_next s), s\<lparr>lx_live := lx_next s # lx_live s, lx_next := lx_next s + 1\<rparr>)),
     L_KeepAlive = (\<lambda>i s. (Inr (), s)),
     L_Put = (\<lambda>k v i s. let s = lx_step s in
       if i \<in> set (lx_live s) then lx_lift (E_Do cluster_client (OpPut k v)) s else (Inl ''lease not found'', s))\<rparr>"

lemma lx_step_cl [simp]: "lx_cl (lx_step s) = lx_cl s"
  by (simp add: lx_step_def split: list.splits)

lemma lx_step_live: "i \<in> set (lx_live (lx_step s)) \<Longrightarrow> i \<in> set (lx_live s)"
  by (auto simp: lx_step_def split: list.splits)

lemma lx_liftD: "lx_lift f s = (r, s') \<Longrightarrow> f (lx_cl s) = (r, lx_cl s') \<and> set (lx_live s') \<subseteq> set (lx_live s)"
  by (auto simp: lx_lift_def Let_def dest: lx_step_live split: prod.splits)

lemma E_Do_cluster:
  assumes "E_Do cluster_client op s = (r, s')"
  shows "prefix (cl_log s) (cl_log s')"
    and "r = Inr () \<Longrightarrow> \<exists>l. prefix (cl_log s) l \<and> prefix (l @ [[op]]) (cl_log s')"
proof -
  obtain b where t: "E_Txn cluster_client [] [op] s = (b, s')" and r: "r = map_sum id (\<lambda>_. ()) b"
    using assms by (auto simp: E_Do_def split: prod.splits sum.splits)
  show "prefix (cl_log s) (cl_log s')" by (rule cluster.txn_grows [OF t])
  assume "r = Inr ()"
  then obtain x where "b = Inr x" using r by (cases b) auto
  then show "\<exists>l. prefix (cl_log s) l \<and> prefix (l @ [[op]]) (cl_log s')"
    using t cluster.txn_true [of "[]" "[op]" s s'] cluster.txn_false [of "[]" "[op]" s s'] by (cases x) auto
qed

interpretation lx: lease_client lx_client "\<lambda>s. cl_log (lx_cl s)" "\<lambda>s. set (lx_live s)"
proof
  fix k v i s r s'
  have put: "i \<in> set (lx_live s) \<and> set (lx_live s') \<subseteq> set (lx_live s) \<and> E_Do cluster_client (OpPut k v) (lx_cl s) = (r, lx_cl s')
      \<or> r \<noteq> Inr () \<and> s' = lx_step s" if "L_Put lx_client k v i s = (r, s')" for r
    using that lx_liftD [of "E_Do cluster_client (OpPut k v)" "lx_step s" r s']
    by (auto simp: lx_client_def Let_def dest: lx_step_live split: if_splits)
  show "i \<in> set (lx_live s) \<and> (\<exists>l. prefix (cl_log (lx_cl s)) l \<and> prefix (l @ [[OpPut k v]]) (cl_log (lx_cl s')))"
    if "L_Put lx_client k v i s = (Inr (), s')"
    using put [OF that] E_Do_cluster(2) by blast
  show "prefix (cl_log (lx_cl s)) (cl_log (lx_cl s'))" "set (lx_live s') \<subseteq> set (lx_live s)"
    if "L_Put lx_client k v i s = (r, s')"
    using put [OF that] E_Do_cluster(1) by (auto dest: lx_step_live)
qed (auto simp: lx_client_def lx_kv_def dest!: lx_liftD dest: cluster.get_ok cluster.get_err cluster.list_ok cluster.list_err
  cluster.txn_true cluster.txn_false cluster.txn_err intro: cluster.watch_ok)

text \<open>A voter whose lease is lost never votes again: the lease id is remembered for ever and only granted
  when it is zero, so once the lease is gone (an etcd outage longer than the TTL is enough) every later
  Down of this replica fails, for every edge, until the process restarts.\<close>

theorem lost_lease_silences_voter:
  assumes "lease_client (vt_cli v) log live" "vt_leaseID v \<noteq> 0" "vt_leaseID v \<notin> live s"
    and "down_all v es s = ((rs, v'), s')"
  shows "length rs = length es \<and> None \<notin> set rs"
  using lease_client.down_all_lost [OF assms(1) refl assms(2-4)] by simp

definition demo_voter :: "lease_cluster voter" where
  "demo_voter = \<lparr>vt_cli = lx_client, vt_prefix = ''sbw/'', vt_self = ''c1'', vt_ttl = seconds 10, vt_leaseID = 0\<rparr>"

text \<open>Lease 7 is granted for the first vote and expires before the second.\<close>

definition demo_outage :: lease_cluster where
  "demo_outage = \<lparr>lx_cl = \<lparr>cl_log = [], cl_peers = [], cl_faults = []\<rparr>, lx_live = [], lx_next = 7, lx_losses = [[], [], [7]]\<rparr>"

definition demo_lost :: "lease_cluster voter \<times> lease_cluster" where
  "demo_lost = (case Down demo_voter ''e1'' demo_outage of ((_, v), s) \<Rightarrow> (v, lx_step s))"

theorem lost_lease_silences_voter_witness:
  "fst (fst (Down demo_voter ''e1'' demo_outage)) = None
   \<and> None \<notin> set (fst (fst (down_all (fst demo_lost) [''e1'', ''e2'', ''e1''] (snd demo_lost))))"
proof
  show "fst (fst (Down demo_voter ''e1'' demo_outage)) = None" by code_simp
  obtain rs v' s' where d: "down_all (fst demo_lost) [''e1'', ''e2'', ''e1''] (snd demo_lost) = ((rs, v'), s')"
    by (metis surj_pair)
  have v: "fst demo_lost = demo_voter\<lparr>vt_leaseID := 7\<rparr>"
    by (simp add: demo_lost_def Down_def ensureLease_def demo_voter_def demo_outage_def lx_client_def Let_def split: prod.splits sum.splits)
  have "set (lx_live (snd demo_lost)) = {}" by code_simp
  then show "None \<notin> set (fst (fst (down_all (fst demo_lost) [''e1'', ''e2'', ''e1''] (snd demo_lost))))"
    unfolding d fst_conv
    using lost_lease_silences_voter [of "fst demo_lost" "\<lambda>s. cl_log (lx_cl s)" "\<lambda>s. set (lx_live s)" "snd demo_lost", OF _ _ _ d]
      lx.lease_client_axioms v by (simp add: demo_voter_def)
qed

text \<open>Coverer c2 votes before the watch starts; afterwards c3 votes and the lease of c2 expires.\<close>

definition demo_votes :: lease_cluster where
  "demo_votes = \<lparr>lx_cl = \<lparr>cl_log = [[OpPut ''sbw/deathvotes/e1/c2'' (Txt ''down'')]], cl_peers = [], cl_faults = []\<rparr>,
     lx_live = [], lx_next = 1, lx_losses = []\<rparr>"

definition demo_votes_later :: lease_cluster where
  "demo_votes_later = demo_votes\<lparr>lx_cl := \<lparr>cl_log = cl_log (lx_cl demo_votes) @
     [[OpPut ''sbw/deathvotes/e1/c3'' (Txt ''down'')], [OpDelete ''sbw/deathvotes/e1/c2'']], cl_peers = [], cl_faults = []\<rparr>\<rparr>"

lemma demo_vote_watch: "vote_Watch demo_voter demo_votes
    = (Inr ([\<lparr>ve_Edge = ''e1'', ve_Coverer = ''c2'', ve_Down = True\<rparr>], 3), demo_votes)"
  by code_simp

theorem monitor_mirrors_votes_witness:
  "hardVotes (get (feed_votes demo_cfg 9 ([\<lparr>ve_Edge = ''e1'', ve_Coverer = ''c2'', ve_Down = True\<rparr>]
     @ live_votes demo_voter 3 demo_votes_later)) 9 ''e1'')
   = {c. c \<noteq> ''c1'' \<and> valid_vote ''e1'' c \<and> kv_at (cl_log (lx_cl demo_votes_later)) (vote_key demo_voter ''e1'' c) \<noteq> None}"
proof -
  have c: "etcd_client (le_kv (vt_cli demo_voter)) (\<lambda>s. cl_log (lx_cl s))"
    using lx.etcd_client_axioms by (simp add: demo_voter_def)
  have p: "prefix (cl_log (lx_cl demo_votes)) (cl_log (lx_cl demo_votes_later))"
    by (simp add: demo_votes_later_def)
  have k: "edges demo_cfg = Map.empty" "localVoteKey demo_cfg = ''c1''" by (simp_all add: demo_cfg_def localVoteKey_def)
  show ?thesis using monitor_mirrors_votes [OF c demo_vote_watch p k(1), of 9 "''e1''"] by (simp only: k(2))
qed

end
