(* ===== verification/TraceGuard.thy ===== *)
theory TraceGuard
  imports Orch
begin

text \<open>
  A program logic for the effects of a computation. \<open>tg G h m Q\<close> says: whatever the world, \<open>m\<close> only
  appends events to the trace, each of them allowed by the guard \<open>G\<close> given the events before it
  (\<open>h\<close> and those of \<open>m\<close> so far), and its result and the history at its end satisfy \<open>Q\<close>. The rules
  of the collection \<open>tg\<close> follow the structure of a computation forwards.
\<close>

section \<open>The judgement\<close>

named_theorems tg \<open>rules of the trace logic\<close>

fun guarded :: "(event list \<Rightarrow> event \<Rightarrow> bool) \<Rightarrow> event list \<Rightarrow> event list \<Rightarrow> bool" where
  "guarded G h [] = True"
| "guarded G h (ev # tr) = (G h ev \<and> guarded G (h @ [ev]) tr)"

lemma guarded_append: "guarded G h (a @ b) \<longleftrightarrow> guarded G h a \<and> guarded G (h @ a) b"
  by (induction a arbitrary: h) auto

lemma guarded_nth:
  "guarded G h tr \<longleftrightarrow> (\<forall>a ev b. tr = a @ ev # b \<longrightarrow> G (h @ a) ev)"
proof (induction tr arbitrary: h)
  case (Cons x tr)
  show ?case (is "?L = ?R")
  proof
    assume l: ?L
    show ?R
    proof (intro allI impI)
      fix a ev b assume "x # tr = a @ ev # b"
      then show "G (h @ a) ev" using l Cons.IH [of "h @ [x]"] by (cases a) auto
    qed
  next
    assume r: ?R
    have "G h x" using r [rule_format, of "[]" x tr] by simp
    moreover have "guarded G (h @ [x]) tr"
      using r Cons.IH [of "h @ [x]"] by (metis append.assoc append_Cons append_Nil)
    ultimately show ?L by simp
  qed
qed simp

definition tg ::
  "(event list \<Rightarrow> event \<Rightarrow> bool) \<Rightarrow> event list \<Rightarrow> ('s, 'a) om \<Rightarrow> ('a \<Rightarrow> event list \<Rightarrow> bool) \<Rightarrow> bool"
where
  "tg G h m Q \<longleftrightarrow> (\<forall>w. \<exists>tr. w_trace (snd (run_state m w)) = w_trace w @ tr \<and> guarded G h tr
     \<and> Q (fst (run_state m w)) (h @ tr))"

lemma tgD:
  assumes "tg G h m Q" "run_state m w = (r, w')"
  shows "\<exists>tr. w_trace w' = w_trace w @ tr \<and> guarded G h tr \<and> Q r (h @ tr)"
proof -
  have "\<exists>tr. w_trace (snd (run_state m w)) = w_trace w @ tr \<and> guarded G h tr
     \<and> Q (fst (run_state m w)) (h @ tr)" using assms(1) unfolding tg_def by blast
  then show ?thesis using assms(2) by simp
qed

lemma tg_weaken: "tg G h m Q \<Longrightarrow> (\<And>r h'. Q r h' \<Longrightarrow> Q' r h') \<Longrightarrow> tg G h m Q'"
  unfolding tg_def by meson

lemma tg_ret: "Q x h \<Longrightarrow> tg G h (ret x) Q"
  by (auto simp: tg_def ret_def intro!: exI [of _ "[]"])

lemma tg_bind:
  assumes "tg G h m R" "\<And>r h'. R r h' \<Longrightarrow> tg G h' (f r) Q"
  shows "tg G h (State_Monad.bind m f) Q"
  unfolding tg_def
proof
  fix w
  obtain r w1 where m: "run_state m w = (r, w1)" by fastforce
  obtain t1 where t1: "w_trace w1 = w_trace w @ t1" "guarded G h t1" "R r (h @ t1)"
    using tgD [OF assms(1) m] by blast
  obtain r2 w2 where f: "run_state (f r) w1 = (r2, w2)" by fastforce
  obtain t2 where t2: "w_trace w2 = w_trace w1 @ t2" "guarded G (h @ t1) t2" "Q r2 ((h @ t1) @ t2)"
    using tgD [OF assms(2) [OF t1(3)] f] by blast
  show "\<exists>tr. w_trace (snd (run_state (State_Monad.bind m f) w)) = w_trace w @ tr \<and> guarded G h tr
     \<and> Q (fst (run_state (State_Monad.bind m f) w)) (h @ tr)"
    using m f t1 t2 by (intro exI [of _ "t1 @ t2"]) (simp add: guarded_append)
qed

text \<open>The same with the result of the first computation only known to satisfy \<open>Q\<close> later.\<close>

lemma tg_seq [tg]:
  "tg G h m (\<lambda>r h'. tg G h' (f r) Q) \<Longrightarrow> tg G h (State_Monad.bind m f) Q"
  by (rule tg_bind)

lemma tg_ret' [tg]: "Q x h \<Longrightarrow> tg G h (ret x) Q"
  by (rule tg_ret)

lemma tg_tryE [tg]:
  "tg G h m (\<lambda>r h'. case r of Inl e \<Rightarrow> Q (Inl e) h' | Inr x \<Rightarrow> tg G h' (f x) Q) \<Longrightarrow> tg G h (tryE m f) Q"
  unfolding tryE_def
  by (rule tg_seq, erule tg_weaken) (auto intro: tg_ret split: sum.splits)

lemma tg_observe [tg]: "G h ev \<Longrightarrow> Q () (h @ [ev]) \<Longrightarrow> tg G h (observe ev) Q"
  by (auto simp: tg_def observe_def)

lemma tg_yb [tg]: "(\<And>r. Q r h) \<Longrightarrow> tg G h (yb orc f) Q"
  by (auto simp: tg_def yb_def Let_def split_beta intro!: exI [of _ "[]"])

lemma tg_etcd [tg]: "(\<And>r. Q r h) \<Longrightarrow> tg G h (etcd f) Q"
  by (auto simp: tg_def etcd_def Let_def split_beta intro!: exI [of _ "[]"])

lemma tg_alive [tg]:
  "(\<And>b. G h (EvAlive e b)) \<Longrightarrow> (\<And>b. Q b (h @ [EvAlive e b])) \<Longrightarrow> tg G h (alive orc e) Q"
  by (auto simp: tg_def alive_def Let_def)

lemma tg_if [tg]:
  "(b \<Longrightarrow> tg G h m Q) \<Longrightarrow> (\<not> b \<Longrightarrow> tg G h n Q) \<Longrightarrow> tg G h (if b then m else n) Q"
  by simp

lemma tg_sum [tg]:
  "(\<And>e. r = Inl e \<Longrightarrow> tg G h (f e) Q) \<Longrightarrow> (\<And>x. r = Inr x \<Longrightarrow> tg G h (g x) Q) \<Longrightarrow>
   tg G h (case r of Inl e \<Rightarrow> f e | Inr x \<Rightarrow> g x) Q"
  by (cases r) auto

lemma tg_option [tg]:
  "(r = None \<Longrightarrow> tg G h f Q) \<Longrightarrow> (\<And>x. r = Some x \<Longrightarrow> tg G h (g x) Q) \<Longrightarrow>
   tg G h (case r of None \<Rightarrow> f | Some x \<Rightarrow> g x) Q"
  by (cases r) auto

lemma tg_prod [tg]: "(\<And>a b. p = (a, b) \<Longrightarrow> tg G h (f a b) Q) \<Longrightarrow> tg G h (case p of (a, b) \<Rightarrow> f a b) Q"
  by (cases p) auto

lemma tg_Let [tg]: "(\<And>x. x = t \<Longrightarrow> tg G h (f x) Q) \<Longrightarrow> tg G h (let x = t in f x) Q"
  by simp

section \<open>Deliveries\<close>

text \<open>The events of rendering and pushing.\<close>

fun is_push :: "event \<Rightarrow> bool" where
  "is_push (EvPushDesired e st ok) = True"
| "is_push (EvPushDelta e d ok) = True"
| "is_push _ = False"

definition pushes :: "('s, 'a) om \<Rightarrow> bool" where
  "pushes m \<longleftrightarrow> (\<forall>w. \<exists>tr. w_trace (snd (run_state m w)) = w_trace w @ tr \<and> list_all is_push tr)"

lemma pushes_bind: "pushes m \<Longrightarrow> (\<And>r. pushes (f r)) \<Longrightarrow> pushes (State_Monad.bind m f)"
  unfolding pushes_def
proof
  fix w
  assume m: "\<forall>w. \<exists>tr. w_trace (snd (run_state m w)) = w_trace w @ tr \<and> list_all is_push tr"
    and f: "\<And>r. \<forall>w. \<exists>tr. w_trace (snd (run_state (f r) w)) = w_trace w @ tr \<and> list_all is_push tr"
  obtain r w1 where e: "run_state m w = (r, w1)" by fastforce
  obtain t1 where "w_trace w1 = w_trace w @ t1" "list_all is_push t1" using m e by (metis snd_conv)
  moreover obtain t2 where "w_trace (snd (run_state (f r) w1)) = w_trace w1 @ t2" "list_all is_push t2"
    using f by blast
  ultimately show "\<exists>tr. w_trace (snd (run_state (State_Monad.bind m f) w)) = w_trace w @ tr
      \<and> list_all is_push tr"
    using e by (intro exI [of _ "t1 @ t2"]) simp
qed

lemma pushes_silent:
  "(\<And>w. w_trace (snd (run_state m w)) = w_trace w) \<Longrightarrow> pushes m"
  by (auto simp: pushes_def intro: exI [of _ "[]"])

lemma pushes_prims:
  "pushes (ret x)" "pushes (yb orc f)" "pushes (etcd g)" "pushes (nextGenForEdge orc e)"
  "pushes (set_lastGen e n)"
  by (auto intro!: pushes_silent simp: ret_def yb_def etcd_def nextGenForEdge_def set_lastGen_def
      Let_def split_beta)

lemma pushes_push:
  "pushes (push_desired orc e st)" "pushes (push_delta orc e d)"
  by (auto simp: pushes_def push_desired_def push_delta_def Let_def)

lemma pushes_desired_version: "pushes (desired_version orc e)"
  by (auto simp: desired_version_def intro!: pushes_bind pushes_prims split: option.splits)

lemma pushes_renderAndPushGen: "pushes (renderAndPushGen orc e)"
  unfolding renderAndPushGen_def renderOptions_def
  by (intro pushes_bind pushes_prims)
     (auto intro!: pushes_bind pushes_prims pushes_push pushes_desired_version
       split: sum.splits option.splits)

lemma pushes_renderAndPush: "pushes (renderAndPush orc e)"
  unfolding renderAndPush_def
  by (intro pushes_bind pushes_renderAndPushGen) (auto intro: pushes_prims split: prod.splits)

lemma pushes_guarded:
  "list_all is_push tr \<Longrightarrow> (\<And>h ev. is_push ev \<Longrightarrow> G h ev) \<Longrightarrow> guarded G h tr"
  by (induction tr arbitrary: h) auto

lemma tg_pushes:
  assumes "pushes m" "\<And>h ev. is_push ev \<Longrightarrow> G h ev"
    and "\<And>r tr. list_all is_push tr \<Longrightarrow> Q r (h @ tr)"
  shows "tg G h m Q"
  using assms pushes_guarded unfolding tg_def pushes_def by meson

text \<open>A delivery records its request and then at most pushes.\<close>

lemma tg_bump [tg]:
  assumes "\<And>h ev. is_push ev \<Longrightarrow> G h ev" "e \<noteq> [] \<Longrightarrow> G h (EvBump e)"
    and "\<And>tr. list_all is_push tr \<Longrightarrow> Q () (if e = [] then h else h @ EvBump e # tr)"
  shows "tg G h (bump orc e) Q"
proof (cases "e = []")
  case True
  then show ?thesis using assms(3) [of "[]"] by (auto simp: bump_def intro: tg_ret)
next
  case False
  then have Q: "Q () ((h @ [EvBump e]) @ tr)" if "list_all is_push tr" for tr
    using assms(3) [OF that] by simp
  have "pushes (case oc_edgever orc of
           None \<Rightarrow> State_Monad.bind (renderAndPush orc e) (\<lambda>_. ret ())
         | Some ev \<Rightarrow> State_Monad.bind (etcd (Bump ev e)) (\<lambda>_. ret ()))"
    by (auto intro!: pushes_bind pushes_renderAndPush pushes_prims split: option.splits)
  then show ?thesis
    unfolding bump_def using False assms(1,2) Q
    by (auto intro!: tg_seq tg_observe tg_pushes)
qed

lemma tg_bumpGen [tg]:
  assumes "\<And>h ev. is_push ev \<Longrightarrow> G h ev" "e \<noteq> [] \<Longrightarrow> G h (EvBump e)"
    and "\<And>g tr. list_all is_push tr \<Longrightarrow> Q g (if e = [] then h else h @ EvBump e # tr)"
  shows "tg G h (bumpGen orc e) Q"
proof (cases "e = []")
  case True
  then show ?thesis using assms(3) [of "[]"] by (auto simp: bumpGen_def intro: tg_ret)
next
  case False
  then have Q: "Q g ((h @ [EvBump e]) @ tr)" if "list_all is_push tr" for g tr
    using assms(3) [OF that] by simp
  have "pushes (case oc_edgever orc of
           None \<Rightarrow> State_Monad.bind (renderAndPushGen orc e)
             (\<lambda>(gen, _, err). ret (if err = None then gen else 0))
         | Some ev \<Rightarrow> State_Monad.bind (etcd (Bump ev e)) (\<lambda>_. ret 0))"
    by (auto intro!: pushes_bind pushes_renderAndPushGen pushes_prims split: option.splits prod.splits)
  then show ?thesis
    unfolding bumpGen_def using False assms(1,2) Q
    by (auto intro!: tg_seq tg_observe tg_pushes)
qed

lemma tg_edgeReady_raw: "(\<And>b. Q b h) \<Longrightarrow> tg G h (edgeReady_raw orc e) Q"
  unfolding edgeReady_raw_def by (intro tg | assumption | simp)+

lemma tg_edgeReady [tg]:
  "(\<And>b. G h (EvReady e b)) \<Longrightarrow> (\<And>b. Q b (h @ [EvReady e b])) \<Longrightarrow> tg G h (edgeReady orc e) Q"
  unfolding edgeReady_def
  by (rule tg_seq) (auto intro!: tg_edgeReady_raw tg_seq tg_observe tg_ret)

section \<open>Candidates\<close>

text \<open>Every candidate was answered alive and is not excluded.\<close>

lemma tg_live_loop:
  assumes "\<And>h e b. G h (EvAlive e b)"
    and "\<And>e. e \<in> set out \<Longrightarrow> \<not> excl e \<and> EvAlive e True \<in> set h"
    and "\<And>out' caps' tr. (\<And>e. e \<in> set out' \<Longrightarrow> \<not> excl e \<and> EvAlive e True \<in> set (h @ tr)) \<Longrightarrow>
           list_all (\<lambda>ev. \<exists>e b. ev = EvAlive e b) tr \<Longrightarrow> Q (out', caps') (h @ tr)"
  shows "tg G h (live_loop orc excl as out caps) Q"
  using assms(2,3)
proof (induction as arbitrary: out caps h)
  case Nil
  then show ?case using Nil.prems(2) [of out "[]" caps] by (auto intro: tg_ret)
next
  case (Cons a as)
  show ?case
  proof (cases "excl (ag_EdgeID a)")
    case True
    then show ?thesis using Cons by simp
  next
    case False
    have step: "tg G (h @ [EvAlive (ag_EdgeID a) b]) (live_loop orc excl as out' caps') Q"
      if out': "set out' \<subseteq> set out \<union> (if b then {ag_EdgeID a} else {})" for b out' caps'
    proof (rule Cons.IH)
      show "\<not> excl e \<and> EvAlive e True \<in> set (h @ [EvAlive (ag_EdgeID a) b])" if "e \<in> set out'" for e
        using that out' False Cons.prems(1) by (auto split: if_splits)
      show "Q (o', c') ((h @ [EvAlive (ag_EdgeID a) b]) @ tr)"
        if "\<And>e. e \<in> set o' \<Longrightarrow> \<not> excl e \<and> EvAlive e True \<in> set ((h @ [EvAlive (ag_EdgeID a) b]) @ tr)"
          and "list_all (\<lambda>ev. \<exists>e b. ev = EvAlive e b) tr" for o' tr c'
        using Cons.prems(2) [of o' "EvAlive (ag_EdgeID a) b # tr" c'] that by auto
    qed
    show ?thesis
      using False assms(1) step by (auto intro!: tg_seq tg_alive)
  qed
qed

lemma tg_liveCandidatesCap:
  assumes "\<And>h e b. G h (EvAlive e b)"
    and "\<And>err. Q (Inl err) h"
    and "\<And>out caps tr. (\<And>e. e \<in> set out \<Longrightarrow> \<not> excl e \<and> EvAlive e True \<in> set (h @ tr)) \<Longrightarrow>
           list_all (\<lambda>ev. \<exists>e b. ev = EvAlive e b) tr \<Longrightarrow> Q (Inr (out, caps)) (h @ tr)"
  shows "tg G h (liveCandidatesCap orc excl) Q"
  unfolding liveCandidatesCap_def
proof (intro tg_seq tg_etcd tg_sum tg_ret assms(2))
  fix agents
  show "tg G h (live_loop orc excl agents [] Map.empty) (\<lambda>r h'. tg G h' (ret (Inr r)) Q)"
    by (rule tg_live_loop) (use assms in \<open>auto intro!: tg_ret\<close>)
qed

end
