(* ===== verification/Failover.thy ===== *)
theory Failover
  imports TraceGuard
begin

text \<open>
  Failover of the orchestrator: the level-triggered reconciler and the bulk reaction to an edge death
  (\<open>internal/orchestrator/reconcile.go\<close>), the operator primitives promote, provision and
  drain (\<open>failover.go\<close>) on the pivot row (\<open>pivot.go\<close>). The row type of \<open>pivot.go\<close> has the fields
  of the store's row and is identified with it.
\<close>

section \<open>The pivot row\<close>

datatype reconcile_status =
  StatusHealthy | StatusActed | StatusGated | StatusDegraded | StatusConflict

type_synonym reconcile_result = "reconcile_status \<times> orch_error option"

definition pv_homes :: "pivot_row \<Rightarrow> edge_id list" where
  "pv_homes r = (if v_Backup r = [] then [v_Primary r] else [v_Primary r, v_Backup r])"

definition getPivot :: "'s orch \<Rightarrow> pool_id \<Rightarrow> ('s, store_error + pivot_row option) om" where
  "getPivot orc i = do {
     r \<leftarrow> yb orc (\<lambda>st. GetForReconcile st i);
     observe (EvRead (case r of Inr x \<Rightarrow> x | Inl _ \<Rightarrow> None));
     ret r
   }"

definition updateCAS ::
  "'s orch \<Rightarrow> pivot_row \<Rightarrow> edge_id \<Rightarrow> edge_id \<Rightarrow> edge_id \<Rightarrow> ('s, store_error + unit) om"
where
  "updateCAS orc row np nb nr = do {
     r \<leftarrow> yb orc (\<lambda>st. UpdateCAS st row (v_Version row) np nb nr);
     observe (EvUpdateCAS (v_PoolID row) (v_Version row) np nb nr (r = Inr ()));
     ret r
   }"

definition deleteCAS :: "'s orch \<Rightarrow> pivot_row \<Rightarrow> ('s, store_error + unit) om" where
  "deleteCAS orc row = do {
     r \<leftarrow> yb orc (\<lambda>st. DeleteCAS st (v_PoolID row) (v_Version row));
     observe (EvDeleteCAS (v_PoolID row) (v_Version row) (r = Inr ()));
     ret r
   }"

definition get_cap :: "('s, capacity_cache) om" where
  "get_cap = State (\<lambda>w. (w_cap w, w))"

definition notifyFailover :: "'s orch \<Rightarrow> pool_id \<Rightarrow> edge_id \<Rightarrow> edge_id \<Rightarrow> u64 \<Rightarrow> ('s, unit) om" where
  "notifyFailover orc i from_e to_e gen =
     (if oc_onFailover orc then observe (EvFailover i from_e to_e gen) else ret ())"

definition notifyRedundancy :: "'s orch \<Rightarrow> string \<Rightarrow> pool_id \<Rightarrow> edge_id \<Rightarrow> string \<Rightarrow> ('s, unit) om" where
  "notifyRedundancy orc kind i to_e reason =
     (if oc_onRedundancy orc then observe (EvRedundancy kind i to_e reason) else ret ())"

definition notifyRehome :: "'s orch \<Rightarrow> pool_id \<Rightarrow> edge_id \<Rightarrow> edge_id \<Rightarrow> ('s, unit) om" where
  "notifyRehome orc i from_e to_e =
     (if oc_onRehome orc then observe (EvRehome i from_e to_e) else ret ())"

section \<open>The reconciler\<close>

fun bump_all :: "'s orch \<Rightarrow> edge_id list \<Rightarrow> ('s, unit) om" where
  "bump_all orc [] = ret ()"
| "bump_all orc (e # es) = do { bump orc e; bump_all orc es }"

definition asyncDoubleDeath :: "'s orch \<Rightarrow> pivot_row \<Rightarrow> ('s, reconcile_result) om" where
  "asyncDoubleDeath orc rec =
     (let failOpen = FailOpenOnDoubleDeath (oc_cx orc) (v_Pool rec);
          alarm = (if oc_onDblDeath orc then observe (EvDblDeath (v_PoolID rec) failOpen) else ret ())
      in if failOpen then do {
           r \<leftarrow> deleteCAS orc rec;
           (case r of
              Inl e \<Rightarrow> if e = ErrConflict then ret (StatusConflict, None)
                       else ret (StatusDegraded, Some (EStore e))
            | Inr _ \<Rightarrow> do {
                bump_all orc (pv_homes rec);
                alarm;
                ret (StatusDegraded, None)
              })
         } else do { alarm; ret (StatusDegraded, None) })"

definition replaced :: "pivot_row \<Rightarrow> edge_id list \<Rightarrow> edge_id \<Rightarrow> bool" where
  "replaced rec excl e \<longleftrightarrow>
     e = v_Primary rec \<or> (v_Backup rec \<noteq> [] \<and> e = v_Backup rec) \<or> e \<in> set excl"

definition no_spare :: "select_error \<Rightarrow> bool" where
  "no_spare e \<longleftrightarrow> e = ErrInsufficientCapacity \<or> e = ErrInsufficientSessions"

text \<open>The two outcomes of the placement: no spare home, or a new backup to record and deliver.\<close>

definition noSpareBackup :: "'s orch \<Rightarrow> pivot_row \<Rightarrow> select_error \<Rightarrow> ('s, reconcile_result) om" where
  "noSpareBackup orc rec err = do {
     b \<leftarrow> alive orc (v_Primary rec);
     if \<not> b then asyncDoubleDeath orc rec
     else do {
       notifyRedundancy orc ''redundancy-lost'' (v_PoolID rec) [] ''no-spare-capacity'';
       notifyRedundancy orc ''capacity-exhausted'' (v_PoolID rec) []
         (if err = ErrInsufficientSessions then ''no-materialization-budget'' else ''no-capacity'');
       ret (StatusDegraded, Some (ErrNoPlacement None))
     }
   }"

definition placeBackup :: "'s orch \<Rightarrow> pivot_row \<Rightarrow> edge_id \<Rightarrow> ('s, reconcile_result) om" where
  "placeBackup orc rec newBackup =
     (let oldBackup = v_Backup rec in do {
        u \<leftarrow> updateCAS orc rec (v_Primary rec) newBackup (v_Retiring rec);
        (case u of
           Inl e \<Rightarrow> if e = ErrConflict then ret (StatusConflict, None)
                    else ret (StatusActed, Some (EStore e))
         | Inr _ \<Rightarrow> do {
             (if oldBackup \<noteq> [] \<and> oldBackup \<noteq> newBackup then bump orc oldBackup else ret ());
             bump orc newBackup;
             notifyRedundancy orc ''backup-changed'' (v_PoolID rec) newBackup [];
             ret (StatusActed, None)
           })
      })"

definition asyncProvisionBackup ::
  "'s orch \<Rightarrow> pivot_row \<Rightarrow> edge_id list \<Rightarrow> ('s, reconcile_result) om"
where
  "asyncProvisionBackup orc rec excl = do {
     r \<leftarrow> liveCandidatesCap orc (replaced rec excl);
     (case r of
        Inl err \<Rightarrow> ret (StatusActed, Some err)
      | Inr (cands, capBps) \<Rightarrow> do {
          c \<leftarrow> get_cap;
          (case select orc c cands capBps (v_Tokens rec) (length (p_Members (v_Pool rec))) 1 of
             Inl err \<Rightarrow> if no_spare err then noSpareBackup orc rec err
                        else ret (StatusActed, Some (ESelect err))
           | Inr homes \<Rightarrow> placeBackup orc rec (hd homes))
        })
   }"

text \<open>The three steps of \<open>ReconcilePool\<close>: retire the old primary, promote, restore redundancy.\<close>

definition retire_step :: "'s orch \<Rightarrow> pivot_row \<Rightarrow> ('s, reconcile_result) om" where
  "retire_step orc rec = do {
     ready \<leftarrow> edgeReady orc (v_Primary rec);
     if \<not> ready then ret (StatusGated, None)
     else do {
       b \<leftarrow> alive orc (v_Primary rec);
       if \<not> b then ret (StatusGated, None)
       else do {
         u \<leftarrow> updateCAS orc rec (v_Primary rec) (v_Backup rec) [];
         (case u of
            Inl e \<Rightarrow> if e = ErrConflict then ret (StatusConflict, None)
                     else ret (StatusActed, Some (EStore e))
          | Inr _ \<Rightarrow> do { bump orc (v_Retiring rec); ret (StatusActed, None) })
       }
     }
   }"

definition promote_step :: "'s orch \<Rightarrow> pivot_row \<Rightarrow> ('s, reconcile_result) om" where
  "promote_step orc rec = do {
     b \<leftarrow> (if v_Backup rec = [] then ret False else alive orc (v_Backup rec));
     if \<not> b then asyncProvisionBackup orc rec []
     else do {
       ready \<leftarrow> edgeReady orc (v_Backup rec);
       if \<not> ready then ret (StatusGated, None)
       else do {
         again \<leftarrow> alive orc (v_Backup rec);
         if \<not> again then asyncProvisionBackup orc rec []
         else do {
           u \<leftarrow> updateCAS orc rec (v_Backup rec) [] (v_Primary rec);
           (case u of
              Inl e \<Rightarrow> if e = ErrConflict then ret (StatusConflict, None)
                       else ret (StatusActed, Some (EStore e))
            | Inr _ \<Rightarrow> do {
                gen \<leftarrow> bumpGen orc (v_Backup rec);
                notifyFailover orc (v_PoolID rec) (v_Primary rec) (v_Backup rec) gen;
                ret (StatusActed, None)
              })
         }
       }
     }
   }"

definition redundancy_step :: "'s orch \<Rightarrow> pivot_row \<Rightarrow> ('s, reconcile_result) om" where
  "redundancy_step orc rec =
     (if oc_replicas orc \<ge> 2 then do {
        b \<leftarrow> (if v_Backup rec = [] then ret False else alive orc (v_Backup rec));
        if b then ret (StatusHealthy, None)
        else do {
          (st, err) \<leftarrow> asyncProvisionBackup orc rec [];
          (case err of
             Some (ErrNoPlacement _) \<Rightarrow> ret (StatusDegraded, None)
           | _ \<Rightarrow> ret (st, err))
        }
      } else ret (StatusHealthy, None))"

definition ReconcilePool :: "'s orch \<Rightarrow> pool_id \<Rightarrow> ('s, reconcile_result) om" where
  "ReconcilePool orc i = do {
     r \<leftarrow> getPivot orc i;
     (case r of
        Inl e \<Rightarrow> ret (StatusHealthy, Some (EStore e))
      | Inr None \<Rightarrow> ret (StatusHealthy, None)
      | Inr (Some rec) \<Rightarrow>
          if v_Retiring rec \<noteq> [] then retire_step orc rec
          else do {
            primaryAlive \<leftarrow> alive orc (v_Primary rec);
            if \<not> primaryAlive then promote_step orc rec
            else redundancy_step orc rec
          })
   }"

section \<open>Bulk failover of a dead edge\<close>

text \<open>
  \<open>FailoverEdgeBulk\<close>: the scan of the rows with its cache of liveness answers, the concurrent
  promotions in the order \<open>sched\<close> the runtime runs them, one bump per new primary, and the
  notifications. The callback \<open>enqueue\<close> is an event.
\<close>

fun bulk_scan ::
  "'s orch \<Rightarrow> edge_id \<Rightarrow> (edge_id \<rightharpoonup> bool) \<Rightarrow> pivot_row list \<Rightarrow> ('s, pivot_row list) om"
where
  "bulk_scan orc dead cache [] = ret []"
| "bulk_scan orc dead cache (row # rows) =
     (if v_Primary row \<noteq> dead then bulk_scan orc dead cache rows
      else do {
        ready \<leftarrow> (case cache (v_Backup row) of
                    Some b \<Rightarrow> ret b
                  | None \<Rightarrow> if v_Backup row = [] then ret False else alive orc (v_Backup row));
        if \<not> ready then do {
          observe (EvEnqueue (v_PoolID row));
          bulk_scan orc dead (cache(v_Backup row \<mapsto> ready)) rows
        } else do {
          rest \<leftarrow> bulk_scan orc dead (cache(v_Backup row \<mapsto> ready)) rows;
          ret (row # rest)
        }
      })"

fun bulk_promote :: "'s orch \<Rightarrow> pivot_row list \<Rightarrow> ('s, (pool_id \<times> edge_id) list) om" where
  "bulk_promote orc [] = ret []"
| "bulk_promote orc (row # rows) = do {
     b \<leftarrow> alive orc (v_Backup row);
     if \<not> b then do { observe (EvEnqueue (v_PoolID row)); bulk_promote orc rows }
     else do {
       u \<leftarrow> updateCAS orc row (v_Backup row) [] [];
       (case u of
          Inl e \<Rightarrow> do { observe (EvEnqueue (v_PoolID row)); bulk_promote orc rows }
        | Inr _ \<Rightarrow> do {
            rest \<leftarrow> bulk_promote orc rows;
            ret ((v_PoolID row, v_Backup row) # rest)
          })
     }
   }"

fun bulk_bump ::
  "'s orch \<Rightarrow> (edge_id \<rightharpoonup> u64) \<Rightarrow> (pool_id \<times> edge_id) list \<Rightarrow> ('s, edge_id \<rightharpoonup> u64) om"
where
  "bulk_bump orc gens [] = ret gens"
| "bulk_bump orc gens ((i, e) # ms) =
     (case gens e of
        Some _ \<Rightarrow> bulk_bump orc gens ms
      | None \<Rightarrow> do { g \<leftarrow> bumpGen orc e; bulk_bump orc (gens(e \<mapsto> g)) ms })"

fun bulk_notify ::
  "'s orch \<Rightarrow> edge_id \<Rightarrow> (edge_id \<rightharpoonup> u64) \<Rightarrow> (pool_id \<times> edge_id) list \<Rightarrow> ('s, unit) om"
where
  "bulk_notify orc dead gens [] = ret ()"
| "bulk_notify orc dead gens ((i, e) # ms) = do {
     notifyFailover orc i dead e (case gens e of None \<Rightarrow> 0 | Some g \<Rightarrow> g);
     observe (EvEnqueue i);
     bulk_notify orc dead gens ms
   }"

definition FailoverEdgeBulk ::
  "'s orch \<Rightarrow> (pivot_row list \<Rightarrow> pivot_row list) \<Rightarrow> edge_id \<Rightarrow> ('s, unit) om"
where
  "FailoverEdgeBulk orc sched dead = do {
     r \<leftarrow> yb orc (\<lambda>st. ListPivotsByPrimary st dead);
     (case r of
        Inl _ \<Rightarrow> ret ()
      | Inr rows \<Rightarrow> do {
          go \<leftarrow> bulk_scan orc dead Map.empty rows;
          moved \<leftarrow> bulk_promote orc (sched go);
          gens \<leftarrow> bulk_bump orc Map.empty moved;
          bulk_notify orc dead gens moved
        })
   }"

section \<open>Operator primitives\<close>

definition pivotRecord :: "pivot_row \<Rightarrow> pool_record" where
  "pivotRecord r = \<lparr>pr_Pool = v_Pool r, pr_Primary = v_Primary r, pr_Backup = v_Backup r,
     pr_PrimaryResvID = resvID (v_PoolID r) (v_Primary r),
     pr_BackupResvID = (if v_Backup r \<noteq> [] then resvID (v_PoolID r) (v_Backup r) else []),
     pr_Tokens = v_Tokens r, pr_CreatedAt = 0, pr_Retiring = v_Retiring r, pr_RetiringResvID = []\<rparr>"

text \<open>The empty \<open>Record{}\<close> of an error return is \<open>None\<close>.\<close>

record promote_result =
  pm_rec :: "pool_record option"
  pm_new :: edge_id
  pm_old :: edge_id
  pm_gen :: u64
  pm_err :: "orch_error option"

definition promote_failed :: "pool_record option \<Rightarrow> orch_error \<Rightarrow> promote_result" where
  "promote_failed r e = \<lparr>pm_rec = r, pm_new = [], pm_old = [], pm_gen = 0, pm_err = Some e\<rparr>"

definition PromoteBackupGen :: "'s orch \<Rightarrow> pool_id \<Rightarrow> ('s, promote_result) om" where
  "PromoteBackupGen orc i = do {
     r \<leftarrow> getPivot orc i;
     (case r of
        Inl e \<Rightarrow> ret (promote_failed None (EStore e))
      | Inr None \<Rightarrow> ret (promote_failed None (ENotFound i))
      | Inr (Some rec) \<Rightarrow>
          if v_Backup rec = [] then ret (promote_failed (Some (pivotRecord rec)) ErrNoBackup)
          else do {
            u \<leftarrow> updateCAS orc rec (v_Backup rec) [] (v_Primary rec);
            (case u of
               Inl e \<Rightarrow> ret (promote_failed None (EStore e))
             | Inr _ \<Rightarrow> do {
                 gen \<leftarrow> bumpGen orc (v_Backup rec);
                 bump orc (v_Primary rec);
                 ret \<lparr>pm_rec = Some ((pivotRecord rec)\<lparr>pr_Primary := v_Backup rec, pr_Backup := [],
                        pr_Retiring := v_Primary rec\<rparr>),
                      pm_new = v_Backup rec, pm_old = v_Primary rec, pm_gen = gen, pm_err = None\<rparr>
               })
          })
   }"

definition is_NoPlacement :: "orch_error \<Rightarrow> bool" where
  "is_NoPlacement e = (case e of ErrNoPlacement _ \<Rightarrow> True | _ \<Rightarrow> False)"

definition ProvisionBackup ::
  "'s orch \<Rightarrow> pool_id \<Rightarrow> edge_id list \<Rightarrow> ('s, pool_record option \<times> orch_error option) om"
where
  "ProvisionBackup orc i excl = do {
     r \<leftarrow> getPivot orc i;
     (case r of
        Inl e \<Rightarrow> ret (None, Some (EStore e))
      | Inr None \<Rightarrow> ret (None, Some (ENotFound i))
      | Inr (Some rec) \<Rightarrow> do {
          b \<leftarrow> (if v_Backup rec = [] \<or> v_Backup rec = v_Primary rec \<or> v_Backup rec \<in> set excl
               then ret False else alive orc (v_Backup rec));
          if b then ret (Some (pivotRecord rec), None)
          else
            let rec = (if v_Backup rec \<in> set excl then rec\<lparr>v_Backup := []\<rparr> else rec) in do {
              (st, err) \<leftarrow> asyncProvisionBackup orc rec excl;
              (case err of
                 Some e \<Rightarrow> if is_NoPlacement e then ret (Some (pivotRecord rec), Some e)
                            else ret (None, Some e)
               | None \<Rightarrow> do {
                   r2 \<leftarrow> getPivot orc i;
                   (case r2 of
                      Inr (Some rec2) \<Rightarrow> ret (Some (pivotRecord rec2), None)
                    | _ \<Rightarrow> ret (Some (pivotRecord rec), None))
                 })
            }
        })
   }"

definition CleanupRevived :: "'s orch \<Rightarrow> edge_id \<Rightarrow> ('s, orch_error option) om" where
  "CleanupRevived orc e = renderAndPush orc e"

section \<open>Draining an edge\<close>

text \<open>\<open>note\<close> keeps the first error.\<close>

definition first_err :: "orch_error option \<Rightarrow> orch_error option \<Rightarrow> orch_error option" where
  "first_err acc e = (case acc of Some _ \<Rightarrow> acc | None \<Rightarrow> e)"

definition drain_err :: "edge_id \<Rightarrow> pool_id \<Rightarrow> orch_error option \<Rightarrow> orch_error option" where
  "drain_err edge i err = (case err of None \<Rightarrow> None
     | Some e \<Rightarrow> if is_NoPlacement e then None else Some (EDrain edge i e))"

definition drain_primary :: "'s orch \<Rightarrow> edge_id \<Rightarrow> bool \<Rightarrow> pivot_row \<Rightarrow> pool_id \<Rightarrow> ('s, orch_error option) om" where
  "drain_primary orc edge notify rec i = do {
     b \<leftarrow> (if v_Backup rec = [] then ret False else alive orc (v_Backup rec));
     perr \<leftarrow> (if b then ret None
             else do { (_, e) \<leftarrow> ProvisionBackup orc i [edge]; ret e });
     (case perr of
        Some e \<Rightarrow> ret (drain_err edge i (Some e))
      | None \<Rightarrow> do {
          p \<leftarrow> PromoteBackupGen orc i;
          (case pm_err p of
             Some e \<Rightarrow>
               if e \<noteq> ErrNoBackup \<and> e \<noteq> ErrWithdrawIncomplete then ret (Some (EDrain edge i e))
               else do { (_, e2) \<leftarrow> ProvisionBackup orc i [edge]; ret (drain_err edge i e2) }
           | None \<Rightarrow> do {
               (if pm_new p \<noteq> [] then
                  (if notify then notifyFailover orc i edge (pm_new p) (pm_gen p)
                   else notifyRehome orc i edge (pm_new p))
                else ret ());
               (_, e2) \<leftarrow> ProvisionBackup orc i [edge];
               ret (drain_err edge i e2)
             })
        })
   }"

fun drain_loop :: "'s orch \<Rightarrow> edge_id \<Rightarrow> bool \<Rightarrow> orch_error option \<Rightarrow> pool_id list \<Rightarrow> ('s, orch_error option) om" where
  "drain_loop orc edge notify acc [] = ret acc"
| "drain_loop orc edge notify acc (i # is) = do {
     r \<leftarrow> getPivot orc i;
     (case r of
        Inl e \<Rightarrow> drain_loop orc edge notify (first_err acc (Some (EStore e))) is
      | Inr None \<Rightarrow> drain_loop orc edge notify acc is
      | Inr (Some rec) \<Rightarrow> do {
          e \<leftarrow> (if v_Primary rec = edge then drain_primary orc edge notify rec i
               else do { (_, e) \<leftarrow> ProvisionBackup orc i [edge]; ret (drain_err edge i e) });
          drain_loop orc edge notify (first_err acc e) is
        })
   }"

definition drainEdgeGen :: "'s orch \<Rightarrow> edge_id \<Rightarrow> bool \<Rightarrow> ('s, u64 \<times> orch_error option) om" where
  "drainEdgeGen orc edge notify = do {
     r \<leftarrow> yb orc (\<lambda>st. PoolsForDeadEdge st edge);
     (case r of
        Inl e \<Rightarrow> ret (0, Some (EStore e))
      | Inr ids \<Rightarrow> do {
          err \<leftarrow> drain_loop orc edge notify None ids;
          gen \<leftarrow> bumpGen orc edge;
          ret (gen, err)
        })
   }"

definition DecommissionGen :: "'s orch \<Rightarrow> edge_id \<Rightarrow> ('s, u64 \<times> orch_error option) om" where
  "DecommissionGen orc edge = do {
     (gen, err) \<leftarrow> drainEdgeGen orc edge False;
     d \<leftarrow> etcd (Deregister (oc_reg orc) edge);
     ret (gen, case d of Inl e \<Rightarrow> first_err err (Some (EReg e)) | Inr _ \<Rightarrow> err)
   }"

definition FailoverEdge :: "'s orch \<Rightarrow> edge_id \<Rightarrow> ('s, orch_error option) om" where
  "FailoverEdge orc edge = do { (_, err) \<leftarrow> drainEdgeGen orc edge True; ret err }"

section \<open>What a reconcile pass may do\<close>

text \<open>
  The guard of a pass, on the events before each event. A pivot move is conditioned on the version of
  the row the pass read, is the only write of the pass, and is one of three: it clears the retiring
  marker once the primary is ready and was just seen alive; it promotes the backup, which was ready
  and just seen alive while the primary was seen dead; it places a backup that was seen alive and is
  neither the primary nor the backup it replaces. A deletion needs the fail-open policy, a
  primary just seen dead and no live backup. Deliveries and notifications follow the write.
\<close>

fun is_write :: "event \<Rightarrow> bool" where
  "is_write (EvUpdateCAS i v np nb nr ok) = True"
| "is_write (EvDeleteCAS i v ok) = True"
| "is_write _ = False"

fun committed :: "event \<Rightarrow> bool" where
  "committed (EvUpdateCAS i v np nb nr ok) = ok"
| "committed (EvDeleteCAS i v ok) = ok"
| "committed _ = False"

definition no_write :: "event list \<Rightarrow> bool" where
  "no_write h \<longleftrightarrow> (\<forall>ev \<in> set h. \<not> is_write ev)"

definition just :: "event list \<Rightarrow> event \<Rightarrow> bool" where
  "just h ev \<longleftrightarrow> h \<noteq> [] \<and> last h = ev"

definition backup_down :: "event list \<Rightarrow> pivot_row \<Rightarrow> bool" where
  "backup_down h rec \<longleftrightarrow> v_Backup rec = [] \<or> EvAlive (v_Backup rec) False \<in> set h"

definition retires :: "event list \<Rightarrow> pivot_row \<Rightarrow> edge_id \<Rightarrow> edge_id \<Rightarrow> edge_id \<Rightarrow> bool" where
  "retires h rec np nb nr \<longleftrightarrow> v_Retiring rec \<noteq> [] \<and> np = v_Primary rec \<and> nb = v_Backup rec \<and> nr = []
     \<and> EvReady np True \<in> set h \<and> just h (EvAlive np True)"

definition promotes :: "event list \<Rightarrow> pivot_row \<Rightarrow> edge_id \<Rightarrow> edge_id \<Rightarrow> edge_id \<Rightarrow> bool" where
  "promotes h rec np nb nr \<longleftrightarrow> v_Retiring rec = [] \<and> np = v_Backup rec \<and> np \<noteq> [] \<and> nb = []
     \<and> nr = v_Primary rec \<and> EvAlive nr False \<in> set h \<and> EvReady np True \<in> set h
     \<and> just h (EvAlive np True)"

definition provisions :: "event list \<Rightarrow> pivot_row \<Rightarrow> edge_id \<Rightarrow> edge_id \<Rightarrow> edge_id \<Rightarrow> bool" where
  "provisions h rec np nb nr \<longleftrightarrow> v_Retiring rec = [] \<and> np = v_Primary rec \<and> nr = []
     \<and> nb \<noteq> v_Primary rec \<and> (v_Backup rec \<noteq> [] \<longrightarrow> nb \<noteq> v_Backup rec) \<and> EvAlive nb True \<in> set h
     \<and> backup_down h rec"

definition reconcile_guard :: "'s orch \<Rightarrow> event list \<Rightarrow> event \<Rightarrow> bool" where
  "reconcile_guard orc h ev =
     (case ev of
        EvUpdateCAS i v np nb nr ok \<Rightarrow> no_write h \<and>
          (\<exists>rec. EvRead (Some rec) \<in> set h \<and> i = v_PoolID rec \<and> v = v_Version rec \<and>
             (retires h rec np nb nr \<or> promotes h rec np nb nr \<or> provisions h rec np nb nr))
      | EvDeleteCAS i v ok \<Rightarrow> no_write h \<and>
          (\<exists>rec. EvRead (Some rec) \<in> set h \<and> i = v_PoolID rec \<and> v = v_Version rec \<and>
             v_Retiring rec = [] \<and> FailOpenOnDoubleDeath (oc_cx orc) (v_Pool rec) \<and>
             just h (EvAlive (v_Primary rec) False) \<and> backup_down h rec)
      | EvBump e \<Rightarrow> (\<exists>x \<in> set h. committed x)
      | EvFailover i f t g \<Rightarrow> (\<exists>v. EvUpdateCAS i v t [] f True \<in> set h)
      | EvDblDeath i failOpen \<Rightarrow> failOpen \<longrightarrow> (\<exists>v. EvDeleteCAS i v True \<in> set h)
      | _ \<Rightarrow> True)"

lemma reconcile_guard_push [simp]: "is_push ev \<Longrightarrow> reconcile_guard orc h ev"
  by (cases ev) (simp_all add: reconcile_guard_def)

lemma reconcile_guard_simps [simp]:
  "reconcile_guard orc h (EvAlive e b)" "reconcile_guard orc h (EvReady e b)"
  "reconcile_guard orc h (EvRead r)" "reconcile_guard orc h (EvRedundancy k i e x)"
  "reconcile_guard orc h (EvBump e) \<longleftrightarrow> (\<exists>x \<in> set h. committed x)"
  "reconcile_guard orc h (EvFailover i f t g) \<longleftrightarrow> (\<exists>v. EvUpdateCAS i v t [] f True \<in> set h)"
  "reconcile_guard orc h (EvDblDeath i fo) \<longleftrightarrow> (fo \<longrightarrow> (\<exists>v. EvDeleteCAS i v True \<in> set h))"
  by (simp_all add: reconcile_guard_def)

lemma just_snoc [simp]: "just (h @ [ev]) ev' \<longleftrightarrow> ev = ev'" "just (h @ a # tr @ [ev]) ev' \<longleftrightarrow> ev = ev'"
  "just (h @ [a, ev]) ev' \<longleftrightarrow> ev = ev'"
  by (simp_all add: just_def)

lemma no_write_append [simp]: "no_write (h @ tr) \<longleftrightarrow> no_write h \<and> no_write tr"
  by (auto simp: no_write_def)

lemma no_write_simps [simp]:
  "no_write []" "no_write (EvAlive e b # tr) = no_write tr" "no_write (EvReady e b # tr) = no_write tr"
  "no_write (EvRead r # tr) = no_write tr"
  by (auto simp: no_write_def)

lemma no_write_alives: "list_all (\<lambda>ev. \<exists>e b. ev = EvAlive e b) tr \<Longrightarrow> no_write tr"
  by (auto simp: no_write_def list_all_iff)

lemma backup_down_append: "backup_down h rec \<Longrightarrow> backup_down (h @ tr) rec"
  by (auto simp: backup_down_def)

lemma tg_updateCAS [tg]:
  "(\<And>ok. G h (EvUpdateCAS (v_PoolID rec) (v_Version rec) np nb nr ok)) \<Longrightarrow>
   (\<And>r. Q r (h @ [EvUpdateCAS (v_PoolID rec) (v_Version rec) np nb nr (r = Inr ())])) \<Longrightarrow>
   tg G h (updateCAS orc rec np nb nr) Q"
  unfolding updateCAS_def by (intro tg) simp_all

lemma tg_deleteCAS [tg]:
  "(\<And>ok. G h (EvDeleteCAS (v_PoolID rec) (v_Version rec) ok)) \<Longrightarrow>
   (\<And>r. Q r (h @ [EvDeleteCAS (v_PoolID rec) (v_Version rec) (r = Inr ())])) \<Longrightarrow>
   tg G h (deleteCAS orc rec) Q"
  unfolding deleteCAS_def by (intro tg) simp_all

lemma tg_getPivot [tg]:
  "(\<And>x. G h (EvRead x)) \<Longrightarrow>
   (\<And>r. Q r (h @ [EvRead (case r of Inr x \<Rightarrow> x | Inl _ \<Rightarrow> None)])) \<Longrightarrow> tg G h (getPivot orc i) Q"
  unfolding getPivot_def by (intro tg) simp_all

lemma tg_get_cap [tg]: "(\<And>c. Q c h) \<Longrightarrow> tg G h get_cap Q"
  by (auto simp: tg_def get_cap_def)

lemma tg_notify [tg]:
  "G h (EvFailover i f t g) \<Longrightarrow> Q () h \<Longrightarrow> Q () (h @ [EvFailover i f t g]) \<Longrightarrow>
     tg G h (notifyFailover orc i f t g) Q"
  "G h (EvRedundancy k i e x) \<Longrightarrow> Q () h \<Longrightarrow> Q () (h @ [EvRedundancy k i e x]) \<Longrightarrow>
     tg G h (notifyRedundancy orc k i e x) Q"
  "G h (EvRehome i f t) \<Longrightarrow> Q () h \<Longrightarrow> Q () (h @ [EvRehome i f t]) \<Longrightarrow>
     tg G h (notifyRehome orc i f t) Q"
  by (auto simp: notifyFailover_def notifyRedundancy_def notifyRehome_def intro: tg_observe tg_ret)

lemma tg_bump_all:
  assumes "\<And>h ev. is_push ev \<Longrightarrow> G h ev" "\<And>h' e. G (h @ h') (EvBump e)"
    and "\<And>tr. Q () (h @ tr)"
  shows "tg G h (bump_all orc es) Q"
  using assms(2,3)
proof (induction es arbitrary: h)
  case Nil
  then show ?case using Nil.prems(2) [of "[]"] by (auto intro: tg_ret)
next
  case (Cons e es)
  have "tg G (h @ tr) (bump_all orc es) Q" for tr
    by (rule Cons.IH) (use Cons.prems in \<open>auto simp: append_assoc\<close>)
  then have "tg G (if e = [] then h else h @ EvBump e # tr) (bump_all orc es) Q" for tr
    by (metis append_Nil2)
  then show ?case
    using assms(1) Cons.prems(1) [of "[]"] by (auto intro!: tg_seq tg_bump)
qed

lemma tg_asyncDoubleDeath:
  assumes "EvRead (Some rec) \<in> set h" "no_write h" "v_Retiring rec = []" "backup_down h rec"
    and "just h (EvAlive (v_Primary rec) False)"
  shows "tg (reconcile_guard orc) h (asyncDoubleDeath orc rec) (\<lambda>_ _. True)"
proof -
  let ?G = "reconcile_guard orc" and ?D = "EvDeleteCAS (v_PoolID rec) (v_Version rec)"
  have alarm: "tg ?G (h @ ?D True # tr) (if oc_onDblDeath orc
      then observe (EvDblDeath (v_PoolID rec) True) else ret ())
      (\<lambda>_ h'. tg ?G h' (ret (StatusDegraded, None)) (\<lambda>_ _. True))" for tr
    by (auto intro!: tg_observe tg_ret)
  have "tg ?G (h @ [?D True]) (bump_all orc (pv_homes rec)) (\<lambda>_ h'. tg ?G h'
      (State_Monad.bind (if oc_onDblDeath orc then observe (EvDblDeath (v_PoolID rec) True) else ret ())
        (\<lambda>_. ret (StatusDegraded, None))) (\<lambda>_ _. True))"
    by (rule tg_bump_all) (use alarm in \<open>auto intro!: tg_seq\<close>)
  moreover have "?G h (?D ok)" if "FailOpenOnDoubleDeath (oc_cx orc) (v_Pool rec)" for ok
    using assms that by (auto simp: reconcile_guard_def)
  ultimately show ?thesis
    unfolding asyncDoubleDeath_def Let_def
    by (intro tg) (auto intro!: tg_seq tg_observe tg_ret)
qed

lemma select_hd:
  assumes "select orc c cands caps tok n 1 = Inr homes" "fair (oc_tb orc)"
  shows "hd homes \<in> set cands"
proof -
  obtain rs ns where "SelectHomes (oc_tb orc) cands (remaining_of c caps) tok rs ns 1 = Inr homes"
    using assms(1) by (auto simp: select_def split: prod.splits)
  then have "length homes = 1" "set homes \<subseteq> set cands"
    using SelectHomes_ok(1,3) assms(2) by fastforce+
  then show ?thesis by (cases homes) auto
qed

lemma reconcile_guard_provision:
  assumes "EvRead (Some rec) \<in> set h" "no_write h" "v_Retiring rec = []" "backup_down h rec"
    and "\<not> replaced rec [] e" "EvAlive e True \<in> set h"
  shows "reconcile_guard orc h (EvUpdateCAS (v_PoolID rec) (v_Version rec) (v_Primary rec) e (v_Retiring rec) ok)"
proof -
  have "provisions h rec (v_Primary rec) e (v_Retiring rec)"
    using assms by (auto simp: provisions_def replaced_def)
  then show ?thesis using assms by (auto simp: reconcile_guard_def)
qed

lemma tg_placeBackup:
  assumes "EvRead (Some rec) \<in> set h" "no_write h" "v_Retiring rec = []" "backup_down h rec"
    and "\<not> replaced rec [] e" "EvAlive e True \<in> set h"
  shows "tg (reconcile_guard orc) h (placeBackup orc rec e) (\<lambda>_ _. True)"
  unfolding placeBackup_def Let_def
  by (intro tg reconcile_guard_provision assms) auto

lemma tg_noSpareBackup:
  assumes "EvRead (Some rec) \<in> set h" "no_write h" "v_Retiring rec = []" "backup_down h rec"
  shows "tg (reconcile_guard orc) h (noSpareBackup orc rec err) (\<lambda>_ _. True)"
proof -
  have "tg (reconcile_guard orc) (h @ [EvAlive (v_Primary rec) False]) (asyncDoubleDeath orc rec) (\<lambda>_ _. True)"
    by (rule tg_asyncDoubleDeath) (use assms in \<open>auto simp: backup_down_append\<close>)
  then show ?thesis unfolding noSpareBackup_def by (intro tg) auto
qed

lemma tg_asyncProvisionBackup:
  assumes "EvRead (Some rec) \<in> set h" "no_write h" "v_Retiring rec = []" "backup_down h rec"
    and "fair (oc_tb orc)"
  shows "tg (reconcile_guard orc) h (asyncProvisionBackup orc rec []) (\<lambda>_ _. True)"
  unfolding asyncProvisionBackup_def
proof (rule tg_seq, rule tg_liveCandidatesCap)
  fix cands caps tr
  assume c: "\<And>e. e \<in> set cands \<Longrightarrow> \<not> replaced rec [] e \<and> EvAlive e True \<in> set (h @ tr)"
    and "list_all (\<lambda>ev. \<exists>e b. ev = EvAlive e b) tr"
  then have h: "EvRead (Some rec) \<in> set (h @ tr)" "no_write (h @ tr)" "backup_down (h @ tr) rec"
    using assms by (auto simp: no_write_alives backup_down_append)
  have hd: "\<not> replaced rec [] (hd homes)" "EvAlive (hd homes) True \<in> set (h @ tr)"
    if "select orc cc cands caps (v_Tokens rec) (length (p_Members (v_Pool rec))) 1 = Inr homes" for cc homes
    using select_hd [OF that assms(5)] c by blast+
  show "tg (reconcile_guard orc) (h @ tr) (case Inr (cands, caps) of
      Inl err \<Rightarrow> ret (StatusActed, Some err)
    | Inr (cands, capBps) \<Rightarrow> State_Monad.bind get_cap (\<lambda>c.
        case select orc c cands capBps (v_Tokens rec) (length (p_Members (v_Pool rec))) 1 of
          Inl err \<Rightarrow> if no_spare err then noSpareBackup orc rec err else ret (StatusActed, Some (ESelect err))
        | Inr homes \<Rightarrow> placeBackup orc rec (hd homes))) (\<lambda>_ _. True)"
    unfolding sum.case prod.case
    by (intro tg tg_noSpareBackup tg_placeBackup h assms(3)) (auto dest: hd)
qed (auto intro: tg_ret)

lemma tg_retire_step:
  assumes "EvRead (Some rec) \<in> set h" "no_write h" "v_Retiring rec \<noteq> []"
  shows "tg (reconcile_guard orc) h (retire_step orc rec) (\<lambda>_ _. True)"
proof -
  have "reconcile_guard orc ((h @ [EvReady (v_Primary rec) True]) @ [EvAlive (v_Primary rec) True])
      (EvUpdateCAS (v_PoolID rec) (v_Version rec) (v_Primary rec) (v_Backup rec) [] ok)" for ok
    unfolding reconcile_guard_def event.case
    by (intro conjI exI [of _ rec] disjI1) (use assms in \<open>auto simp: retires_def\<close>)
  then show ?thesis unfolding retire_step_def by (intro tg) auto
qed

lemma tg_promote_step:
  assumes "EvRead (Some rec) \<in> set h" "no_write h" "v_Retiring rec = []"
    and "EvAlive (v_Primary rec) False \<in> set h" "fair (oc_tb orc)"
  shows "tg (reconcile_guard orc) h (promote_step orc rec) (\<lambda>_ _. True)"
proof -
  let ?G = "reconcile_guard orc"
  have prov: "tg ?G (h @ tr @ [EvAlive (v_Backup rec) False]) (asyncProvisionBackup orc rec []) (\<lambda>_ _. True)"
    if "no_write tr" for tr
    by (rule tg_asyncProvisionBackup) (use assms that in \<open>auto simp: backup_down_def\<close>)
  have none: "tg ?G h (asyncProvisionBackup orc rec []) (\<lambda>_ _. True)" if "v_Backup rec = []"
    by (rule tg_asyncProvisionBackup) (use assms that in \<open>auto simp: backup_down_def\<close>)
  have cas: "?G ((h @ tr @ [EvReady (v_Backup rec) True]) @ [EvAlive (v_Backup rec) True])
      (EvUpdateCAS (v_PoolID rec) (v_Version rec) (v_Backup rec) [] (v_Primary rec) ok)"
    if "no_write tr" "v_Backup rec \<noteq> []" for ok tr
    unfolding reconcile_guard_def event.case
    by (intro conjI exI [of _ rec] disjI2 [OF disjI1])
       (use assms that in \<open>auto simp: promotes_def just_def\<close>)
  show ?thesis
    unfolding promote_step_def
    using prov [of "[]"] prov [of "[EvAlive (v_Backup rec) True, EvReady (v_Backup rec) True]"] none
      cas [of "[EvAlive (v_Backup rec) True]"]
    by (intro tg) auto
qed

lemma tg_redundancy_step:
  assumes "EvRead (Some rec) \<in> set h" "no_write h" "v_Retiring rec = []" "fair (oc_tb orc)"
  shows "tg (reconcile_guard orc) h (redundancy_step orc rec) (\<lambda>_ _. True)"
proof -
  let ?G = "reconcile_guard orc"
  have fin: "tg ?G h' (case p of (st, err) \<Rightarrow> (case err of
       Some (ErrNoPlacement x) \<Rightarrow> ret (StatusDegraded, None) | _ \<Rightarrow> ret (st, err))) (\<lambda>_ _. True)" for h' p
    by (auto intro!: tg_ret split: prod.splits option.splits orch_error.splits)
  have prov: "tg ?G (h @ tr) (asyncProvisionBackup orc rec []) (\<lambda>r h'. tg ?G h' (case r of (st, err) \<Rightarrow>
      (case err of Some (ErrNoPlacement x) \<Rightarrow> ret (StatusDegraded, None) | _ \<Rightarrow> ret (st, err))) (\<lambda>_ _. True))"
    if "no_write tr" "v_Backup rec = [] \<or> EvAlive (v_Backup rec) False \<in> set tr" for tr
    by (rule tg_weaken, rule tg_asyncProvisionBackup)
       (use assms that fin in \<open>auto simp: backup_down_def\<close>)
  show ?thesis
    unfolding redundancy_step_def
    using prov [of "[]"] prov [of "[EvAlive (v_Backup rec) False]"]
    by (intro tg) auto
qed

lemma tg_ReconcilePool:
  assumes "fair (oc_tb orc)"
  shows "tg (reconcile_guard orc) [] (ReconcilePool orc i) (\<lambda>_ _. True)"
  unfolding ReconcilePool_def
  by (intro tg) (auto intro!: tg_retire_step tg_promote_step tg_redundancy_step assms)

text \<open>C2: No reconcile pass fails over without evidence, whatever other replicas, the liveness oracle,
  etcd and the transport do meanwhile: every pivot write of a pass is conditioned on the version
  the pass read and is its only write; a promotion makes the backup primary only after the primary was
  seen dead, the backup seen ready and, immediately before the write, seen alive again; the old
  primary is retired only after the new one was seen ready and, immediately before, alive; a new
  backup was seen alive and differs from the primary and from the backup it replaces; a pool is deleted
  only under the fail-open policy with its primary just seen dead and no live backup; deliveries
  and failover notifications come only after an acknowledged write.\<close>

theorem ReconcilePool_guarded:
  assumes "fair (oc_tb orc)" "run_state (ReconcilePool orc i) w = (r, w')"
  shows "\<exists>tr. w_trace w' = w_trace w @ tr \<and> (\<forall>a ev b. tr = a @ ev # b \<longrightarrow> reconcile_guard orc a ev)"
  using tgD [OF tg_ReconcilePool [OF assms(1)] assms(2)] by (auto simp: guarded_nth)

text \<open>Three registered edges, pool 1 on e1 with backup e2, e1 dead.\<close>

definition demo_orch :: "cluster orch" where
  "demo_orch = \<lparr>oc_cx = demo_cx, oc_tb = EdgeIdTieBreak, oc_replicas = 2,
     oc_EdgeAddrs = (\<lambda>e. Some (V4 1)), oc_EdgeAddrs6 = Map.empty, oc_HomeMarker = None, oc_Suppress = None,
     oc_isAlive = Some (\<lambda>n e. e = ''e2'' \<or> e = ''e3''), oc_sessBudget = None, oc_genSeed = (\<lambda>n. 100),
     oc_edgever = Some demo_ev, oc_reg = demo_registry, oc_delta = True, oc_subscribed = None,
     oc_pushErr = (\<lambda>n e. None), oc_peers = (\<lambda>n st. st), oc_withdrawTimeout = 0, oc_sync = False,
     oc_onFailover = True, oc_onRedundancy = True, oc_onRehome = True, oc_onDblDeath = True\<rparr>"

definition demo_agents :: etcd_log where
  "demo_agents = map (\<lambda>e. [OpPut (''sbw/agents/'' @ e) (JAgent \<lparr>ag_EdgeID = e, ag_CapacityBps = 10000,
     ag_RegisteredAt = 1\<rparr>)]) [''e1'', ''e2'', ''e3'']"

definition demo_world :: "cluster world" where
  "demo_world = \<lparr>w_yb = \<lparr>tabs = demo_tables, snap = demo_tables, faults = []\<rparr>,
     w_etcd = \<lparr>cl_log = demo_agents, cl_peers = [], cl_faults = []\<rparr>,
     w_cap = NewCapacityCache 0, w_lastGen = Map.empty, w_genCtr = Map.empty, w_now = 0,
     w_jobs = [], w_trace = []\<rparr>"

theorem ReconcilePool_guarded_witness:
  "\<exists>a b. w_trace (snd (run_state (ReconcilePool demo_orch 1) demo_world)) = a @ EvUpdateCAS 1 1 ''e2'' [] ''e1'' True # b
     \<and> reconcile_guard demo_orch a (EvUpdateCAS 1 1 ''e2'' [] ''e1'' True)"
proof -
  let ?tr = "w_trace (snd (run_state (ReconcilePool demo_orch 1) demo_world))"
  have "EvUpdateCAS 1 1 ''e2'' [] ''e1'' True \<in> set ?tr" by code_simp
  then obtain a b where tr: "?tr = a @ EvUpdateCAS 1 1 ''e2'' [] ''e1'' True # b" by (auto dest: split_list)
  obtain r w' where run: "run_state (ReconcilePool demo_orch 1) demo_world = (r, w')" by (rule prod.exhaust)
  have "fair (oc_tb demo_orch)" by (simp add: demo_orch_def fair_def)
  from ReconcilePool_guarded [OF this run] tr show ?thesis
    unfolding run snd_conv by (auto simp: demo_world_def)
qed

section \<open>Bulk failover\<close>

text \<open>
  The guard of the bulk failover: a promotion goes onto a backup seen alive immediately before the
  write and no write comes after the first delivery; a delivery goes to an edge that became primary
  and at most once; a failover is announced after its write was acknowledged.
\<close>

definition bulk_guard :: "edge_id \<Rightarrow> event list \<Rightarrow> event \<Rightarrow> bool" where
  "bulk_guard dead h ev =
     (case ev of
        EvUpdateCAS i v np nb nr ok \<Rightarrow> nb = [] \<and> nr = [] \<and> np \<noteq> [] \<and> just h (EvAlive np True)
          \<and> (\<forall>e. EvBump e \<notin> set h)
      | EvDeleteCAS i v ok \<Rightarrow> False
      | EvBump e \<Rightarrow> EvBump e \<notin> set h \<and> (\<exists>i v. EvUpdateCAS i v e [] [] True \<in> set h)
      | EvFailover i f t g \<Rightarrow> f = dead \<and> (\<exists>v. EvUpdateCAS i v t [] [] True \<in> set h) \<and> EvBump t \<in> set h
      | _ \<Rightarrow> True)"

lemma bulk_guard_push [simp]: "is_push ev \<Longrightarrow> bulk_guard dead h ev"
  by (cases ev) (simp_all add: bulk_guard_def)

lemma bulk_guard_simps [simp]:
  "bulk_guard dead h (EvAlive e b)" "bulk_guard dead h (EvEnqueue i)"
  by (simp_all add: bulk_guard_def)

definition no_bump :: "event list \<Rightarrow> bool" where
  "no_bump h \<longleftrightarrow> (\<forall>e. EvBump e \<notin> set h)"

lemma no_bump_simps [simp]:
  "no_bump []" "no_bump (h @ h') \<longleftrightarrow> no_bump h \<and> no_bump h'"
  "no_bump (EvAlive e b # h) = no_bump h" "no_bump (EvEnqueue i # h) = no_bump h"
  "no_bump (EvUpdateCAS i v np nb nr ok # h) = no_bump h"
  by (auto simp: no_bump_def)

lemma tg_bulk_scan:
  assumes "no_bump h" "\<And>b. cache b = Some True \<Longrightarrow> b \<noteq> []"
    and "\<And>go tr. no_bump tr \<Longrightarrow> (\<forall>row \<in> set go. v_Backup row \<noteq> [] \<and> v_Primary row = dead) \<Longrightarrow>
      (\<forall>row \<in> set rows. v_Primary row = dead \<longrightarrow> row \<in> set go \<or> EvEnqueue (v_PoolID row) \<in> set tr) \<Longrightarrow>
      Q go (h @ tr)"
  shows "tg (bulk_guard dead) h (bulk_scan orc dead cache rows) Q"
  using assms
proof (induction rows arbitrary: h cache Q)
  case Nil
  then show ?case using Nil.prems(3) [of "[]" "[]"] by (auto intro: tg_ret)
next
  case (Cons row rows)
  show ?case
  proof (cases "v_Primary row = dead")
    case False
    then show ?thesis using Cons.prems by (auto intro!: Cons.IH)
  next
    case dead: True
    have skip: "tg (bulk_guard dead) (h @ tr) (State_Monad.bind (observe (EvEnqueue (v_PoolID row)))
        (\<lambda>_. bulk_scan orc dead (cache(v_Backup row \<mapsto> False)) rows)) Q" if tr: "no_bump tr" for tr
    proof (intro tg_seq tg_observe)
      show "tg (bulk_guard dead) ((h @ tr) @ [EvEnqueue (v_PoolID row)])
          (bulk_scan orc dead (cache(v_Backup row \<mapsto> False)) rows) Q"
      proof (rule Cons.IH)
        show "Q go (((h @ tr) @ [EvEnqueue (v_PoolID row)]) @ t)"
          if "no_bump t" "\<forall>row \<in> set go. v_Backup row \<noteq> [] \<and> v_Primary row = dead"
            "\<forall>r \<in> set rows. v_Primary r = dead \<longrightarrow> r \<in> set go \<or> EvEnqueue (v_PoolID r) \<in> set t" for go t
          using Cons.prems(3) [of "tr @ EvEnqueue (v_PoolID row) # t" go] that tr by auto
      qed (use Cons.prems tr in \<open>auto split: if_splits\<close>)
    qed simp
    have keep: "tg (bulk_guard dead) (h @ tr) (State_Monad.bind (bulk_scan orc dead (cache(v_Backup row \<mapsto> True)) rows)
        (\<lambda>rest. ret (row # rest))) Q" if tr: "no_bump tr" "v_Backup row \<noteq> []" for tr
    proof (rule tg_seq, rule Cons.IH)
      show "tg (bulk_guard dead) ((h @ tr) @ t) (ret (row # go)) Q"
        if "no_bump t" "\<forall>row \<in> set go. v_Backup row \<noteq> [] \<and> v_Primary row = dead"
          "\<forall>r \<in> set rows. v_Primary r = dead \<longrightarrow> r \<in> set go \<or> EvEnqueue (v_PoolID r) \<in> set t" for go t
        using Cons.prems(3) [of "tr @ t" "row # go"] that tr dead by (auto intro!: tg_ret)
    qed (use Cons.prems tr in \<open>auto split: if_splits\<close>)
    show ?thesis
      using dead skip [of "[]"] keep [of "[]"] skip [of "[EvAlive (v_Backup row) False]"]
        keep [of "[EvAlive (v_Backup row) True]"] Cons.prems(2) [of "v_Backup row"]
      by (auto intro!: tg_seq tg_ret tg_alive split: option.splits)
  qed
qed

lemma tg_bulk_promote:
  assumes "no_bump h" "\<forall>row \<in> set rows. v_Backup row \<noteq> []"
    and "\<And>moved tr. no_bump tr \<Longrightarrow>
      (\<forall>(i, e) \<in> set moved. e \<noteq> [] \<and> (\<exists>v. EvUpdateCAS i v e [] [] True \<in> set tr)) \<Longrightarrow>
      (\<forall>row \<in> set rows. (v_PoolID row, v_Backup row) \<in> set moved \<or> EvEnqueue (v_PoolID row) \<in> set tr) \<Longrightarrow>
      Q moved (h @ tr)"
  shows "tg (bulk_guard dead) h (bulk_promote orc rows) Q"
  using assms
proof (induction rows arbitrary: h Q)
  case Nil
  then show ?case using Nil.prems(3) [of "[]" "[]"] by (auto intro: tg_ret)
next
  case (Cons row rows)
  have skip: "tg (bulk_guard dead) (h @ tr) (State_Monad.bind (observe (EvEnqueue (v_PoolID row)))
      (\<lambda>_. bulk_promote orc rows)) Q" if tr: "no_bump tr" for tr
  proof (intro tg_seq tg_observe)
    show "tg (bulk_guard dead) ((h @ tr) @ [EvEnqueue (v_PoolID row)]) (bulk_promote orc rows) Q"
    proof (rule Cons.IH)
      show "Q moved (((h @ tr) @ [EvEnqueue (v_PoolID row)]) @ t)"
        if "no_bump t" "\<forall>(i, e) \<in> set moved. e \<noteq> [] \<and> (\<exists>v. EvUpdateCAS i v e [] [] True \<in> set t)"
          "\<forall>row \<in> set rows. (v_PoolID row, v_Backup row) \<in> set moved \<or> EvEnqueue (v_PoolID row) \<in> set t"
        for moved t
        using Cons.prems(3) [of "tr @ EvEnqueue (v_PoolID row) # t" moved] that tr by fastforce
    qed (use Cons.prems tr in auto)
  qed simp
  let ?C = "EvUpdateCAS (v_PoolID row) (v_Version row) (v_Backup row) [] []"
  have won: "tg (bulk_guard dead) (h @ [EvAlive (v_Backup row) True, ?C True])
      (State_Monad.bind (bulk_promote orc rows) (\<lambda>rest. ret ((v_PoolID row, v_Backup row) # rest))) Q"
  proof (rule tg_seq, rule Cons.IH)
    show "tg (bulk_guard dead) ((h @ [EvAlive (v_Backup row) True, ?C True]) @ t)
        (ret ((v_PoolID row, v_Backup row) # moved)) Q"
      if "no_bump t" "\<forall>(i, e) \<in> set moved. e \<noteq> [] \<and> (\<exists>v. EvUpdateCAS i v e [] [] True \<in> set t)"
        "\<forall>row \<in> set rows. (v_PoolID row, v_Backup row) \<in> set moved \<or> EvEnqueue (v_PoolID row) \<in> set t"
      for moved t
      using Cons.prems(2) Cons.prems(3) [of "[EvAlive (v_Backup row) True, ?C True] @ t"
          "(v_PoolID row, v_Backup row) # moved"] that
      by (fastforce intro!: tg_ret)
  qed (use Cons.prems in auto)
  have guard: "bulk_guard dead (h @ [EvAlive (v_Backup row) True]) (?C ok)" for ok
    using Cons.prems by (auto simp: bulk_guard_def no_bump_def)
  show ?case
    using skip [of "[EvAlive (v_Backup row) False]"] skip [of "[EvAlive (v_Backup row) True, ?C False]"]
      won guard
    by (auto intro!: tg_seq tg_alive tg_updateCAS split: sum.splits)
qed

lemma push_no_bump: "list_all is_push tr \<Longrightarrow> EvBump e \<notin> set tr"
  by (auto simp: list_all_iff)

lemma tg_bulk_bump:
  assumes "\<And>e. EvBump e \<in> set h \<longleftrightarrow> e \<in> dom gens"
    and "\<forall>(i, e) \<in> set ms. e \<noteq> [] \<and> (\<exists>v. EvUpdateCAS i v e [] [] True \<in> set h)"
    and "\<And>gens' tr. (\<forall>(i, e) \<in> set ms. EvBump e \<in> set (h @ tr)) \<Longrightarrow> Q gens' (h @ tr)"
  shows "tg (bulk_guard dead) h (bulk_bump orc gens ms) Q"
  using assms
proof (induction ms arbitrary: h gens Q)
  case Nil
  then show ?case using Nil.prems(3) [of "[]"] by (auto intro: tg_ret)
next
  case (Cons m ms)
  obtain i e where m: "m = (i, e)" by (cases m)
  show ?case
  proof (cases "gens e")
    case (Some g)
    then have "EvBump e \<in> set h" using Cons.prems(1) by auto
    then show ?thesis using Cons.prems Some m by (auto intro!: Cons.IH)
  next
    case None
    have "tg (bulk_guard dead) (h @ EvBump e # tr) (bulk_bump orc (gens(e \<mapsto> g)) ms) Q"
      if tr: "list_all is_push tr" for tr g
    proof (rule Cons.IH)
      show "EvBump e' \<in> set (h @ EvBump e # tr) \<longleftrightarrow> e' \<in> dom (gens(e \<mapsto> g))" for e'
        using Cons.prems(1) [of e'] push_no_bump [OF tr] by auto
      show "\<forall>(i, e') \<in> set ms. e' \<noteq> [] \<and> (\<exists>v. EvUpdateCAS i v e' [] [] True \<in> set (h @ EvBump e # tr))"
        using Cons.prems(2) by fastforce
      show "Q gens' ((h @ EvBump e # tr) @ t)"
        if "\<forall>(i, e') \<in> set ms. EvBump e' \<in> set ((h @ EvBump e # tr) @ t)" for gens' t
        using Cons.prems(3) [of "EvBump e # tr @ t" gens'] that m by fastforce
    qed
    moreover have "e \<noteq> []" "bulk_guard dead h (EvBump e)"
      using Cons.prems(1,2) None m by (auto simp: bulk_guard_def domIff)
    ultimately show ?thesis using None m by (auto intro!: tg_seq tg_bumpGen)
  qed
qed

lemma tg_bulk_notify:
  assumes "\<forall>(i, e) \<in> set ms. EvBump e \<in> set h \<and> (\<exists>v. EvUpdateCAS i v e [] [] True \<in> set h)"
    and "\<And>tr. (\<forall>(i, e) \<in> set ms. EvEnqueue i \<in> set tr) \<Longrightarrow> Q () (h @ tr)"
  shows "tg (bulk_guard dead) h (bulk_notify orc dead gens ms) Q"
  using assms
proof (induction ms arbitrary: h Q)
  case Nil
  then show ?case using Nil.prems(2) [of "[]"] by (auto intro: tg_ret)
next
  case (Cons m ms)
  obtain i e where m: "m = (i, e)" by (cases m)
  have rest: "tg (bulk_guard dead) (h @ tr) (bulk_notify orc dead gens ms) Q"
    if "EvEnqueue i \<in> set tr" for tr
  proof (rule Cons.IH)
    show "\<forall>(i, e) \<in> set ms. EvBump e \<in> set (h @ tr) \<and> (\<exists>v. EvUpdateCAS i v e [] [] True \<in> set (h @ tr))"
      using Cons.prems(1) by auto
    show "Q () ((h @ tr) @ t)" if "\<forall>(i, e) \<in> set ms. EvEnqueue i \<in> set t" for t
      using Cons.prems(2) [of "tr @ t"] that \<open>EvEnqueue i \<in> set tr\<close> m by auto
  qed
  have "tg (bulk_guard dead) (h @ tr) (State_Monad.bind (observe (EvEnqueue i))
      (\<lambda>_. bulk_notify orc dead gens ms)) Q" for tr
    using rest [of "tr @ [EvEnqueue i]"] by (auto intro!: tg_seq tg_observe)
  from this [of "[]"] this have next_step: "tg (bulk_guard dead) h (State_Monad.bind (observe (EvEnqueue i))
      (\<lambda>_. bulk_notify orc dead gens ms)) Q"
    "tg (bulk_guard dead) (h @ tr) (State_Monad.bind (observe (EvEnqueue i))
      (\<lambda>_. bulk_notify orc dead gens ms)) Q" for tr by simp_all
  have "bulk_guard dead h (EvFailover i dead e g)" for g
    using Cons.prems(1) m by (auto simp: bulk_guard_def)
  then show ?case
    unfolding m bulk_notify.simps by (intro tg_seq [of _ _ "notifyFailover orc i dead e _"] tg_notify(1) next_step)
qed

lemma tg_FailoverEdgeBulk:
  assumes sched: "\<And>xs. set (sched xs) = set xs"
  shows "tg (bulk_guard dead) [] (State_Monad.bind (bulk_scan orc dead Map.empty rows) (\<lambda>go.
      State_Monad.bind (bulk_promote orc (sched go)) (\<lambda>moved.
      State_Monad.bind (bulk_bump orc Map.empty moved) (\<lambda>gens. bulk_notify orc dead gens moved))))
    (\<lambda>_ h. \<forall>row \<in> set rows. v_Primary row = dead \<longrightarrow> EvEnqueue (v_PoolID row) \<in> set h)"
proof (rule tg_seq, rule tg_bulk_scan)
  fix go t1
  assume t1: "no_bump t1" and go: "\<forall>row \<in> set go. v_Backup row \<noteq> [] \<and> v_Primary row = dead"
    and split: "\<forall>row \<in> set rows. v_Primary row = dead \<longrightarrow> row \<in> set go \<or> EvEnqueue (v_PoolID row) \<in> set t1"
  show "tg (bulk_guard dead) ([] @ t1) (State_Monad.bind (bulk_promote orc (sched go)) (\<lambda>moved.
      State_Monad.bind (bulk_bump orc Map.empty moved) (\<lambda>gens. bulk_notify orc dead gens moved)))
    (\<lambda>_ h. \<forall>row \<in> set rows. v_Primary row = dead \<longrightarrow> EvEnqueue (v_PoolID row) \<in> set h)"
  proof (rule tg_seq, rule tg_bulk_promote)
    fix moved t2
    assume t2: "no_bump t2"
      and mv: "\<forall>(i, e) \<in> set moved. e \<noteq> [] \<and> (\<exists>v. EvUpdateCAS i v e [] [] True \<in> set t2)"
      and all: "\<forall>row \<in> set (sched go). (v_PoolID row, v_Backup row) \<in> set moved \<or> EvEnqueue (v_PoolID row) \<in> set t2"
    show "tg (bulk_guard dead) (([] @ t1) @ t2)
        (State_Monad.bind (bulk_bump orc Map.empty moved) (\<lambda>gens. bulk_notify orc dead gens moved))
      (\<lambda>_ h. \<forall>row \<in> set rows. v_Primary row = dead \<longrightarrow> EvEnqueue (v_PoolID row) \<in> set h)"
    proof (rule tg_seq, rule tg_bulk_bump)
      fix gens t3
      assume bumped: "\<forall>(i, e) \<in> set moved. EvBump e \<in> set ((([] @ t1) @ t2) @ t3)"
      show "tg (bulk_guard dead) ((([] @ t1) @ t2) @ t3) (bulk_notify orc dead gens moved)
        (\<lambda>_ h. \<forall>row \<in> set rows. v_Primary row = dead \<longrightarrow> EvEnqueue (v_PoolID row) \<in> set h)"
      proof (rule tg_bulk_notify)
        show "\<forall>(i, e) \<in> set moved. EvBump e \<in> set ((([] @ t1) @ t2) @ t3)
            \<and> (\<exists>v. EvUpdateCAS i v e [] [] True \<in> set ((([] @ t1) @ t2) @ t3))"
          using mv bumped by fastforce
        show "\<forall>row \<in> set rows. v_Primary row = dead \<longrightarrow> EvEnqueue (v_PoolID row) \<in> set (((([] @ t1) @ t2) @ t3) @ tr)"
          if "\<forall>(i, e) \<in> set moved. EvEnqueue i \<in> set tr" for tr
          using split all that sched by fastforce
      qed
    next
      show "\<forall>(i, e) \<in> set moved. e \<noteq> [] \<and> (\<exists>v. EvUpdateCAS i v e [] [] True \<in> set (([] @ t1) @ t2))"
        using mv by fastforce
    qed (use t1 t2 in \<open>auto simp: no_bump_def\<close>)
  qed (use t1 go sched in auto)
qed simp_all


lemma followerRead_clean: "faults s = [] \<Longrightarrow> followerRead q s = (s, Inr (q (snap s)))"
proof -
  assume "faults s = []"
  then have "follower_loop n q s = (s, Inr (q (snap s)))" for n
    by (cases n) (simp_all add: followerReadOnce_def next_fault_def)
  then show ?thesis by (simp add: followerRead_def)
qed

lemma demo_bulk_trace:
  "w_trace (snd (run_state (FailoverEdgeBulk demo_orch rev ''e1'') demo_world)) =
     [EvAlive ''e2'' True, EvAlive ''e2'' True, EvUpdateCAS 1 1 ''e2'' [] [] True, EvBump ''e2'',
      EvFailover 1 ''e1'' ''e2'' 0, EvEnqueue 1]"
  by code_simp


end
