(* ===== verification/Progress.thy ===== *)
theory Progress
  imports Failover
begin

text \<open>
  Progress of the reconciler when the environment is quiet: no other replica writes, the database
  answers, and the liveness verdicts are stable (no edge has the empty name). One pass then either settles the pool or
  brings it strictly closer to its redundancy target.
\<close>

section \<open>Weakest preconditions in a quiet environment\<close>

definition quiet_env :: "'s orch \<Rightarrow> (edge_id \<Rightarrow> bool) \<Rightarrow> bool" where
  "quiet_env orc A \<longleftrightarrow> oc_peers orc = (\<lambda>n st. st) \<and> (\<forall>n e. alive_at orc n e = A e) \<and> \<not> A []"

definition clean :: "'s world \<Rightarrow> bool" where
  "clean w \<longleftrightarrow> faults (w_yb w) = []"

definition wp :: "('s, 'a) om \<Rightarrow> ('a \<Rightarrow> 's world \<Rightarrow> bool) \<Rightarrow> 's world \<Rightarrow> bool" where
  "wp m Q w \<longleftrightarrow> Q (fst (run_state m w)) (snd (run_state m w))"

lemma wp_bind: "wp (State_Monad.bind m f) Q w \<longleftrightarrow> wp m (\<lambda>r. wp (f r) Q) w"
  by (simp add: wp_def split_beta)

lemma wp_ret [simp]: "wp (ret x) Q w \<longleftrightarrow> Q x w"
  by (simp add: wp_def ret_def)

text \<open>Computations that leave the store as it is.\<close>

definition keeps :: "('s, 'a) om \<Rightarrow> bool" where
  "keeps m \<longleftrightarrow> (\<forall>w. clean w \<longrightarrow> w_yb (snd (run_state m w)) = w_yb w)"

lemma keeps_bind: "keeps m \<Longrightarrow> (\<And>r. keeps (f r)) \<Longrightarrow> keeps (State_Monad.bind m f)"
  unfolding keeps_def clean_def by (simp add: split_beta)

lemma wp_keeps:
  "keeps m \<Longrightarrow> clean w \<Longrightarrow> (\<And>r w'. w_yb w' = w_yb w \<Longrightarrow> Q r w') \<Longrightarrow> wp m Q w"
  by (simp add: wp_def keeps_def)

lemma keeps_prims:
  "keeps (ret x)" "keeps (observe ev)" "keeps (etcd g)" "keeps (alive orc e)"
  "keeps (nextGenForEdge orc e)" "keeps (set_lastGen e n)" "keeps get_cap"
  "keeps (push_desired orc e st)" "keeps (push_delta orc e d)"
  by (simp_all add: keeps_def ret_def observe_def etcd_def alive_def nextGenForEdge_def set_lastGen_def
      get_cap_def push_desired_def push_delta_def Let_def split_beta)

lemma keeps_read:
  assumes "quiet_env orc A"
  shows "keeps (yb orc (\<lambda>st. PoolsForHome st e))" "keeps (yb orc (\<lambda>st. PoolsForBackup st e))"
    "keeps (yb orc (\<lambda>st. GetForReconcile st i))"
  using assms
  by (simp_all add: keeps_def clean_def yb_def quiet_env_def PoolsForHome_def PoolsForBackup_def
      GetForReconcile_def followerRead_clean leader_read_def next_fault_def)

lemma keeps_desired_version: "keeps (desired_version orc e)"
  by (auto simp: desired_version_def intro!: keeps_bind keeps_prims split: option.splits)

lemma keeps_renderAndPushGen: "quiet_env orc A \<Longrightarrow> keeps (renderAndPushGen orc e)"
  unfolding renderAndPushGen_def renderOptions_def
  by (intro keeps_bind keeps_read)
     (auto intro!: keeps_bind keeps_prims keeps_desired_version keeps_read
       split: sum.splits option.splits)

lemma keeps_delivery:
  assumes "quiet_env orc A"
  shows "keeps (bump orc e)" "keeps (bumpGen orc e)"
  unfolding bump_def bumpGen_def renderAndPush_def
  by (auto intro!: keeps_bind keeps_prims keeps_renderAndPushGen [OF assms] split: option.splits prod.splits)

lemma keeps_bump_all: "quiet_env orc A \<Longrightarrow> keeps (bump_all orc es)"
  by (induction es) (auto intro!: keeps_bind keeps_prims keeps_delivery)

lemma keeps_notify:
  "keeps (notifyFailover orc i f t g)" "keeps (notifyRedundancy orc k i t x)"
  by (auto simp: notifyFailover_def notifyRedundancy_def intro: keeps_prims)

lemma keeps_edgeReady: "keeps (edgeReady orc e)"
  unfolding edgeReady_def edgeReady_raw_def
  by (auto intro!: keeps_bind keeps_prims split: option.splits sum.splits)

lemma wp_alive:
  assumes "quiet_env orc A" "\<And>w'. w_yb w' = w_yb w \<Longrightarrow> Q (A e) w'"
  shows "wp (alive orc e) Q w"
  using assms by (auto simp: wp_def alive_def quiet_env_def Let_def)

lemma wp_live_loop:
  assumes "quiet_env orc A" "\<forall>e \<in> set out. \<not> excl e \<and> A e"
    and "\<And>out' caps' w'. w_yb w' = w_yb w \<Longrightarrow> \<forall>e \<in> set out'. \<not> excl e \<and> A e \<Longrightarrow> Q (out', caps') w'"
  shows "wp (live_loop orc excl as out caps) Q w"
  using assms(2,3)
proof (induction as arbitrary: out caps w)
  case (Cons a as)
  show ?case
  proof (cases "excl (ag_EdgeID a)")
    case True
    then show ?thesis using Cons by simp
  next
    case False
    then show ?thesis
      using Cons.prems by (auto simp: wp_bind intro!: wp_alive [OF assms(1)] Cons.IH)
  qed
qed simp

lemma wp_liveCandidatesCap:
  fixes w :: "'s world"
  assumes "quiet_env orc A" "clean w"
    and "\<And>err w'. w_yb w' = w_yb w \<Longrightarrow> Q (Inl err) w'"
    and "\<And>out caps w'. w_yb w' = w_yb w \<Longrightarrow> \<forall>e \<in> set out. \<not> excl e \<and> A e \<Longrightarrow> Q (Inr (out, caps)) w'"
  shows "wp (liveCandidatesCap orc excl) Q w"
  unfolding liveCandidatesCap_def wp_bind
proof (rule wp_keeps)
  fix r :: "reg_error + agent list" and w' :: "'s world"
  assume w': "w_yb w' = w_yb w"
  show "wp (case r of Inl e \<Rightarrow> ret (Inl (EReg e)) | Inr agents \<Rightarrow> State_Monad.bind
      (live_loop orc excl agents [] Map.empty) (\<lambda>out. ret (Inr out))) Q w'"
    by (cases r) (use assms w' in \<open>auto simp: wp_bind intro!: wp_live_loop [OF assms(1)]\<close>)
qed (use assms in \<open>auto intro: keeps_prims\<close>)

lemma wp_updateCAS:
  assumes "quiet_env orc A" "clean w"
    and "\<And>e w'. tx_UpdateCAS (tabs (w_yb w)) rec (v_Version rec) np nb nr = Inl e \<Longrightarrow>
           w_yb w' = w_yb w \<Longrightarrow> Q (Inl e) w'"
    and "\<And>t w'. tx_UpdateCAS (tabs (w_yb w)) rec (v_Version rec) np nb nr = Inr t \<Longrightarrow>
           w_yb w' = (w_yb w)\<lparr>tabs := t\<rparr> \<Longrightarrow> Q (Inr ()) w'"
  shows "wp (updateCAS orc rec np nb nr) Q w"
  using assms
  by (cases "tx_UpdateCAS (tabs (w_yb w)) rec (v_Version rec) np nb nr")
     (auto simp: updateCAS_def wp_def yb_def observe_def ret_def quiet_env_def clean_def UpdateCAS_def
       write_tx_def next_fault_def)

lemma wp_deleteCAS:
  assumes "quiet_env orc A" "clean w"
    and "\<And>e w'. tx_DeleteCAS (tabs (w_yb w)) (v_PoolID rec) (v_Version rec) = Inl e \<Longrightarrow>
           w_yb w' = w_yb w \<Longrightarrow> Q (Inl e) w'"
    and "\<And>t w'. tx_DeleteCAS (tabs (w_yb w)) (v_PoolID rec) (v_Version rec) = Inr t \<Longrightarrow>
           w_yb w' = (w_yb w)\<lparr>tabs := t\<rparr> \<Longrightarrow> Q (Inr ()) w'"
  shows "wp (deleteCAS orc rec) Q w"
  using assms
  by (cases "tx_DeleteCAS (tabs (w_yb w)) (v_PoolID rec) (v_Version rec)")
     (auto simp: deleteCAS_def wp_def yb_def observe_def ret_def quiet_env_def clean_def DeleteCAS_def
       write_tx_def next_fault_def)

lemma wp_getPivot:
  assumes "quiet_env orc A" "clean w"
    and "\<And>w'. w_yb w' = w_yb w \<Longrightarrow> Q (Inr (q_GetForReconcile (tabs (w_yb w)) i)) w'"
  shows "wp (getPivot orc i) Q w"
  using assms
  by (auto simp: getPivot_def wp_def yb_def observe_def ret_def quiet_env_def clean_def
      GetForReconcile_def leader_read_def next_fault_def)

section \<open>The distance to the target\<close>

text \<open>
  How many acting passes a pool is away from its target: provision a backup for a dead primary,
  promote, retire the old primary, restore the backup.
\<close>

definition rank :: "'s orch \<Rightarrow> (edge_id \<Rightarrow> bool) \<Rightarrow> pivot_row \<Rightarrow> nat" where
  "rank orc A rec =
     (if v_Retiring rec \<noteq> [] then 2
      else if \<not> A (v_Primary rec) then (if v_Backup rec \<noteq> [] \<and> A (v_Backup rec) then 3 else 4)
      else if oc_replicas orc \<ge> 2 \<and> (v_Backup rec = [] \<or> \<not> A (v_Backup rec)) then 1
      else 0)"

abbreviation row_at :: "'s world \<Rightarrow> pool_id \<Rightarrow> pivot_row option" where
  "row_at w i \<equiv> q_GetForReconcile (tabs (w_yb w)) i"

text \<open>What one pass does to the row of a pool, by the status it returns.\<close>

definition outcome ::
  "'s orch \<Rightarrow> (edge_id \<Rightarrow> bool) \<Rightarrow> store \<Rightarrow> pivot_row \<Rightarrow> reconcile_result \<Rightarrow> 's world \<Rightarrow> bool"
where
  "outcome orc A st0 rec res w' \<longleftrightarrow> clean w' \<and> tables_inv (tabs (w_yb w')) \<and>
     (\<forall>x. snd res = Some (ErrNoPlacement x) \<longrightarrow> w_yb w' = st0) \<and>
     (snd res = None \<longrightarrow>
        (case fst res of
           StatusActed \<Rightarrow> (\<exists>rec'. row_at w' (v_PoolID rec) = Some rec' \<and> rank orc A rec' < rank orc A rec)
         | StatusHealthy \<Rightarrow> w_yb w' = st0 \<and> rank orc A rec = 0
         | StatusGated \<Rightarrow> w_yb w' = st0 \<and> rank orc A rec \<in> {2, 3}
         | StatusDegraded \<Rightarrow> row_at w' (v_PoolID rec) = None \<or> w_yb w' = st0
         | StatusConflict \<Rightarrow> False))"

lemma cas_row:
  assumes "q_GetForReconcile t i = Some rec"
    and "tx_UpdateCAS t rec (v_Version rec) np nb nr = Inr t'"
  shows "q_GetForReconcile t' i = Some \<lparr>v_Pool = (v_Pool rec)\<lparr>p_HomeEdge := np\<rparr>, v_PoolID = i, v_Primary = np,
    v_Backup = nb, v_Retiring = nr, v_Tokens = v_Tokens rec, v_Version = v_Version rec + 1\<rparr>"
proof -
  obtain r where r: "row_of t i = Some r" "v_PoolID rec = i" "v_Version rec = t_version r" "v_Tokens rec = t_cost r"
    using assms(1) by (auto simp: q_GetForReconcile_def)
  have "t_id r = i" using row_of_Some [OF r(1)] by simp
  then have "row_of t' i = Some (r\<lparr>t_home := np, t_backup := nullEdge nb, t_retiring := (nr \<noteq> []),
      t_body := with_home \<lparr>y_Pool = v_Pool rec, y_Primary = np, y_Backup = nb, y_Tokens = v_Tokens rec,
        y_RetiringEdge = nr\<rparr>, t_version := t_version r + 1\<rparr>)"
    using assms(2) r by (simp add: tx_UpdateCAS_Inr row_of_def find_map_id)
  then show ?thesis
    using r by (simp add: q_GetForReconcile_def with_home_def edge_of_def nullEdge_def)
qed

lemma cas_never_fails:
  assumes "q_GetForReconcile t i = Some rec"
  shows "tx_UpdateCAS t rec (v_Version rec) np nb nr \<noteq> Inl e"
proof -
  obtain r where r: "row_of t i = Some r" "v_PoolID rec = i" "v_Version rec = t_version r"
    using assms by (auto simp: q_GetForReconcile_def)
  then have "\<exists>r \<in> set (pools t). t_id r = v_PoolID rec \<and> t_version r = v_Version rec"
    using row_of_Some [OF r(1)] by auto
  then show ?thesis by (auto simp: tx_UpdateCAS_def Let_def)
qed

lemma delete_row:
  assumes "q_GetForReconcile t i = Some rec" "tables_inv t"
  shows "tx_DeleteCAS t (v_PoolID rec) (v_Version rec) \<noteq> Inl e"
    and "tx_DeleteCAS t (v_PoolID rec) (v_Version rec) = Inr t' \<Longrightarrow> q_GetForReconcile t' i = None"
proof -
  obtain r where r: "row_of t i = Some r" "v_PoolID rec = i" "v_Version rec = t_version r"
    using assms by (auto simp: q_GetForReconcile_def)
  have rs: "r \<in> set (pools t)" "t_id r = i" using row_of_Some [OF r(1)] by auto
  then show "tx_DeleteCAS t (v_PoolID rec) (v_Version rec) \<noteq> Inl e"
    using r by (auto simp: tx_DeleteCAS_def Let_def)
  assume d: "tx_DeleteCAS t (v_PoolID rec) (v_Version rec) = Inr t'"
  have v: "t_version r' = t_version r" if "r' \<in> set (pools t)" "t_id r' = i" for r'
    using that rs assms(2) by (auto simp: tables_inv_def distinct_map dest: inj_onD)
  have "pools t' = filter (\<lambda>r'. \<not> (t_id r' = i \<and> t_version r' = t_version r)) (pools t)"
    using d r by (auto simp: tx_DeleteCAS_def Let_def split: if_splits)
  then have "i \<notin> t_id ` set (pools t')" using v by auto
  then show "q_GetForReconcile t' i = None" by (simp add: q_GetForReconcile_def row_of_None)
qed

lemma row_pool_id:
  "q_GetForReconcile t i = Some rec \<Longrightarrow> tables_inv t \<Longrightarrow> p_ID (v_Pool rec) = v_PoolID rec \<and> v_PoolID rec = i"
  by (auto simp: q_GetForReconcile_def tables_inv_def dest: row_of_Some)

text \<open>A committed move whose new row is closer to the target.\<close>

lemma outcome_moved:
  assumes "q_GetForReconcile (tabs st0) i = Some rec" "tables_inv (tabs st0)" "faults st0 = []"
    and "tx_UpdateCAS (tabs st0) rec (v_Version rec) np nb nr = Inr t" "w_yb w' = st0\<lparr>tabs := t\<rparr>"
    and "\<And>rec'. v_Primary rec' = np \<Longrightarrow> v_Backup rec' = nb \<Longrightarrow> v_Retiring rec' = nr \<Longrightarrow>
           rank orc A rec' < rank orc A rec"
  shows "outcome orc A st0 rec (StatusActed, None) w'"
proof -
  have "v_PoolID rec = i" using row_pool_id assms(1,2) by blast
  moreover have "tables_inv t" using tx_UpdateCAS_inv [OF assms(2,4)] row_pool_id assms(1,2) by blast
  ultimately show ?thesis
    using cas_row [OF assms(1,4)] assms(3,5) by (auto simp: outcome_def clean_def intro!: assms(6))
qed

lemma outcome_same:
  assumes "tables_inv (tabs st0)" "faults st0 = []" "w_yb w' = st0"
    and "snd res = None \<Longrightarrow> fst res \<in> {StatusHealthy, StatusGated, StatusDegraded}"
    and "res = (StatusHealthy, None) \<Longrightarrow> rank orc A rec = 0"
    and "res = (StatusGated, None) \<Longrightarrow> rank orc A rec \<in> {2, 3}"
  shows "outcome orc A st0 rec res w'"
  using assms by (cases res) (auto simp: outcome_def clean_def)

section \<open>One pass\<close>

lemma wp_asyncDoubleDeath:
  assumes q: "quiet_env orc A" and w: "w_yb w = st0" "faults st0 = []" "tables_inv (tabs st0)"
    and rec: "q_GetForReconcile (tabs st0) i = Some rec"
  shows "wp (asyncDoubleDeath orc rec) (outcome orc A st0 rec) w"
proof -
  have same: "outcome orc A st0 rec (StatusDegraded, None) w'" if "w_yb w' = st0" for w'
    using w that by (intro outcome_same) auto
  have gone: "outcome orc A st0 rec (StatusDegraded, None) w'"
    if "tx_DeleteCAS (tabs st0) (v_PoolID rec) (v_Version rec) = Inr t" "w_yb w' = st0\<lparr>tabs := t\<rparr>" for t w'
    using that delete_row(2) [OF rec w(3)] row_pool_id [OF rec w(3)] tx_DeleteCAS_inv [OF w(3)] w(2)
    by (auto simp: outcome_def clean_def)
  have al: "keeps (if oc_onDblDeath orc then observe (EvDblDeath j b) else ret ())" for j b
    by (auto intro: keeps_prims)
  have fin: "wp (State_Monad.bind (bump_all orc (pv_homes rec)) (\<lambda>_. State_Monad.bind
      (if oc_onDblDeath orc then observe (EvDblDeath (v_PoolID rec) True) else ret ())
      (\<lambda>_. ret (StatusDegraded, None)))) (outcome orc A st0 rec) w'"
    if "tx_DeleteCAS (tabs st0) (v_PoolID rec) (v_Version rec) = Inr t" "w_yb w' = st0\<lparr>tabs := t\<rparr>" for t w'
    unfolding wp_bind
    by (rule wp_keeps [OF keeps_bump_all [OF q]], use that w in \<open>simp add: clean_def\<close>)
       (rule wp_keeps [OF al], use that w gone in \<open>auto simp: clean_def\<close>)
  show ?thesis
  proof (cases "FailOpenOnDoubleDeath (oc_cx orc) (v_Pool rec)")
    case True
    then show ?thesis
      unfolding asyncDoubleDeath_def Let_def wp_bind
      using w delete_row(1) [OF rec w(3)] fin
      by (auto simp: wp_bind clean_def intro!: wp_deleteCAS [OF q])
  next
    case False
    then show ?thesis
      unfolding asyncDoubleDeath_def Let_def if_not_P [OF False] wp_bind
      by (intro wp_keeps [OF al]) (use same w False in \<open>simp_all add: clean_def\<close>)
  qed
qed

lemma wp_placeBackup:
  assumes q: "quiet_env orc A" and w: "w_yb w = st0" "faults st0 = []" "tables_inv (tabs st0)"
    and rec: "q_GetForReconcile (tabs st0) i = Some rec" "v_Retiring rec = []"
    and e: "A e" and need: "\<not> A (v_Primary rec) \<Longrightarrow> rank orc A rec = 4" "A (v_Primary rec) \<Longrightarrow> rank orc A rec = 1"
    and ne: "e \<noteq> []"
  shows "wp (placeBackup orc rec e) (outcome orc A st0 rec) w"
proof -
  have "rank orc A rec' < rank orc A rec"
    if "v_Primary rec' = v_Primary rec" "v_Backup rec' = e" "v_Retiring rec' = v_Retiring rec" for rec'
    using that need e ne rec(2) by (cases "A (v_Primary rec)") (auto simp: rank_def)
  then have moved: "outcome orc A st0 rec (StatusActed, None) w'"
    if "tx_UpdateCAS (tabs st0) rec (v_Version rec) (v_Primary rec) e (v_Retiring rec) = Inr t"
      "w_yb w' = st0\<lparr>tabs := t\<rparr>" for t w'
    using outcome_moved [OF rec(1) w(3,2) that] by blast
  have b1: "keeps (if v_Backup rec \<noteq> [] \<and> v_Backup rec \<noteq> e then bump orc (v_Backup rec) else ret ())"
    using keeps_delivery [OF q] keeps_prims by auto
  have fin: "wp (State_Monad.bind (if v_Backup rec \<noteq> [] \<and> v_Backup rec \<noteq> e then bump orc (v_Backup rec) else ret ())
      (\<lambda>_. State_Monad.bind (bump orc e) (\<lambda>_. State_Monad.bind
        (notifyRedundancy orc ''backup-changed'' (v_PoolID rec) e []) (\<lambda>_. ret (StatusActed, None)))))
      (outcome orc A st0 rec) w'"
    if "tx_UpdateCAS (tabs st0) rec (v_Version rec) (v_Primary rec) e (v_Retiring rec) = Inr t"
      "w_yb w' = st0\<lparr>tabs := t\<rparr>" for t w'
    unfolding wp_bind
    by (rule wp_keeps [OF b1], use that w in \<open>simp add: clean_def\<close>,
        rule wp_keeps [OF keeps_delivery(1) [OF q]], use that w in \<open>simp add: clean_def\<close>,
        rule wp_keeps [OF keeps_notify(2)], use that w in \<open>simp add: clean_def\<close>)
       (use that moved in simp)
  show ?thesis
    unfolding placeBackup_def Let_def wp_bind
    by (rule wp_updateCAS [OF q]) (use w cas_never_fails [OF rec(1)] fin in \<open>auto simp: clean_def wp_bind\<close>)
qed

lemma wp_asyncProvisionBackup:
  fixes w :: "'s world"
  assumes q: "quiet_env orc A" "fair (oc_tb orc)"
    and w: "w_yb w = st0" "faults st0 = []" "tables_inv (tabs st0)"
    and rec: "q_GetForReconcile (tabs st0) i = Some rec" "v_Retiring rec = []"
    and need: "\<not> A (v_Primary rec) \<Longrightarrow> rank orc A rec = 4" "A (v_Primary rec) \<Longrightarrow> rank orc A rec = 1"
  shows "wp (asyncProvisionBackup orc rec []) (outcome orc A st0 rec) w"
proof -
  have place: "wp (placeBackup orc rec e) (outcome orc A st0 rec) w'" if "w_yb w' = st0" "A e" for w' e
    by (rule wp_placeBackup [OF q(1) that(1) w(2,3) rec that(2) need])
       (use that q(1) in \<open>auto simp: quiet_env_def\<close>)
  have dd: "wp (asyncDoubleDeath orc rec) (outcome orc A st0 rec) w'" if "w_yb w' = st0" for w'
    by (rule wp_asyncDoubleDeath [OF q(1) that w(2,3) rec(1)])
  have err: "outcome orc A st0 rec (st, Some x) w'" if "w_yb w' = st0" for st x w'
    using w that by (intro outcome_same) auto
  have spare: "wp (noSpareBackup orc rec er) (outcome orc A st0 rec) w'" if w': "w_yb w' = st0" for er w'
  proof -
    have lost: "wp (State_Monad.bind (notifyRedundancy orc k1 (v_PoolID rec) [] x1) (\<lambda>_.
        State_Monad.bind (notifyRedundancy orc k2 (v_PoolID rec) [] x2) (\<lambda>_.
        ret (StatusDegraded, Some (ErrNoPlacement None))))) (outcome orc A st0 rec) w''"
      if "w_yb w'' = st0" for w'' k1 k2 x1 x2
      unfolding wp_bind
      by (rule wp_keeps [OF keeps_notify(2)], use that w in \<open>simp add: clean_def\<close>,
          rule wp_keeps [OF keeps_notify(2)], use that w in \<open>simp add: clean_def\<close>)
         (use that err in simp)
    show ?thesis
      unfolding noSpareBackup_def wp_bind
      by (rule wp_alive [OF q(1)]) (use w' dd lost in \<open>auto simp: wp_bind\<close>)
  qed
  show ?thesis
    unfolding asyncProvisionBackup_def wp_bind
  proof (rule wp_liveCandidatesCap [OF q(1)])
    fix cands caps and w' :: "'s world"
    assume w': "w_yb w' = w_yb w" and c: "\<forall>e \<in> set cands. \<not> replaced rec [] e \<and> A e"
    have "wp (case select orc cc cands caps (v_Tokens rec) (length (p_Members (v_Pool rec))) 1 of
        Inl err \<Rightarrow> if no_spare err then noSpareBackup orc rec err else ret (StatusActed, Some (ESelect err))
      | Inr homes \<Rightarrow> placeBackup orc rec (hd homes)) (outcome orc A st0 rec) w''" if "w_yb w'' = st0" for cc w''
      using that spare place c err select_hd [OF _ q(2)]
      by (cases "select orc cc cands caps (v_Tokens rec) (length (p_Members (v_Pool rec))) 1") auto
    then show "wp (case Inr (cands, caps) of
        Inl err \<Rightarrow> ret (StatusActed, Some err)
      | Inr (cands, capBps) \<Rightarrow> State_Monad.bind get_cap (\<lambda>c.
          case select orc c cands capBps (v_Tokens rec) (length (p_Members (v_Pool rec))) 1 of
            Inl err \<Rightarrow> if no_spare err then noSpareBackup orc rec err else ret (StatusActed, Some (ESelect err))
          | Inr homes \<Rightarrow> placeBackup orc rec (hd homes))) (outcome orc A st0 rec) w'"
      unfolding sum.case prod.case wp_bind
      by (intro wp_keeps [OF keeps_prims(7)]) (use w w' in \<open>auto simp: clean_def\<close>)
  qed (use w err in \<open>auto simp: clean_def\<close>)
qed

lemma wp_retire_step:
  assumes q: "quiet_env orc A" and w: "w_yb w = st0" "faults st0 = []" "tables_inv (tabs st0)"
    and rec: "q_GetForReconcile (tabs st0) i = Some rec" "v_Retiring rec \<noteq> []"
  shows "wp (retire_step orc rec) (outcome orc A st0 rec) w"
proof -
  have gated: "outcome orc A st0 rec (StatusGated, None) w'" if "w_yb w' = st0" for w'
    using w that rec(2) by (intro outcome_same) (auto simp: rank_def)
  have moved: "wp (State_Monad.bind (bump orc (v_Retiring rec)) (\<lambda>_. ret (StatusActed, None)))
      (outcome orc A st0 rec) w'"
    if t: "tx_UpdateCAS (tabs st0) rec (v_Version rec) (v_Primary rec) (v_Backup rec) [] = Inr t"
      "w_yb w' = st0\<lparr>tabs := t\<rparr>" and al: "A (v_Primary rec)" for t w'
  proof -
    have "outcome orc A st0 rec (StatusActed, None) w''" if "w_yb w'' = st0\<lparr>tabs := t\<rparr>" for w''
      by (rule outcome_moved [OF rec(1) w(3,2) t(1) that]) (use al rec(2) in \<open>auto simp: rank_def\<close>)
    then show ?thesis
      unfolding wp_bind by (intro wp_keeps [OF keeps_delivery(1) [OF q]]) (use t w in \<open>auto simp: clean_def\<close>)
  qed
  show ?thesis
    unfolding retire_step_def wp_bind
    by (rule wp_keeps [OF keeps_edgeReady], use w in \<open>simp add: clean_def\<close>)
       (use w gated moved cas_never_fails [OF rec(1)] in
         \<open>auto simp: wp_bind clean_def intro!: wp_alive [OF q] wp_updateCAS [OF q]\<close>)
qed

lemma wp_promote_step:
  assumes q: "quiet_env orc A" "fair (oc_tb orc)"
    and w: "w_yb w = st0" "faults st0 = []" "tables_inv (tabs st0)"
    and rec: "q_GetForReconcile (tabs st0) i = Some rec" "v_Retiring rec = []" and dead: "\<not> A (v_Primary rec)"
  shows "wp (promote_step orc rec) (outcome orc A st0 rec) w"
proof -
  have prov: "wp (asyncProvisionBackup orc rec []) (outcome orc A st0 rec) w'"
    if "w_yb w' = st0" "v_Backup rec = [] \<or> \<not> A (v_Backup rec)" for w'
    by (rule wp_asyncProvisionBackup [OF q that(1) w(2,3) rec])
       (use that dead rec in \<open>auto simp: rank_def\<close>)
  have gated: "outcome orc A st0 rec (StatusGated, None) w'"
    if "w_yb w' = st0" "v_Backup rec \<noteq> []" "A (v_Backup rec)" for w'
    using w that dead rec(2) by (intro outcome_same) (auto simp: rank_def)
  have moved: "wp (State_Monad.bind (bumpGen orc (v_Backup rec)) (\<lambda>gen. State_Monad.bind
      (notifyFailover orc (v_PoolID rec) (v_Primary rec) (v_Backup rec) gen) (\<lambda>_. ret (StatusActed, None))))
      (outcome orc A st0 rec) w'"
    if t: "tx_UpdateCAS (tabs st0) rec (v_Version rec) (v_Backup rec) [] (v_Primary rec) = Inr t"
      "w_yb w' = st0\<lparr>tabs := t\<rparr>" and b: "v_Backup rec \<noteq> []" "A (v_Backup rec)" for t w'
  proof -
    have "outcome orc A st0 rec (StatusActed, None) w''" if "w_yb w'' = st0\<lparr>tabs := t\<rparr>" for w''
      by (rule outcome_moved [OF rec(1) w(3,2) t(1) that]) (use b dead rec(2) in \<open>auto simp: rank_def\<close>)
    then show ?thesis
      unfolding wp_bind
      by (intro wp_keeps [OF keeps_delivery(2) [OF q(1)]] wp_keeps [OF keeps_notify(1)])
         (use t w in \<open>auto simp: clean_def\<close>)
  qed
  show ?thesis
  proof (cases "v_Backup rec = [] \<or> \<not> A (v_Backup rec)")
    case True
    then show ?thesis
      unfolding promote_step_def wp_bind
      using prov w by (auto intro!: wp_alive [OF q(1)])
  next
    case False
    then show ?thesis
      unfolding promote_step_def wp_bind
      using w gated moved cas_never_fails [OF rec(1)]
      by (auto simp: wp_bind clean_def
          intro!: wp_alive [OF q(1)] wp_updateCAS [OF q(1)] wp_keeps [OF keeps_edgeReady])
  qed
qed

lemma wp_redundancy_step:
  assumes q: "quiet_env orc A" "fair (oc_tb orc)"
    and w: "w_yb w = st0" "faults st0 = []" "tables_inv (tabs st0)"
    and rec: "q_GetForReconcile (tabs st0) i = Some rec" "v_Retiring rec = []" and al: "A (v_Primary rec)"
  shows "wp (redundancy_step orc rec) (outcome orc A st0 rec) w"
proof -
  have fin: "wp (case r of (st, err) \<Rightarrow> (case err of
       Some (ErrNoPlacement _) \<Rightarrow> ret (StatusDegraded, None) | _ \<Rightarrow> ret (st, err))) (outcome orc A st0 rec) w'"
    if "outcome orc A st0 rec r w'" for r w'
    using that by (auto simp: outcome_def split: prod.splits option.splits orch_error.splits)
  have prov: "wp (asyncProvisionBackup orc rec []) (\<lambda>r. wp (case r of (st, err) \<Rightarrow> (case err of
       Some (ErrNoPlacement _) \<Rightarrow> ret (StatusDegraded, None) | _ \<Rightarrow> ret (st, err))) (outcome orc A st0 rec)) w'"
    if "w_yb w' = st0" "oc_replicas orc \<ge> 2" "v_Backup rec = [] \<or> \<not> A (v_Backup rec)" for w'
  proof -
    have "wp (asyncProvisionBackup orc rec []) (outcome orc A st0 rec) w'"
      by (rule wp_asyncProvisionBackup [OF q that(1) w(2,3) rec])
         (use that al rec in \<open>auto simp: rank_def\<close>)
    then show ?thesis using fin by (simp add: wp_def)
  qed
  have healthy: "outcome orc A st0 rec (StatusHealthy, None) w'"
    if "w_yb w' = st0" "oc_replicas orc < 2 \<or> v_Backup rec \<noteq> [] \<and> A (v_Backup rec)" for w'
    using w that al rec(2) by (intro outcome_same) (auto simp: rank_def)
  show ?thesis
  proof (cases "v_Backup rec = [] \<or> \<not> A (v_Backup rec)")
    case True
    then show ?thesis
      unfolding redundancy_step_def
      using prov healthy w by (auto simp: wp_bind intro!: wp_alive [OF q(1)])
  next
    case False
    then show ?thesis
      unfolding redundancy_step_def
      using healthy w by (auto simp: wp_bind intro!: wp_alive [OF q(1)])
  qed
qed

lemma ReconcilePool_outcome:
  assumes q: "quiet_env orc A" "fair (oc_tb orc)"
    and w: "faults (w_yb w) = []" "tables_inv (tabs (w_yb w))" "row_at w i = Some rec"
  shows "wp (ReconcilePool orc i) (outcome orc A (w_yb w) rec) w"
proof -
  have retire: "wp (retire_step orc rec) (outcome orc A (w_yb w) rec) w'"
    if "w_yb w' = w_yb w" "v_Retiring rec \<noteq> []" for w'
    using wp_retire_step [OF q(1) that(1) w(1,2,3) that(2)] .
  have promote: "wp (promote_step orc rec) (outcome orc A (w_yb w) rec) w'"
    if "w_yb w' = w_yb w" "v_Retiring rec = []" "\<not> A (v_Primary rec)" for w'
    using wp_promote_step [OF q that(1) w(1,2,3) that(2,3)] .
  have restore: "wp (redundancy_step orc rec) (outcome orc A (w_yb w) rec) w'"
    if "w_yb w' = w_yb w" "v_Retiring rec = []" "A (v_Primary rec)" for w'
    using wp_redundancy_step [OF q that(1) w(1,2,3) that(2,3)] .
  show ?thesis
    unfolding ReconcilePool_def wp_bind
    by (rule wp_getPivot [OF q(1)])
       (use w retire promote restore in \<open>auto simp: wp_bind clean_def intro!: wp_alive [OF q(1)]\<close>)
qed

section \<open>Sequences of passes\<close>

fun passes :: "'s orch \<Rightarrow> pool_id \<Rightarrow> nat \<Rightarrow> ('s, reconcile_result list) om" where
  "passes orc i 0 = ret []"
| "passes orc i (Suc n) = do { r \<leftarrow> ReconcilePool orc i; rs \<leftarrow> passes orc i n; ret (r # rs) }"

definition acting :: "reconcile_result \<Rightarrow> bool" where
  "acting r \<longleftrightarrow> r = (StatusActed, None)"

lemma ReconcilePool_absent:
  assumes "quiet_env orc A" "clean w" "row_at w i = None"
  shows "wp (ReconcilePool orc i) (\<lambda>r _. r = (StatusHealthy, None)) w"
  unfolding ReconcilePool_def wp_bind
  by (rule wp_getPivot [OF assms(1,2)]) (simp add: assms(3))

lemma passes_rank:
  assumes "quiet_env orc A" "fair (oc_tb orc)"
    and "faults (w_yb w) = []" "tables_inv (tabs (w_yb w))" "row_at w i = Some rec"
  shows "length (takeWhile acting (fst (run_state (passes orc i n) w))) \<le> rank orc A rec"
  using assms(3-5)
proof (induction n arbitrary: w rec)
  case (Suc n)
  obtain r w1 where r: "run_state (ReconcilePool orc i) w = (r, w1)" by fastforce
  have out: "outcome orc A (w_yb w) rec r w1"
    using ReconcilePool_outcome [OF assms(1,2) Suc.prems] r by (simp add: wp_def)
  show ?case
  proof (cases "acting r")
    case True
    then obtain rec' where rec': "row_at w1 i = Some rec'" "rank orc A rec' < rank orc A rec"
      using out row_pool_id [OF Suc.prems(3,2)] by (auto simp: outcome_def acting_def)
    moreover have "faults (w_yb w1) = []" "tables_inv (tabs (w_yb w1))"
      using out by (auto simp: outcome_def clean_def)
    ultimately have "length (takeWhile acting (fst (run_state (passes orc i n) w1))) \<le> rank orc A rec'"
      using Suc.IH by blast
    then show ?thesis using r rec'(2) True by (simp add: ret_def split_beta)
  next
    case False
    then show ?thesis using r by (simp add: ret_def split_beta)
  qed
qed (simp add: ret_def)

lemma rank_le: "rank orc A rec \<le> 4"
  by (simp add: rank_def)

text \<open>C4: A migration settles. When no other replica writes, the database answers and liveness is stable,
  a pool is re-homed, its old primary retired and its backup restored in at most four acting
  passes, from whatever state it is in: among consecutive reconcile passes at most four take a step
  without an error before one reports healthy, gated, degraded or an error.\<close>

theorem migration_settles:
  assumes "quiet_env orc A" "fair (oc_tb orc)" "faults (w_yb w) = []" "tables_inv (tabs (w_yb w))"
  shows "length (takeWhile acting (fst (run_state (passes orc i n) w))) \<le> 4"
proof (cases "row_at w i")
  case None
  then have "fst (run_state (ReconcilePool orc i) w) = (StatusHealthy, None)"
    using ReconcilePool_absent [OF assms(1)] assms(3) by (simp add: wp_def clean_def)
  then show ?thesis by (cases n) (simp_all add: ret_def split_beta acting_def)
next
  case (Some rec)
  show ?thesis by (rule order_trans [OF passes_rank [OF assms Some] rank_le])
qed


definition demo_single :: "cluster orch" where
  "demo_single = demo_orch\<lparr>oc_edgever := None\<rparr>"

lemma demo_quiet: "quiet_env demo_single (\<lambda>e. e = ''e2'' \<or> e = ''e3'')"
  by (simp add: quiet_env_def demo_single_def demo_orch_def alive_at_def)

lemma demo_world_ok:
  "fair (oc_tb demo_single)" "faults (w_yb demo_world) = []" "tables_inv (tabs (w_yb demo_world))"
  "row_at demo_world 1 = Some (demo_pivot\<lparr>v_Pool := (v_Pool demo_pivot)\<lparr>p_HomeEdge := ''e1''\<rparr>\<rparr>)"
  using demo_tables_inv
  by (simp_all add: demo_single_def demo_orch_def fair_def demo_world_def q_GetForReconcile_def row_of_def
      demo_tables_eq edge_of_def with_home_def demo_yb_rec_def demo_pivot_def)

theorem migration_settles_witness:
  "fst (run_state (passes demo_single 1 2) demo_world) = [(StatusActed, None), (StatusActed, None)]
   \<and> length (takeWhile acting (fst (run_state (passes demo_single 1 9) demo_world))) \<le> 4"
proof
  show "fst (run_state (passes demo_single 1 2) demo_world) = [(StatusActed, None), (StatusActed, None)]"
    by code_simp
  show "length (takeWhile acting (fst (run_state (passes demo_single 1 9) demo_world))) \<le> 4"
    by (rule migration_settles [OF demo_quiet demo_world_ok(1-3)])
qed


section \<open>A retiring marker outlives the new primary\<close>

lemma retire_step_gated:
  assumes q: "quiet_env orc A" and w: "clean w" and dead: "\<not> A (v_Primary rec)"
    and "\<And>w'. w_yb w' = w_yb w \<Longrightarrow> Q (StatusGated, None) w'"
  shows "wp (retire_step orc rec) Q w"
  unfolding retire_step_def wp_bind
  by (rule wp_keeps [OF keeps_edgeReady w]) (use assms(4) dead in \<open>auto simp: wp_bind intro!: wp_alive [OF q]\<close>)

lemma ReconcilePool_gated:
  assumes q: "quiet_env orc A" and w: "clean w" "row_at w i = Some rec" "v_Retiring rec \<noteq> []" "\<not> A (v_Primary rec)"
  shows "wp (ReconcilePool orc i) (\<lambda>r w'. r = (StatusGated, None) \<and> w_yb w' = w_yb w) w"
  unfolding ReconcilePool_def wp_bind
  by (rule wp_getPivot [OF q w(1)]) (use w in \<open>auto intro!: retire_step_gated [OF q] simp: clean_def\<close>)

text \<open>A pool whose new primary dies before the old one is retired is stuck: in a quiet environment, as
  long as a retiring marker is set and the primary is dead, every reconcile pass reports gated and writes
  nothing, whatever live edges with free capacity there are.\<close>

theorem retiring_with_dead_primary_is_stuck:
  assumes "quiet_env orc A" "clean w" "row_at w i = Some rec" "v_Retiring rec \<noteq> []" "\<not> A (v_Primary rec)"
  shows "fst (run_state (passes orc i n) w) = replicate n (StatusGated, None)
    \<and> w_yb (snd (run_state (passes orc i n) w)) = w_yb w"
  using assms(2,3)
proof (induction n arbitrary: w)
  case (Suc n)
  obtain r w1 where r: "run_state (ReconcilePool orc i) w = (r, w1)" by fastforce
  have out: "r = (StatusGated, None)" "w_yb w1 = w_yb w"
    using ReconcilePool_gated [OF assms(1) Suc.prems assms(4,5)] r by (simp_all add: wp_def)
  then have "clean w1" "row_at w1 i = Some rec" using Suc.prems by (simp_all add: clean_def)
  from Suc.IH [OF this] show ?case using r out by (simp add: ret_def split_beta)
qed (simp add: ret_def)

text \<open>Pool 1 was just promoted from e1 to e2, which died: e3 is alive and has room.\<close>

definition demo_stuck :: "cluster orch" where
  "demo_stuck = demo_single\<lparr>oc_isAlive := Some (\<lambda>n e. e = ''e3'')\<rparr>"

definition demo_half :: "cluster world" where
  "demo_half = demo_world\<lparr>w_yb := (w_yb demo_world)\<lparr>tabs :=
     (case tx_UpdateCAS demo_tables demo_pivot 1 ''e2'' [] ''e1'' of Inr t \<Rightarrow> t | Inl _ \<Rightarrow> demo_tables)\<rparr>\<rparr>"

theorem retiring_with_dead_primary_is_stuck_witness:
  "fst (run_state (passes demo_stuck 1 50) demo_half) = replicate 50 (StatusGated, None)"
proof -
  have q: "quiet_env demo_stuck (\<lambda>e. e = ''e3'')"
    by (simp add: quiet_env_def demo_stuck_def demo_single_def demo_orch_def alive_at_def)
  have c: "clean demo_half" by (simp add: clean_def demo_half_def demo_world_def)
  have "map_option (\<lambda>r. (v_Retiring r, v_Primary r)) (row_at demo_half 1) = Some (''e1'', ''e2'')" by code_simp
  then obtain rec where rec: "row_at demo_half 1 = Some rec" "v_Retiring rec \<noteq> []" "\<not> v_Primary rec = ''e3''"
    by auto
  from retiring_with_dead_primary_is_stuck [OF q c rec] show ?thesis by blast
qed

end
