(* ===== verification/Lifecycle.thy ===== *)
theory Lifecycle
  imports Progress
begin

text \<open>
  The pool transactions of the orchestrator (\<open>internal/orchestrator/orchestrator.go\<close>): create, update,
  remove a member, destroy with its restore path. They run on the store of \<open>YbStore\<close> with
  peers and faults, place with \<open>Scheduler\<close> and deliver through \<open>Orch\<close>.
\<close>

section \<open>Create\<close>

text \<open>Best effort deliveries: the error is only logged.\<close>

fun deliver_all :: "'s orch \<Rightarrow> edge_id list \<Rightarrow> ('s, unit) om" where
  "deliver_all orc [] = ret ()"
| "deliver_all orc (e # es) = do { _ \<leftarrow> deliverEdge orc e; deliver_all orc es }"

definition rollbackCreate :: "'s orch \<Rightarrow> pool_record \<Rightarrow> ('s, unit) om" where
  "rollbackCreate orc rec = do {
     _ \<leftarrow> yb orc (\<lambda>st. Delete st (p_ID (pr_Pool rec)));
     deliver_all orc (Homes rec)
   }"

definition placed_record :: "'s orch \<Rightarrow> pool \<Rightarrow> int \<Rightarrow> edge_id list \<Rightarrow> pool_record" where
  "placed_record orc p tokens homes =
     (let two = (oc_replicas orc \<ge> 2) in
      \<lparr>pr_Pool = p\<lparr>p_HomeEdge := homes ! 0\<rparr>, pr_Primary = homes ! 0,
       pr_Backup = (if two then homes ! 1 else []),
       pr_PrimaryResvID = resvID (p_ID p) (homes ! 0),
       pr_BackupResvID = (if two then resvID (p_ID p) (homes ! 1) else []),
       pr_Tokens = tokens, pr_CreatedAt = 0, pr_Retiring = [], pr_RetiringResvID = []\<rparr>)"

text \<open>The job of the hot path: the primary's delta carries the generation minted for the caller.\<close>

definition create_job :: "pool \<Rightarrow> edge_id list \<Rightarrow> u64 \<Rightarrow> job" where
  "create_job p homes gen = \<lparr>jb_pool = p,
     jb_homes = map (\<lambda>(n, e). (e, n > 0, if n = 0 then gen else 0)) (enumerate 0 homes)\<rparr>"

definition premint :: "'s orch \<Rightarrow> edge_id \<Rightarrow> ('s, u64) om" where
  "premint orc e = (if e \<noteq> [] then nextGenForEdge orc e else ret 0)"

text \<open>What happens after placement: persist, roll back on an error, dispatch the pushes.\<close>

definition persistCreate ::
  "'s orch \<Rightarrow> pool \<Rightarrow> int \<Rightarrow> pool_record \<Rightarrow> ('s, orch_error + pool_record \<times> edge_id \<times> u64) om"
where
  "persistCreate orc p tokens rec = do {
     r \<leftarrow> yb orc (\<lambda>st. CreatePool st \<lparr>y_Pool = p, y_Primary = pr_Primary rec, y_Backup = pr_Backup rec,
            y_Tokens = tokens, y_RetiringEdge = []\<rparr> (p_Members p));
     (case r of
        Inl e \<Rightarrow>
          if e = ErrExists then ret (Inl (EPoolExists (p_ID p)))
          else do { rollbackCreate orc rec; ret (Inl (EStore e)) }
      | Inr _ \<Rightarrow> do {
          gen \<leftarrow> premint orc (pr_Primary rec);
          dispatch orc (create_job p (Homes rec) gen);
          ret (Inr (rec, pr_Primary rec, gen))
        })
   }"

text \<open>A \<open>nonce\<close> is accepted by the source and not used.\<close>

definition CreatePoolNonceGen ::
  "'s orch \<Rightarrow> pool \<Rightarrow> int \<Rightarrow> ('s, orch_error + pool_record \<times> edge_id \<times> u64) om"
where
  "CreatePoolNonceGen orc p tokens =
     (if tokens < 0 then ret (Inl (ETokens (p_ID p)))
      else do {
        ex \<leftarrow> yb orc (\<lambda>st. Get st (p_ID p));
        (case ex of
           Inl e \<Rightarrow> ret (Inl (EStore e))
         | Inr (Some _) \<Rightarrow> ret (Inl (EAlreadyExists (p_ID p)))
         | Inr None \<Rightarrow>
             tryE (liveCandidatesCap orc (\<lambda>_. False)) (\<lambda>(cands, capBps). do {
               c \<leftarrow> get_cap;
               (case select orc c cands capBps tokens (length (p_Members p)) (oc_replicas orc) of
                  Inl e \<Rightarrow> ret (Inl (if no_spare e then ErrNoPlacement (Some e) else ESelect e))
                | Inr homes \<Rightarrow> persistCreate orc p tokens (placed_record orc p tokens homes))
             }))
      })"

section \<open>Update\<close>

text \<open>A record that was gone when it was read back is the zero record, \<open>None\<close>.\<close>

definition plain_record :: "pool \<Rightarrow> edge_id \<Rightarrow> edge_id \<Rightarrow> int \<Rightarrow> pool_record" where
  "plain_record p pri bak tok = \<lparr>pr_Pool = p, pr_Primary = pri, pr_Backup = bak, pr_PrimaryResvID = [],
     pr_BackupResvID = [], pr_Tokens = tok, pr_CreatedAt = 0,
     pr_Retiring = [], pr_RetiringResvID = []\<rparr>"

definition yb_homes :: "yb_record \<Rightarrow> edge_id list" where
  "yb_homes r = y_Primary r # (if y_Backup r \<noteq> [] then [y_Backup r] else [])"

definition UpdatePoolGen ::
  "'s orch \<Rightarrow> pool \<Rightarrow> int \<Rightarrow> ('s, orch_error + pool_record option \<times> edge_id \<times> u64) om"
where
  "UpdatePoolGen orc newPool newTokens =
     (if newTokens < 0 then ret (Inl (ETokens (p_ID newPool)))
      else do {
        ex \<leftarrow> yb orc (\<lambda>st. Get st (p_ID newPool));
        (case ex of
           Inl e \<Rightarrow> ret (Inl (EStore e))
         | Inr None \<Rightarrow> ret (Inl (ENotFound (p_ID newPool)))
         | Inr (Some ybr) \<Rightarrow>
             let ybr = ybr\<lparr>y_Pool := newPool, y_Tokens := newTokens\<rparr> in do {
               u \<leftarrow> yb orc (\<lambda>st. UpdatePool st ybr (p_Members newPool));
               (case u of
                  Inl e \<Rightarrow> ret (Inl (if e = ErrNotFound then ENotFound (p_ID newPool) else EStore e))
                | Inr _ \<Rightarrow> do {
                    gen \<leftarrow> premint orc (y_Primary ybr);
                    dispatch orc (create_job newPool (yb_homes ybr) gen);
                    r \<leftarrow> yb orc (\<lambda>st. Get st (p_ID newPool));
                    ret (Inr (case r of
                        Inl _ \<Rightarrow> Some (plain_record newPool (y_Primary ybr) (y_Backup ybr) newTokens)
                      | Inr x \<Rightarrow> map_option (\<lambda>x. plain_record (y_Pool x) (y_Primary x) (y_Backup x) (y_Tokens x)) x,
                      y_Primary ybr, gen))
                  })
             })
      })"

section \<open>Members\<close>

record srcmap_record =
  sm_Src :: pfx
  sm_Home :: edge_id
  sm_PoolID :: pool_id
  sm_UpdatedAt :: int

definition orch_MemberConflicts ::
  "'s orch \<Rightarrow> member list \<Rightarrow> pool_id \<Rightarrow> ('s, orch_error + srcmap_record list) om"
where
  "orch_MemberConflicts orc ms excl = do {
     r \<leftarrow> yb orc (\<lambda>st. MemberConflicts st (map m_Prefix ms) excl);
     ret (map_sum EStore (map (\<lambda>c. \<lparr>sm_Src = cf_Prefix c, sm_Home = [], sm_PoolID = cf_PoolID c, sm_UpdatedAt = 0\<rparr>)) r)
   }"

text \<open>Delivery of every home in order; the first error stops.\<close>

fun deliver_each :: "'s orch \<Rightarrow> edge_id list \<Rightarrow> ('s, orch_error option) om" where
  "deliver_each orc [] = ret None"
| "deliver_each orc (e # es) = do {
     err \<leftarrow> deliverEdge orc e;
     (case err of Some x \<Rightarrow> ret (Some x) | None \<Rightarrow> deliver_each orc es)
   }"

definition orch_RemoveMember :: "'s orch \<Rightarrow> pool_id \<Rightarrow> pfx \<Rightarrow> ('s, orch_error + pool_record) om" where
  "orch_RemoveMember orc i pre = do {
     ex \<leftarrow> yb orc (\<lambda>st. Get st i);
     (case ex of
        Inl e \<Rightarrow> ret (Inl (EStore e))
      | Inr None \<Rightarrow> ret (Inl (ENotFound i))
      | Inr (Some ybr) \<Rightarrow>
          let kept = filter (\<lambda>m. m_Prefix m \<noteq> pre) (p_Members (y_Pool ybr)) in
          if length kept = length (p_Members (y_Pool ybr))
          then ret (Inr (plain_record (y_Pool ybr) (y_Primary ybr) (y_Backup ybr) (y_Tokens ybr)))
          else do {
            u \<leftarrow> yb orc (\<lambda>st. RemoveMember st i pre);
            (case u of
               Inl e \<Rightarrow> ret (Inl (EStore e))
             | Inr _ \<Rightarrow> do {
                 err \<leftarrow> deliver_each orc (yb_homes ybr);
                 (case err of
                    Some x \<Rightarrow> ret (Inl x)
                  | None \<Rightarrow> ret (Inr (plain_record ((y_Pool ybr)\<lparr>p_Members := kept\<rparr>) (y_Primary ybr)
                              (y_Backup ybr) (y_Tokens ybr))))
               })
          })
   }"

section \<open>Destroy\<close>

definition restoreDestroyed :: "'s orch \<Rightarrow> pool_record \<Rightarrow> edge_id \<Rightarrow> orch_error \<Rightarrow> ('s, orch_error) om" where
  "restoreDestroyed orc rec edge cause = do {
     _ \<leftarrow> yb orc (\<lambda>st. CreatePool st \<lparr>y_Pool = pr_Pool rec, y_Primary = pr_Primary rec,
            y_Backup = pr_Backup rec, y_Tokens = pr_Tokens rec, y_RetiringEdge = []\<rparr>
            (p_Members (pr_Pool rec)));
     deliver_all orc (Homes rec);
     ret (EWithdraw edge cause)
   }"

text \<open>The withdraw loop over the homes: the generation of the primary and the homes of other replicas.\<close>

fun withdraw_homes ::
  "'s orch \<Rightarrow> edge_id \<Rightarrow> u64 \<Rightarrow> edge_id list \<Rightarrow> edge_id list \<Rightarrow>
   ('s, edge_id \<times> orch_error + u64 \<times> edge_id list) om"
where
  "withdraw_homes orc pri gen cross [] = ret (Inr (gen, cross))"
| "withdraw_homes orc pri gen cross (e # es) = do {
     here \<leftarrow> locallyDeliverable orc e;
     if here then do {
       (g, _, err) \<leftarrow> renderAndPushGen orc e;
       (case err of
          Some x \<Rightarrow> ret (Inl (e, x))
        | None \<Rightarrow> withdraw_homes orc pri (if e = pri then g else gen) cross es)
     } else do { bump orc e; withdraw_homes orc pri gen (cross @ [e]) es }
   }"

fun confirm_withdraw :: "'s orch \<Rightarrow> edge_id list \<Rightarrow> ('s, (edge_id \<times> orch_error) option) om" where
  "confirm_withdraw orc [] = ret None"
| "confirm_withdraw orc (e # es) = do {
     err \<leftarrow> waitEdgeApplied orc e;
     (case err of Some x \<Rightarrow> ret (Some (e, x)) | None \<Rightarrow> confirm_withdraw orc es)
   }"

definition DestroyPoolGen :: "'s orch \<Rightarrow> pool_id \<Rightarrow> ('s, orch_error + edge_id \<times> u64) om" where
  "DestroyPoolGen orc i = do {
     ex \<leftarrow> yb orc (\<lambda>st. Get st i);
     (case ex of
        Inl e \<Rightarrow> ret (Inl (EStore e))
      | Inr None \<Rightarrow> ret (Inr ([], 0))
      | Inr (Some ybr) \<Rightarrow>
          let rec = plain_record ((y_Pool ybr)\<lparr>p_HomeEdge := y_Primary ybr\<rparr>) (y_Primary ybr) (y_Backup ybr)
                      (y_Tokens ybr) in do {
            d \<leftarrow> yb orc (\<lambda>st. DestroyPool st i);
            (case d of
               Inl e \<Rightarrow> ret (Inl (EStore e))
             | Inr _ \<Rightarrow> do {
                 wd \<leftarrow> withdraw_homes orc (pr_Primary rec) 0 [] (Homes rec);
                 (case wd of
                    Inl (e, x) \<Rightarrow> do { err \<leftarrow> restoreDestroyed orc rec e x; ret (Inl err) }
                  | Inr (gen, cross) \<Rightarrow> do {
                      cf \<leftarrow> confirm_withdraw orc cross;
                      (case cf of
                         Some (e, x) \<Rightarrow> do { err \<leftarrow> restoreDestroyed orc rec e x; ret (Inl err) }
                       | None \<Rightarrow> ret (Inr (pr_Primary rec, gen)))
                    })
               })
          })
   }"

section \<open>A create is all or nothing\<close>

text \<open>
  The result of a create that started in world \<open>w\<close>, in a quiet environment: an error leaves the tables as
  they were; success placed the pool on distinct live homes with room for it, committed its row and
  members, and minted the primary's generation, which the first push of the job carries.
\<close>

definition homes_ok ::
  "'s orch \<Rightarrow> (edge_id \<Rightarrow> bool) \<Rightarrow> capacity_cache \<Rightarrow> pool \<Rightarrow> int \<Rightarrow> edge_id list \<Rightarrow> bool"
where
  "homes_ok orc A c p tokens homes \<longleftrightarrow>
     length homes = (if oc_replicas orc \<ge> 2 then 2 else 1) \<and> distinct homes \<and> (\<forall>e \<in> set homes. A e) \<and>
     (\<exists>capBps. \<forall>e \<in> set homes. qualifies (remaining_of c capBps) tokens
        (fst (sessionConstraint orc c (length (p_Members p))))
        (snd (sessionConstraint orc c (length (p_Members p)))) e)"

definition created ::
  "'s orch \<Rightarrow> (edge_id \<Rightarrow> bool) \<Rightarrow> 's world \<Rightarrow> pool \<Rightarrow> int \<Rightarrow>
   orch_error + pool_record \<times> edge_id \<times> u64 \<Rightarrow> 's world \<Rightarrow> bool"
where
  "created orc A w p tokens res w' \<longleftrightarrow>
     (case res of
        Inl e \<Rightarrow> tabs (w_yb w') = tabs (w_yb w)
      | Inr (rec, e, gen) \<Rightarrow>
          e = pr_Primary rec \<and> homes_ok orc A (w_cap w) p tokens (Homes rec) \<and>
          tx_CreatePool (tabs (w_yb w)) \<lparr>y_Pool = p, y_Primary = pr_Primary rec, y_Backup = pr_Backup rec,
            y_Tokens = tokens, y_RetiringEdge = []\<rparr> (p_Members p) = Inr (tabs (w_yb w')) \<and>
          (\<not> oc_sync orc \<longrightarrow> w_genCtr w' e = Some gen \<and>
             w_jobs w' = w_jobs w @ [create_job p (Homes rec) gen] \<and>
             jb_homes (last (w_jobs w')) ! 0 = (e, False, gen)))"

lemma keeps_deliverEdge: "quiet_env orc A \<Longrightarrow> keeps (deliverEdge orc e)"
proof -
  assume q: "quiet_env orc A"
  have "keeps (locallyDeliverable orc e)"
    by (auto simp: locallyDeliverable_def keeps_def ret_def split: option.splits)
  moreover have "keeps (renderAndPush orc e)"
    unfolding renderAndPush_def
    by (intro keeps_bind keeps_renderAndPushGen [OF q]) (auto intro: keeps_prims split: prod.splits)
  ultimately show ?thesis
    unfolding deliverEdge_def by (auto intro!: keeps_bind keeps_prims keeps_delivery [OF q])
qed

lemma keeps_deliver_all: "quiet_env orc A \<Longrightarrow> keeps (deliver_all orc es)"
  by (induction es) (auto intro!: keeps_bind keeps_prims keeps_deliverEdge)

text \<open>Deleting a pool that is not there changes nothing.\<close>

lemma delete_absent:
  assumes "tables_inv t" "row_of t i = None"
  shows "tx_Delete t i = Inr t"
proof -
  have "filter (\<lambda>r. mt_pool r \<noteq> i) (members t) = members t" "filter (\<lambda>r. t_id r \<noteq> i) (pools t) = pools t"
    using assms by (auto simp: row_of_None tables_inv_def intro!: filter_True)
  then show ?thesis by (simp add: tx_Delete_def)
qed

lemma wp_rollbackCreate:
  assumes q: "quiet_env orc A" and w: "faults (w_yb w) = []" "tables_inv (tabs (w_yb w))"
    and "row_of (tabs (w_yb w)) (p_ID (pr_Pool rec)) = None"
    and "\<And>w'. tabs (w_yb w') = tabs (w_yb w) \<Longrightarrow> Q () w'"
  shows "wp (rollbackCreate orc rec) Q w"
proof -
  have "Delete (w_yb w) (p_ID (pr_Pool rec)) = (w_yb w, Inr ())"
    using w delete_absent [OF w(2) assms(4)] by (simp add: Delete_def write_tx_def next_fault_def)
  then have "wp (yb orc (\<lambda>st. Delete st (p_ID (pr_Pool rec)))) (\<lambda>_ w'. w_yb w' = w_yb w) w"
    using q by (simp add: wp_def yb_def quiet_env_def)
  then show ?thesis
    unfolding rollbackCreate_def wp_bind
    using assms(5) w by (auto simp: wp_def [of "yb orc _"] clean_def intro!: wp_keeps [OF keeps_deliver_all [OF q]])
qed

definition frame :: "('s, 'a) om \<Rightarrow> bool" where
  "frame m \<longleftrightarrow> (\<forall>w. w_cap (snd (run_state m w)) = w_cap w \<and> w_jobs (snd (run_state m w)) = w_jobs w)"

lemma frame_bind: "frame m \<Longrightarrow> (\<And>r. frame (f r)) \<Longrightarrow> frame (State_Monad.bind m f)"
  by (simp add: frame_def split_beta)

lemma frame_prims: "frame (ret x)" "frame (etcd g)" "frame (alive orc e)" "frame (yb orc k)"
  by (simp_all add: frame_def ret_def etcd_def alive_def yb_def Let_def split_beta)

lemma frame_live_loop: "frame (live_loop orc excl as out caps)"
  by (induction as arbitrary: out caps) (auto intro!: frame_bind frame_prims)

lemma frame_liveCandidatesCap: "frame (liveCandidatesCap orc excl)"
  unfolding liveCandidatesCap_def
  by (auto intro!: frame_bind frame_prims frame_live_loop split: sum.splits)

lemma wp_frame:
  assumes "frame m" "wp m (\<lambda>r w'. w_cap w' = w_cap w \<and> w_jobs w' = w_jobs w \<longrightarrow> Q r w') w"
  shows "wp m Q w"
  using assms by (simp add: wp_def frame_def)

lemma select_homes_ok:
  assumes "select orc c cands capBps tokens (length (p_Members p)) (oc_replicas orc) = Inr homes"
    and "fair (oc_tb orc)" "oc_replicas orc \<in> {1, 2}" "\<forall>e \<in> set cands. A e" "\<not> A []"
  shows "homes_ok orc A c p tokens (Homes (placed_record orc p tokens homes))"
    and "pr_Primary (placed_record orc p tokens homes) \<noteq> []"
proof -
  obtain rs ns where sc: "sessionConstraint orc c (length (p_Members p)) = (rs, ns)" by fastforce
  then have "SelectHomes (oc_tb orc) cands (remaining_of c capBps) tokens rs ns (oc_replicas orc) = Inr homes"
    using assms(1) by (simp add: select_def)
  note sel = this
  have pos: "0 < oc_replicas orc" using assms(3) by auto
  have ok: "length homes = nat (oc_replicas orc)" "distinct homes" "set homes \<subseteq> set cands"
    "\<forall>e \<in> set homes. qualifies (remaining_of c capBps) tokens rs ns e"
    by (rule SelectHomes_ok [OF sel assms(2) pos])+
  have ne: "e \<noteq> []" if "e \<in> set homes" for e using that ok(3) assms(4,5) by auto
  have h: "Homes (placed_record orc p tokens homes) = homes"
  proof (cases "oc_replicas orc = 1")
    case True
    then obtain a where "homes = [a]" using ok(1) by (cases homes) auto
    then show ?thesis using True by (simp add: Homes_def placed_record_def Let_def)
  next
    case False
    then have two: "oc_replicas orc = 2" using assms(3) by simp
    then obtain a b where "homes = [a, b]" using ok(1) by (cases homes; cases "tl homes") auto
    then show ?thesis using two ne [of b] by (simp add: Homes_def placed_record_def Let_def)
  qed
  show "homes_ok orc A c p tokens (Homes (placed_record orc p tokens homes))"
    unfolding homes_ok_def h sc fst_conv snd_conv
  proof (intro conjI exI [of _ capBps])
    show "length homes = (if oc_replicas orc \<ge> 2 then 2 else 1)" using ok(1) assms(3) by auto
    show "\<forall>e \<in> set homes. A e" using ok(3) assms(4) by blast
  qed (rule ok)+
  show "pr_Primary (placed_record orc p tokens homes) \<noteq> []"
  proof -
    have "0 < length homes" using ok(1) pos by simp
    then have "homes ! 0 \<noteq> []" by (intro ne nth_mem)
    then show ?thesis by (simp add: placed_record_def Let_def)
  qed
qed

lemma CreatePool_clean:
  "faults st = [] \<Longrightarrow> CreatePool st r ms = (case tx_CreatePool (tabs st) r ms of
     Inl e \<Rightarrow> (st, Inl e) | Inr t \<Rightarrow> (st\<lparr>tabs := t\<rparr>, Inr ()))"
  by (simp add: CreatePool_def write_tx_def next_fault_def)

lemma create_job_first:
  "Homes rec \<noteq> [] \<and> jb_homes (create_job p (Homes rec) gen) ! 0 = (pr_Primary rec, False, gen)"
  by (simp add: Homes_def create_job_def)

lemma wp_persistCreate:
  assumes q: "quiet_env orc A" and w: "faults (w_yb w) = []" "tables_inv (tabs (w_yb w))"
    and absent: "row_of (tabs (w_yb w)) (p_ID p) = None"
    and rec: "p_ID (pr_Pool rec) = p_ID p" "pr_Primary rec \<noteq> []"
    and ok: "homes_ok orc A (w_cap w) p tokens (Homes rec)" and sync: "\<not> oc_sync orc"
  shows "wp (persistCreate orc p tokens rec) (created orc A w p tokens) w"
proof -
  let ?r = "\<lparr>y_Pool = p, y_Primary = pr_Primary rec, y_Backup = pr_Backup rec, y_Tokens = tokens,
    y_RetiringEdge = []\<rparr>"
  show ?thesis
  proof (cases "tx_CreatePool (tabs (w_yb w)) ?r (p_Members p)")
    case (Inl e)
    then have "run_state (yb orc (\<lambda>st. CreatePool st ?r (p_Members p))) w = (Inl e, w\<lparr>w_now := w_now w + 1\<rparr>)"
      using q w(1) by (simp add: yb_def quiet_env_def CreatePool_clean)
    then have "wp (yb orc (\<lambda>st. CreatePool st ?r (p_Members p))) Q w = Q (Inl e) (w\<lparr>w_now := w_now w + 1\<rparr>)" for Q
      by (simp add: wp_def)
    note y = this
    define w1 where "w1 = w\<lparr>w_now := w_now w + 1\<rparr>"
    have w1: "w_yb w1 = w_yb w" by (simp add: w1_def)
    have undo: "wp (State_Monad.bind (rollbackCreate orc rec) (\<lambda>_. ret (Inl x))) (created orc A w p tokens) w1" for x
      unfolding wp_bind
    proof (rule wp_rollbackCreate [OF q])
      fix w' :: "'a world"
      assume "tabs (w_yb w') = tabs (w_yb w1)"
      then show "wp (ret (Inl x)) (created orc A w p tokens) w'" by (simp add: wp_def ret_def created_def w1)
    qed (use w absent rec(1) w1 in simp_all)
    show ?thesis
      unfolding persistCreate_def wp_bind y w1_def [symmetric]
      using undo by (simp add: created_def w1)
  next
    case (Inr t)
    let ?w1 = "w\<lparr>w_yb := (w_yb w)\<lparr>tabs := t\<rparr>, w_now := w_now w + 1\<rparr>"
    have "run_state (yb orc (\<lambda>st. CreatePool st ?r (p_Members p))) w = (Inr (), ?w1)"
      using q w(1) Inr by (simp add: yb_def quiet_env_def CreatePool_clean)
    then have y: "wp (yb orc (\<lambda>st. CreatePool st ?r (p_Members p))) Q w = Q (Inr ()) ?w1" for Q
      by (simp add: wp_def)
    define gen where "gen = (case w_genCtr w (pr_Primary rec) of
      None \<Rightarrow> oc_genSeed orc (w_now w + 1) | Some c \<Rightarrow> c) + 1"
    define w2 where "w2 = ?w1\<lparr>w_genCtr := (w_genCtr w)(pr_Primary rec \<mapsto> gen), w_now := w_now w + 2,
      w_jobs := w_jobs w @ [create_job p (Homes rec) gen]\<rparr>"
    have run: "wp (State_Monad.bind (premint orc (pr_Primary rec)) (\<lambda>gen. State_Monad.bind
        (dispatch orc (create_job p (Homes rec) gen)) (\<lambda>_. ret (Inr (rec, pr_Primary rec, gen))))) Q ?w1
        \<longleftrightarrow> Q (Inr (rec, pr_Primary rec, gen)) w2" for Q
      using rec(2) sync
      by (simp add: wp_def premint_def nextGenForEdge_def dispatch_def Let_def ret_def gen_def w2_def
          split: option.split)
    have "created orc A w p tokens (Inr (rec, pr_Primary rec, gen)) w2"
      using Inr ok create_job_first [of rec p gen] by (simp add: created_def w2_def)
    then show ?thesis unfolding persistCreate_def wp_bind [of "yb orc _"] y sum.case run .
  qed
qed

lemma wp_Get:
  assumes "quiet_env orc A" "clean w"
    and "\<And>w'. w_yb w' = w_yb w \<Longrightarrow> row_of (tabs (w_yb w)) i = None \<Longrightarrow> Q (Inr None) w'"
    and "\<And>r w'. w_yb w' = w_yb w \<Longrightarrow> Q (Inr (Some r)) w'"
  shows "wp (yb orc (\<lambda>st. Get st i)) Q w"
  using assms
  by (cases "row_of (tabs (w_yb w)) i")
    (simp_all add: wp_def yb_def quiet_env_def clean_def Get_def leader_read_def next_fault_def q_Get_def)

lemma created_error: "tabs (w_yb w') = tabs (w_yb w) \<Longrightarrow> created orc A w p tokens (Inl e) w'"
  by (simp add: created_def)

lemma created_start:
  "w_yb w1 = w_yb w \<Longrightarrow> w_cap w1 = w_cap w \<Longrightarrow> w_jobs w1 = w_jobs w \<Longrightarrow>
   created orc A w1 p tokens = created orc A w p tokens"
  by (intro ext) (simp add: created_def split: sum.split prod.split)

lemma wp_create_placed:
  assumes q: "quiet_env orc A" "fair (oc_tb orc)" and w: "faults (w_yb w) = []" "tables_inv (tabs (w_yb w))"
    and absent: "row_of (tabs (w_yb w)) (p_ID p) = None"
    and cfg: "oc_replicas orc \<in> {1, 2}" "\<not> oc_sync orc" and c: "\<forall>e \<in> set cands. A e"
  shows "wp (case select orc (w_cap w) cands capBps tokens (length (p_Members p)) (oc_replicas orc) of
       Inl e \<Rightarrow> ret (Inl (if no_spare e then ErrNoPlacement (Some e) else ESelect e))
     | Inr homes \<Rightarrow> persistCreate orc p tokens (placed_record orc p tokens homes))
     (created orc A w p tokens) w"
proof (cases "select orc (w_cap w) cands capBps tokens (length (p_Members p)) (oc_replicas orc)")
  case (Inl e)
  then show ?thesis by (simp add: created_error)
next
  case (Inr homes)
  have "\<not> A []" using q(1) by (simp add: quiet_env_def)
  note h = select_homes_ok [OF Inr q(2) cfg(1) c this]
  have "p_ID (pr_Pool (placed_record orc p tokens homes)) = p_ID p" by (simp add: placed_record_def Let_def)
  from wp_persistCreate [OF q(1) w absent this h(2) h(1) cfg(2)] show ?thesis by (simp add: Inr)
qed

lemma wp_CreatePoolNonceGen:
  fixes w :: "'s world"
  assumes q: "quiet_env orc A" "fair (oc_tb orc)" and w: "faults (w_yb w) = []" "tables_inv (tabs (w_yb w))"
    and cfg: "oc_replicas orc \<in> {1, 2}" "\<not> oc_sync orc"
  shows "wp (CreatePoolNonceGen orc p tokens) (created orc A w p tokens) w"
proof (cases "tokens < 0")
  case False
  have cl: "clean w'" if "w_yb w' = w_yb w" for w' :: "'s world" using that w(1) by (simp add: clean_def)
  let ?place = "\<lambda>(cands, capBps). do {
     c \<leftarrow> get_cap;
     (case select orc c cands capBps tokens (length (p_Members p)) (oc_replicas orc) of
        Inl e \<Rightarrow> ret (Inl (if no_spare e then ErrNoPlacement (Some e) else ESelect e))
      | Inr homes \<Rightarrow> persistCreate orc p tokens (placed_record orc p tokens homes)) }"
  have place: "wp (tryE (liveCandidatesCap orc (\<lambda>_. False)) ?place) (created orc A w p tokens) w1"
    if w1: "w_yb w1 = w_yb w" "w_cap w1 = w_cap w" "w_jobs w1 = w_jobs w"
      and absent: "row_of (tabs (w_yb w)) (p_ID p) = None" for w1 :: "'s world"
    unfolding tryE_def wp_bind
  proof (rule wp_frame [OF frame_liveCandidatesCap], rule wp_liveCandidatesCap [OF q(1) cl [OF w1(1)]]; intro impI)
    fix err and w2 :: "'s world"
    assume "w_yb w2 = w_yb w1"
    then show "wp (case Inl err of Inl e \<Rightarrow> ret (Inl e) | Inr x \<Rightarrow> ?place x) (created orc A w p tokens) w2"
      by (simp add: created_error w1)
  next
    fix out caps and w2 :: "'s world"
    assume w2: "w_yb w2 = w_yb w1" "w_cap w2 = w_cap w1 \<and> w_jobs w2 = w_jobs w1"
      and live: "\<forall>e \<in> set out. \<not> False \<and> A e"
    have st: "created orc A w2 p tokens = created orc A w p tokens" using w1 w2 by (intro created_start) auto
    have "wp get_cap Q w2 \<longleftrightarrow> Q (w_cap w2) w2" for Q by (simp add: wp_def get_cap_def)
    moreover have "wp (case select orc (w_cap w2) out caps tokens (length (p_Members p)) (oc_replicas orc) of
         Inl e \<Rightarrow> ret (Inl (if no_spare e then ErrNoPlacement (Some e) else ESelect e))
       | Inr homes \<Rightarrow> persistCreate orc p tokens (placed_record orc p tokens homes))
       (created orc A w2 p tokens) w2"
      using w w1 w2 absent live by (intro wp_create_placed [OF q _ _ _ cfg]) auto
    ultimately show "wp (case Inr (out, caps) of Inl e \<Rightarrow> ret (Inl e) | Inr x \<Rightarrow> ?place x) (created orc A w p tokens) w2"
      by (simp add: wp_bind st)
  qed
  have "wp (yb orc (\<lambda>st. Get st (p_ID p))) (\<lambda>ex. wp (case ex of
       Inl e \<Rightarrow> ret (Inl (EStore e))
     | Inr (Some _) \<Rightarrow> ret (Inl (EAlreadyExists (p_ID p)))
     | Inr None \<Rightarrow> tryE (liveCandidatesCap orc (\<lambda>_. False)) ?place) (created orc A w p tokens)) w"
  proof (rule wp_frame [OF frame_prims(4)], rule wp_Get [OF q(1) cl [OF refl]]; intro impI)
    fix w1 :: "'s world"
    assume "w_yb w1 = w_yb w" "row_of (tabs (w_yb w)) (p_ID p) = None" "w_cap w1 = w_cap w \<and> w_jobs w1 = w_jobs w"
    then show "wp (case Inr None of
         Inl e \<Rightarrow> ret (Inl (EStore e))
       | Inr (Some _) \<Rightarrow> ret (Inl (EAlreadyExists (p_ID p)))
       | Inr None \<Rightarrow> tryE (liveCandidatesCap orc (\<lambda>_. False)) ?place) (created orc A w p tokens) w1"
      using place [of w1] by simp
  qed (simp add: created_error)
  then show ?thesis using False by (simp add: CreatePoolNonceGen_def wp_bind)
qed (simp add: CreatePoolNonceGen_def created_error)


lemma demo_create_run:
  "map_sum id snd (fst (run_state (CreatePoolNonceGen demo_single (demo_yb_pool 2 [host4 6]) 7) demo_world))
     = Inr (''e2'', 101)"
  by code_simp


text \<open>
  The peers of a controller write to the same store: the rollback of a create that lost a race on a member
  deletes the pool by its id alone.
\<close>

definition demo_race :: "cluster orch" where
  "demo_race = demo_single\<lparr>oc_peers := (\<lambda>n st. if n = 6
     then fst (CreatePool st (demo_yb_rec 2 [host4 6] 7) [\<lparr>m_Prefix = host4 6\<rparr>]) else st)\<rparr>"

text \<open>The rollback of a failed create deletes the pool another controller just created under the same
  id: a create of pool 2 fails with a member conflict, and between its transaction and its rollback a peer
  commits its own pool 2, which alone would have stayed; after the rollback there is no pool 2 and no member
  of it.\<close>

theorem rollbackCreate_deletes_peer_pool:
  "fst (run_state (CreatePoolNonceGen demo_race (demo_yb_pool 2 [host4 5]) 7) demo_world) = Inl (EStore ErrMemberConflict)
   \<and> row_of (tabs (oc_peers demo_race 6 (w_yb demo_world))) 2 \<noteq> None
   \<and> row_of (tabs (w_yb (snd (run_state (CreatePoolNonceGen demo_race (demo_yb_pool 2 [host4 5]) 7) demo_world)))) 2 = None"
proof (intro conjI)
  show "fst (run_state (CreatePoolNonceGen demo_race (demo_yb_pool 2 [host4 5]) 7) demo_world)
      = Inl (EStore ErrMemberConflict)" by code_simp
  show "row_of (tabs (oc_peers demo_race 6 (w_yb demo_world))) 2 \<noteq> None" by code_simp
  show "row_of (tabs (w_yb (snd (run_state (CreatePoolNonceGen demo_race (demo_yb_pool 2 [host4 5]) 7) demo_world)))) 2
      = None" by code_simp
qed

section \<open>A destroy withdraws or keeps the pool\<close>

lemma keeps_poll_ready: "keeps (poll_ready n orc e)"
  by (induction n) (auto intro!: keeps_bind keeps_prims keeps_edgeReady)

lemma keeps_withdraw:
  assumes q: "quiet_env orc A"
  shows "keeps (withdraw_homes orc pri gen cross es)" "keeps (confirm_withdraw orc es)"
proof -
  have here: "keeps (locallyDeliverable orc e)" for e
    by (auto simp: locallyDeliverable_def keeps_def ret_def split: option.splits)
  have wait: "keeps (waitEdgeApplied orc e)" for e
    by (auto simp: waitEdgeApplied_def Let_def intro: keeps_prims keeps_poll_ready simp del: poll_ready.simps
        split: option.splits)
  show "keeps (withdraw_homes orc pri gen cross es)"
    by (induction es arbitrary: gen cross)
      (auto intro!: keeps_bind keeps_prims here keeps_renderAndPushGen [OF q] keeps_delivery [OF q]
        split: option.splits prod.splits)
  show "keeps (confirm_withdraw orc es)"
    by (induction es) (auto intro!: keeps_bind keeps_prims wait split: option.splits)
qed

text \<open>The row a failed withdraw puts back, from the row that was deleted.\<close>

definition restored_row :: "pool_row \<Rightarrow> pool_row" where
  "restored_row r = (let b = t_body r in
     r\<lparr>t_body := b\<lparr>y_Pool := (y_Pool b)\<lparr>p_HomeEdge := y_Primary b\<rparr>, y_RetiringEdge := []\<rparr>,
       t_home := y_Primary b, t_backup := nullEdge (y_Backup b), t_cost := y_Tokens b, t_version := 1,
       t_retiring := False\<rparr>)"

definition destroyed ::
  "tables \<Rightarrow> pool_id \<Rightarrow> pool_row \<Rightarrow> orch_error + edge_id \<times> u64 \<Rightarrow> tables \<Rightarrow> bool"
where
  "destroyed t i r res t' \<longleftrightarrow>
     (case res of
        Inr (e, _) \<Rightarrow> e = y_Primary (t_body r) \<and> row_of t' i = None \<and> mem_keys t' i = {}
      | Inl _ \<Rightarrow> row_of t' i = Some (restored_row r) \<and> mem_keys t' i = mem_keys t i) \<and>
     (\<forall>j. j \<noteq> i \<longrightarrow> row_of t' j = row_of t j \<and> mem_keys t' j = mem_keys t j)"

lemma mem_keys_set: "mem_keys t i = mt_prefix ` set (filter (\<lambda>r. mt_pool r = i) (members t))"
  by (auto simp: mem_keys_def)

lemma find_append: "find P (xs @ ys) = (case find P xs of None \<Rightarrow> find P ys | Some x \<Rightarrow> Some x)"
  by (induction xs) auto

lemma Delete_frame:
  assumes "tx_Delete t i = Inr t1"
  shows "row_of t1 i = None" "mem_keys t1 i = {}"
    and "j \<noteq> i \<Longrightarrow> row_of t1 j = row_of t j" "j \<noteq> i \<Longrightarrow> mem_keys t1 j = mem_keys t j"
proof -
  have t1: "t1 = t\<lparr>members := filter (\<lambda>r. mt_pool r \<noteq> i) (members t), pools := filter (\<lambda>r. t_id r \<noteq> i) (pools t)\<rparr>"
    using assms by (simp add: tx_Delete_def)
  show "row_of t1 i = None" "mem_keys t1 i = {}" by (auto simp: t1 row_of_None mem_keys_def)
  assume "j \<noteq> i"
  have "find (\<lambda>r. t_id r = j) (filter (\<lambda>r. t_id r \<noteq> i) xs) = find (\<lambda>r. t_id r = j) xs" for xs
    using \<open>j \<noteq> i\<close> by (induction xs) auto
  then show "row_of t1 j = row_of t j" by (simp add: t1 row_of_def)
  show "mem_keys t1 j = mem_keys t j" using \<open>j \<noteq> i\<close> by (auto simp: t1 mem_keys_def)
qed

text \<open>Re-inserting the deleted pool succeeds: its id and its members are free again.\<close>

lemma restore_after_delete:
  assumes inv: "tables_inv t" and row: "row_of t i = Some r" and del: "tx_Delete t i = Inr t1"
    and ms: "distinct (map m_Prefix (p_Members (y_Pool (t_body r))))"
      "m_Prefix ` set (p_Members (y_Pool (t_body r))) = mem_keys t i"
  defines "b \<equiv> t_body r"
  shows "\<exists>t2. tx_CreatePool t1 \<lparr>y_Pool = (y_Pool b)\<lparr>p_HomeEdge := y_Primary b\<rparr>, y_Primary = y_Primary b,
      y_Backup = y_Backup b, y_Tokens = y_Tokens b, y_RetiringEdge = []\<rparr> (p_Members (y_Pool b)) = Inr t2
    \<and> destroyed t i r (Inl x) t2"
proof -
  note d = Delete_frame [OF del]
  have r: "r \<in> set (pools t)" "t_id r = i" using row_of_Some [OF row] by auto
  then have id: "p_ID (y_Pool b) = i" using inv by (auto simp: tables_inv_def b_def)
  have "members t1 = filter (\<lambda>m. mt_pool m \<noteq> i) (members t)" using del by (auto simp: tx_Delete_def)
  then have free: "m_Prefix ` set (p_Members (y_Pool b)) \<inter> mt_prefix ` set (members t1) = {}"
    using inv ms(2) unfolding b_def by (auto simp: mem_keys_def tables_inv_def distinct_map inj_on_def)
  define t2 where "t2 = \<lparr>pools = pools t1 @ [restored_row r],
    members = members t1 @ map (\<lambda>m. \<lparr>mt_prefix = m_Prefix m, mt_pool = i, mt_home = y_Primary b\<rparr>) (p_Members (y_Pool b))\<rparr>"
  have "tx_CreatePool t1 \<lparr>y_Pool = (y_Pool b)\<lparr>p_HomeEdge := y_Primary b\<rparr>, y_Primary = y_Primary b,
      y_Backup = y_Backup b, y_Tokens = y_Tokens b, y_RetiringEdge = []\<rparr> (p_Members (y_Pool b)) = Inr t2"
    using d(1) ms(1) free r(2) id
    by (simp add: tx_CreatePool_Inr t2_def restored_row_def with_home_def b_def Let_def)
  moreover have "row_of t2 i = Some (restored_row r)"
    using d(1) r(2) by (simp add: row_of_def t2_def find_append restored_row_def Let_def)
  moreover have "mem_keys t2 i = mem_keys t1 i \<union> m_Prefix ` set (p_Members (y_Pool b))"
    by (simp add: mem_keys_set t2_def filter_map comp_def image_image image_Un)
  moreover have "row_of t2 j = row_of t1 j" "mem_keys t2 j = mem_keys t1 j" if "j \<noteq> i" for j
    using that r(2) by (auto simp: row_of_def t2_def find_append restored_row_def Let_def mem_keys_set filter_map
      comp_def split: option.split)
  ultimately show ?thesis using d ms(2) by (simp add: destroyed_def b_def)
qed

lemma wp_restoreDestroyed:
  fixes w :: "'s world"
  assumes q: "quiet_env orc A" and w: "faults (w_yb w) = []" "tabs (w_yb w) = t1"
    and t: "tables_inv t" "row_of t i = Some r" "tx_Delete t i = Inr t1"
    and ms: "distinct (map m_Prefix (p_Members (y_Pool (t_body r))))"
      "m_Prefix ` set (p_Members (y_Pool (t_body r))) = mem_keys t i"
  defines "b \<equiv> t_body r"
  defines "rec \<equiv> plain_record ((y_Pool b)\<lparr>p_HomeEdge := y_Primary b\<rparr>) (y_Primary b) (y_Backup b) (y_Tokens b)"
  shows "wp (State_Monad.bind (restoreDestroyed orc rec e x) (\<lambda>err. ret (Inl err)))
    (\<lambda>res w'. destroyed t i r res (tabs (w_yb w'))) w"
proof -
  obtain t2 where t2: "tx_CreatePool t1 \<lparr>y_Pool = (y_Pool b)\<lparr>p_HomeEdge := y_Primary b\<rparr>, y_Primary = y_Primary b,
      y_Backup = y_Backup b, y_Tokens = y_Tokens b, y_RetiringEdge = []\<rparr> (p_Members (y_Pool b)) = Inr t2"
    "destroyed t i r (Inl (EWithdraw e x)) t2"
    using restore_after_delete [OF t ms] unfolding b_def by blast
  define w2 where "w2 = w\<lparr>w_yb := (w_yb w)\<lparr>tabs := t2\<rparr>, w_now := w_now w + 1\<rparr>"
  have y: "wp (yb orc (\<lambda>st. CreatePool st \<lparr>y_Pool = pr_Pool rec, y_Primary = pr_Primary rec,
      y_Backup = pr_Backup rec, y_Tokens = pr_Tokens rec, y_RetiringEdge = []\<rparr> (p_Members (pr_Pool rec)))) P w
      \<longleftrightarrow> P (Inr ()) w2" for P
    using q w t2(1) by (simp add: wp_def yb_def quiet_env_def CreatePool_clean w2_def rec_def plain_record_def)
  let ?done_ok = "\<lambda>_. wp (ret (EWithdraw e x)) (\<lambda>err. wp (ret (Inl err)) (\<lambda>res w'. destroyed t i r res (tabs (w_yb w'))))"
  have "clean w2" using w by (simp add: clean_def w2_def)
  then have "wp (deliver_all orc (Homes rec)) ?done_ok w2"
    by (rule wp_keeps [OF keeps_deliver_all [OF q]]) (use t2(2) in \<open>simp add: w2_def\<close>)
  then show ?thesis unfolding restoreDestroyed_def wp_bind y .
qed

lemma wp_DestroyPoolGen:
  fixes w :: "'s world"
  assumes q: "quiet_env orc A" and w: "faults (w_yb w) = []" "tables_inv (tabs (w_yb w))"
    and row: "row_of (tabs (w_yb w)) i = Some r"
    and ms: "distinct (map m_Prefix (p_Members (y_Pool (t_body r))))"
      "m_Prefix ` set (p_Members (y_Pool (t_body r))) = mem_keys (tabs (w_yb w)) i"
  shows "wp (DestroyPoolGen orc i) (\<lambda>res w'. destroyed (tabs (w_yb w)) i r res (tabs (w_yb w'))) w"
proof -
  let ?b = "t_body r" and ?t = "tabs (w_yb w)"
  define rec where "rec = plain_record ((y_Pool ?b)\<lparr>p_HomeEdge := y_Primary ?b\<rparr>) (y_Primary ?b) (y_Backup ?b) (y_Tokens ?b)"
  define Q where "Q = (\<lambda>res (w' :: 's world). destroyed ?t i r res (tabs (w_yb w')))"
  obtain t1 where t1: "tx_Delete ?t i = Inr t1" by (simp add: tx_Delete_def)
  define st1 where "st1 = (w_yb w)\<lparr>tabs := t1\<rparr>"
  have get: "wp (yb orc (\<lambda>st. Get st i)) P w \<longleftrightarrow> P (Inr (Some ?b)) (w\<lparr>w_now := w_now w + 1\<rparr>)" for P
    using q w row by (simp add: wp_def yb_def quiet_env_def Get_def leader_read_def next_fault_def q_Get_def)
  have del: "wp (yb orc (\<lambda>st. DestroyPool st i)) P (w\<lparr>w_now := w_now w + 1\<rparr>)"
    if "\<And>w'. w_yb w' = st1 \<Longrightarrow> P (Inr ()) w'" for P
    using q w t1 that
    by (simp add: wp_def yb_def quiet_env_def DestroyPool_def Delete_def write_tx_def next_fault_def st1_def)
  have cl: "clean w'" if "w_yb w' = st1" for w' :: "'s world" using that w by (simp add: clean_def st1_def)
  have gone: "Q (Inr (y_Primary ?b, g)) w'" if "w_yb w' = st1" for w' g
    using that Delete_frame [OF t1] by (simp add: Q_def destroyed_def st1_def)
  have undo: "wp (State_Monad.bind (restoreDestroyed orc rec e x) (\<lambda>err. ret (Inl err))) Q w'"
    if "w_yb w' = st1" for w' :: "'s world" and e x
    unfolding Q_def rec_def
    by (rule wp_restoreDestroyed [OF q _ _ w(2) row t1 ms]) (use that w in \<open>simp_all add: st1_def\<close>)
  let ?fin = "\<lambda>g cf. case cf of None \<Rightarrow> ret (Inr (pr_Primary rec, g))
    | Some (e, x) \<Rightarrow> State_Monad.bind (restoreDestroyed orc rec e x) (\<lambda>err. ret (Inl err))"
  have fin: "wp (State_Monad.bind (confirm_withdraw orc cross) (?fin g)) Q w'" if w': "w_yb w' = st1" for w' g cross
    unfolding wp_bind
  proof (rule wp_keeps [OF keeps_withdraw(2) [OF q] cl [OF w']])
    fix cf and w3 :: "'s world"
    assume "w_yb w3 = w_yb w'"
    then have w3: "w_yb w3 = st1" using w' by simp
    show "wp (?fin g cf) Q w3"
      using undo [OF w3] gone [OF w3] by (cases cf) (auto simp: rec_def plain_record_def)
  qed
  have "wp (case wd of Inl (e, x) \<Rightarrow> State_Monad.bind (restoreDestroyed orc rec e x) (\<lambda>err. ret (Inl err))
     | Inr (g, cross) \<Rightarrow> State_Monad.bind (confirm_withdraw orc cross) (?fin g)) Q w'"
    if "w_yb w' = st1" for wd and w' :: "'s world"
    using undo [OF that] fin [OF that] by (cases wd) auto
  then have "wp (DestroyPoolGen orc i) Q w"
    unfolding DestroyPoolGen_def wp_bind [of "yb orc _"] get sum.case option.case Let_def rec_def [symmetric]
    by (intro del) (auto simp: wp_bind [of "withdraw_homes _ _ _ _ _"] cl intro!: wp_keeps [OF keeps_withdraw(1) [OF q]])
  then show ?thesis by (simp add: Q_def)
qed


text \<open>Edge e1 is behind another replica that never delivers: the withdraw is not confirmed.\<close>

definition demo_cross :: "cluster orch" where
  "demo_cross = demo_orch\<lparr>oc_subscribed := Some (\<lambda>n e. e = ''e2''), oc_withdrawTimeout := 1\<rparr>"

lemma demo_row: "row_of (tabs (w_yb demo_world)) 1 = Some \<lparr>t_id = 1, t_body = with_home (demo_yb_rec 1 [host4 5] 100),
    t_home = ''e1'', t_backup = Some ''e2'', t_cost = 100, t_version = 1, t_retiring = False\<rparr>"
  by (simp add: demo_world_def demo_tables_eq row_of_def)


section \<open>What the pushes carry\<close>

text \<open>The full desired states pushed to an edge, and the deltas, oldest first.\<close>

definition desired_to :: "edge_id \<Rightarrow> event list \<Rightarrow> pushed_state list" where
  "desired_to e tr = List.map_filter (\<lambda>ev. case ev of EvPushDesired e' st _ \<Rightarrow> if e' = e then Some st else None | _ \<Rightarrow> None) tr"

definition deltas_to :: "edge_id \<Rightarrow> event list \<Rightarrow> edge_delta list" where
  "deltas_to e tr = List.map_filter (\<lambda>ev. case ev of EvPushDelta e' d _ \<Rightarrow> if e' = e then Some d else None | _ \<Rightarrow> None) tr"

definition demo_local :: "cluster orch" where
  "demo_local = demo_single\<lparr>oc_isAlive := None\<rparr>"

text \<open>The withdraw of a destroy can push the pool it withdraws: the render of DestroyPoolGen reads the
  pools of the edge as a follower read pinned ten seconds in the past, so with a follower snapshot that still
  has the pool, the destroy succeeds, the row is gone, and the state pushed to its primary under the returned
  generation still contains the pool's policers, sessions and anchor.\<close>

theorem DestroyPool_pushes_stale_pool:
  "(let (res, w') = run_state (DestroyPoolGen demo_local 1) demo_world in
      res = Inr (''e1'', 101) \<and> row_of (tabs (w_yb w')) 1 = None \<and>
      map (\<lambda>st. (d_Generation st, map ps_PoolID (d_Policers st), map an_Prefix (d_Anchors st)))
        (desired_to ''e1'' (w_trace w')) = [(101, [1, 1], [host4 5])])"
  by code_simp

definition demo_solo :: "cluster world" where
  "demo_solo = demo_world\<lparr>w_yb := fst (CreatePool \<lparr>tabs = \<lparr>pools = [], members = []\<rparr>,
     snap = \<lparr>pools = [], members = []\<rparr>, faults = []\<rparr> ((demo_yb_rec 1 [host4 5] 100)\<lparr>y_Backup := []\<rparr>)
     [\<lparr>m_Prefix = host4 5\<rparr>])\<rparr>"

text \<open>The deltas of two updates of one pool reach an edge in the order their goroutines run, not in the
  order of the updates: when the second job runs first, the last delta pushed to the primary carries the
  members of the first update, a lower generation than the one already delivered, and names that higher
  generation as its base.\<close>

theorem UpdatePool_deltas_reorder:
  "map (\<lambda>d. (ed_Generation d, ed_BaseGeneration d, map (\<lambda>u. map an_Prefix (pd_Anchors u)) (ed_Upserts d)))
     (deltas_to ''e1'' (w_trace (snd (run_state (do {
        UpdatePoolGen demo_single (demo_yb_pool 1 [host4 6]) 100;
        UpdatePoolGen demo_single (demo_yb_pool 1 [host4 7]) 100;
        run_job demo_single 1;
        run_job demo_single 0 }) demo_solo))))
   = [(102, 0, [[host4 7]]), (101, 102, [[host4 6]])]"
  by code_simp

end
