(* ===== verification/ControlPlane.thy ===== *)
theory ControlPlane
  imports Pending Ledger DeathVote Lifecycle
begin

text \<open>
  The control plane as one unit (\<open>internal/server/controlplane.go\<close>): its operations are computations over its own
  state and the orchestrator's world. The callbacks the orchestrator was wired with run on the
  observations of each call, in their order: the notifications produce events and \<open>enqueue\<close> feeds the reconcile queue.
  The transport below the orchestrator stays the parameter it is there. One reading of the clock per operation.
\<close>

section \<open>Composition\<close>

type_synonym ('s, 'a) cpm = "(cp \<times> 's world, 'a) State_Monad.state"

record 's srv =
  sv_orc :: "'s orch"
  sv_led :: "'s ledger"
  sv_fns :: member_fns
  sv_PoolSetHash :: "pool_id list \<Rightarrow> u64"
  sv_SoftDead :: "health \<Rightarrow> bool"
  sv_driftStreakThreshold :: int
  sv_progThreshold :: int
  sv_acctTolerance :: u64
  sv_createWindow :: duration
  sv_sched :: "pivot_row list \<Rightarrow> pivot_row list"

definition reconcileQ_cap :: nat where
  "reconcileQ_cap = 1024"

definition enqueuePool :: "pool_id \<Rightarrow> cp \<Rightarrow> cp" where
  "enqueuePool i cp = (if length (cp_reconcileQ cp) < reconcileQ_cap
     then cp\<lparr>cp_reconcileQ := cp_reconcileQ cp @ [i]\<rparr> else cp)"

text \<open>The wiring of \<open>SetFailoverNotify\<close>, \<open>SetRedundancyNotify\<close>, \<open>SetRehomeNotify\<close>, the double-death alarm and \<open>enqueue\<close>.\<close>

definition callback :: "gtime \<Rightarrow> event \<Rightarrow> cp \<Rightarrow> cp" where
  "callback now ev = (case ev of
      EvFailover i src dst gen \<Rightarrow> emitFailover now i src dst gen
    | EvRedundancy kind i dst reason \<Rightarrow> onRedundancyNotify now kind i dst reason
    | EvRehome i src dst \<Rightarrow> emitRehome now i src dst ''decommission''
    | EvDblDeath i failOpen \<Rightarrow> emitDoubleDeath now i failOpen
    | EvEnqueue i \<Rightarrow> enqueuePool i
    | _ \<Rightarrow> id)"

definition orch_call :: "gtime \<Rightarrow> ('s, 'a) om \<Rightarrow> ('s, 'a) cpm" where
  "orch_call now m = State (\<lambda>(cp, w). let (r, w') = run_state m w in
     (r, (fold (callback now) (drop (length (w_trace w)) (w_trace w')) cp, w')))"

definition on_cp :: "(cp \<Rightarrow> cp) \<Rightarrow> ('s, unit) cpm" where
  "on_cp f = State (\<lambda>(cp, w). ((), (f cp, w)))"

definition get_cp :: "('s, cp) cpm" where
  "get_cp = State (\<lambda>(cp, w). (cp, (cp, w)))"

definition cret :: "'a \<Rightarrow> ('s, 'a) cpm" where
  "cret x = State (\<lambda>s. (x, s))"

text \<open>A loop over a list.\<close>

fun for_each :: "('a \<Rightarrow> ('s, unit) cpm) \<Rightarrow> 'a list \<Rightarrow> ('s, unit) cpm" where
  "for_each f [] = cret ()"
| "for_each f (x # xs) = do { f x; for_each f xs }"

definition RerenderEdge :: "'s orch \<Rightarrow> edge_id \<Rightarrow> ('s, orch_error option) om" where
  "RerenderEdge orc e = renderAndPush orc e"

section \<open>The reconcile queue\<close>

definition poolsForHome :: "'s orch \<Rightarrow> edge_id \<Rightarrow> ('s, store_error + pool list) om" where
  "poolsForHome orc e = yb orc (\<lambda>st. PoolsForHome st e)"

definition poolsForBackup :: "'s orch \<Rightarrow> edge_id \<Rightarrow> ('s, store_error + pool list) om" where
  "poolsForBackup orc e = yb orc (\<lambda>st. PoolsForBackup st e)"

text \<open>A failed read logs and leaves the nil slice.\<close>

definition or_nil :: "'e + 'a list \<Rightarrow> 'a list" where
  "or_nil r = (case r of Inl _ \<Rightarrow> [] | Inr xs \<Rightarrow> xs)"

definition enqueuePoolsFor :: "'s srv \<Rightarrow> gtime \<Rightarrow> edge_id \<Rightarrow> ('s, unit) cpm" where
  "enqueuePoolsFor sv now e = do {
     primary \<leftarrow> orch_call now (poolsForHome (sv_orc sv) e);
     backup \<leftarrow> orch_call now (poolsForBackup (sv_orc sv) e);
     on_cp (fold (\<lambda>p. enqueuePool (p_ID p)) (or_nil primary @ or_nil backup))
   }"

definition reconcileOne :: "'s srv \<Rightarrow> gtime \<Rightarrow> pool_id \<Rightarrow> ('s, reconcile_result) cpm" where
  "reconcileOne sv now i = do {
     r \<leftarrow> orch_call now (ReconcilePool (sv_orc sv) i);
     (if fst r = StatusActed \<or> fst r = StatusConflict then on_cp (enqueuePool i) else cret ());
     cret r
   }"

definition sweepPools :: "'s srv \<Rightarrow> gtime \<Rightarrow> ('s, unit) cpm" where
  "sweepPools sv now = do {
     ids \<leftarrow> orch_call now (yb (sv_orc sv) ListIDs);
     for_each (\<lambda>i. do { _ \<leftarrow> reconcileOne sv now i; cret () }) (or_nil ids)
   }"

text \<open>One receive of \<open>RunPoolReconcile\<close>; \<open>None\<close>: the queue is empty or there is no version store.\<close>

definition reconcile_recv :: "'s srv \<Rightarrow> gtime \<Rightarrow> ('s, reconcile_result option) cpm" where
  "reconcile_recv sv now = do {
     cp \<leftarrow> get_cp;
     (case (oc_edgever (sv_orc sv), cp_reconcileQ cp) of
        (Some _, i # rest) \<Rightarrow> do {
          on_cp (\<lambda>cp. cp\<lparr>cp_reconcileQ := rest\<rparr>);
          r \<leftarrow> reconcileOne sv now i;
          cret (Some r)
        }
      | _ \<Rightarrow> cret None)
   }"

section \<open>Liveness events\<close>

definition detection_method :: "detection \<Rightarrow> string" where
  "detection_method d = (case d of HardQuorum \<Rightarrow> ''hard-quorum'' | SoftDeath \<Rightarrow> ''soft-death''
     | HeartbeatStale \<Rightarrow> ''heartbeat-stale'')"

definition failover :: "'s srv \<Rightarrow> gtime \<Rightarrow> edge_id \<Rightarrow> ('s, unit) cpm" where
  "failover sv now e =
     (if oc_edgever (sv_orc sv) \<noteq> None then orch_call now (FailoverEdgeBulk (sv_orc sv) (sv_sched sv) e)
      else do { _ \<leftarrow> orch_call now (FailoverEdge (sv_orc sv) e); cret () })"

definition revive :: "'s srv \<Rightarrow> gtime \<Rightarrow> edge_id \<Rightarrow> ('s, unit) cpm" where
  "revive sv now e = do {
     on_cp (emitEdgeUp now e);
     (if oc_edgever (sv_orc sv) \<noteq> None then do {
        orch_call now (MarkEdge (sv_orc sv) e);
        enqueuePoolsFor sv now e
      } else do { _ \<leftarrow> orch_call now (CleanupRevived (sv_orc sv) e); cret () })
   }"

definition on_live_event :: "'s srv \<Rightarrow> gtime \<Rightarrow> live_event \<Rightarrow> ('s, unit) cpm" where
  "on_live_event sv now ev = (case ev of
      OnRevive e \<Rightarrow> revive sv now e
    | MeteringStale e stale \<Rightarrow> on_cp (emitMeteringStale now e stale)
    | OnDeath e d \<Rightarrow> on_cp (onEdgeDeath now e (detection_method d))
    | OnFailover e \<Rightarrow> failover sv now e)"

text \<open>A call of the monitor: the state first, then its callbacks.\<close>

definition mon_call :: "'s srv \<Rightarrow> gtime \<Rightarrow> (monitor \<Rightarrow> monitor \<times> live_event list) \<Rightarrow> ('s, unit) cpm" where
  "mon_call sv now f = do {
     cp \<leftarrow> get_cp;
     (let (m, evs) = f (cp_Liveness cp) in do {
        on_cp (\<lambda>cp. cp\<lparr>cp_Liveness := m\<rparr>);
        for_each (on_live_event sv now) evs
      })
   }"

text \<open>The reporting gate is wired to \<open>fan.IsSubscribed\<close>, which answers from the streams of the moment.\<close>

definition wired :: "cp \<Rightarrow> monitor \<Rightarrow> monitor" where
  "wired cp m = (case reporting m of None \<Rightarrow> m | Some _ \<Rightarrow> m\<lparr>reporting := Some (IsSubscribed (cp_fan cp))\<rparr>)"

text \<open>One tick of \<open>RunLiveness\<close>; the arguments are the iteration orders of the monitor's map.\<close>

definition liveness_tick :: "'s srv \<Rightarrow> gtime \<Rightarrow> edge_id list \<Rightarrow> edge_id list \<Rightarrow> ('s, unit) cpm" where
  "liveness_tick sv now order sorder = do {
     cp \<leftarrow> get_cp;
     mon_call sv now (\<lambda>m. let (m', dead, evs) = Tick (wired cp m) now order sorder in (m', evs))
   }"

text \<open>The second component is the death vote to publish, if there is one.\<close>

definition cp_HardDown :: "'s srv \<Rightarrow> gtime \<Rightarrow> edge_id \<Rightarrow> cp \<Rightarrow> cp \<times> (edge_id \<times> bool) option" where
  "cp_HardDown sv now e cp =
     (let m = HardDown (cp_Liveness cp) now e
      in (cp\<lparr>cp_Liveness := m\<rparr>, if ready m now then Some (e, True) else None))"

definition cp_HardUp :: "'s srv \<Rightarrow> gtime \<Rightarrow> edge_id \<Rightarrow> cp \<Rightarrow> cp \<times> (edge_id \<times> bool) option" where
  "cp_HardUp sv now e cp = (cp\<lparr>cp_Liveness := HardUp (cp_Liveness cp) now e\<rparr>, Some (e, False))"

text \<open>The goroutine of \<open>publishVote\<close>; an error is only logged.\<close>

definition publishVote :: "'v voter option \<Rightarrow> edge_id \<times> bool \<Rightarrow> 'v \<Rightarrow> 'v voter option \<times> 'v" where
  "publishVote v vote s = (case v of
     None \<Rightarrow> (None, s)
   | Some v \<Rightarrow> if snd vote then (case Down v (fst vote) s of ((_, v'), s') \<Rightarrow> (Some v', s'))
               else (case Up v (fst vote) s of (_, s') \<Rightarrow> (Some v, s')))"

section \<open>Registration and reports\<close>

datatype register_error = RgRegistry reg_error | RgLedger ledger_error

definition onRegister :: "'s srv \<Rightarrow> gtime \<Rightarrow> edge_id \<Rightarrow> u64 \<Rightarrow> ('s, register_error option) cpm" where
  "onRegister sv now e cap = do {
     prior \<leftarrow> orch_call now (etcd (reg_Get (oc_reg (sv_orc sv)) e));
     reg \<leftarrow> orch_call now (etcd (Register (oc_reg (sv_orc sv)) (unix_ms now) e cap));
     (case reg of
        Inl err \<Rightarrow> cret (Some (RgRegistry err))
      | Inr _ \<Rightarrow> do {
          seeded \<leftarrow> orch_call now (etcd (InitAgent (sv_led sv) e (sellableTokens cap)));
          (case seeded of
             Inl err \<Rightarrow> cret (Some (RgLedger err))
           | Inr _ \<Rightarrow> do {
               mon_call sv now (\<lambda>m. Alive m now e);
               (case prior of
                  Inl _ \<Rightarrow> cret ()
                | Inr p \<Rightarrow> do {
                    on_cp (case p of
                        None \<Rightarrow> emitEdgeRegistered now e (sint cap)
                      | Some a \<Rightarrow> if ag_CapacityBps a \<noteq> cap then emitEdgeCapacityChanged now e (sint cap) else id);
                    on_cp (\<lambda>cp. cp\<lparr>cp_fan := scheduleCoverageRecompute (cp_fan cp)\<rparr>)
                  });
               cret None
             })
        })
   }"

definition driftCheck :: "gtime \<Rightarrow> edge_report \<Rightarrow> cp \<Rightarrow> cp" where
  "driftCheck now r cp = cp\<lparr>cp_driftReported := AList.update (er_EdgeID r)
     \<lparr>rh_hash = er_InstalledPoolHash r, rh_at = now, rh_seen = True\<rparr> (cp_driftReported cp)\<rparr>"

text \<open>The report path without an operator-supplied handler.\<close>

definition onReport :: "'s srv \<Rightarrow> gtime \<Rightarrow> edge_report \<Rightarrow> ('s, unit) cpm" where
  "onReport sv now r = do {
     mon_call sv now (\<lambda>m. Heartbeat m now (er_EdgeID r));
     mon_call sv now (\<lambda>m. (Health m now (er_EdgeID r) (sv_SoftDead sv (er_Health r)) (h_FaultKind (er_Health r)), []));
     on_cp (emitEdgeDataplane now (er_EdgeID r) (h_State (er_Health r) = HealthDataPlaneDown));
     on_cp (emitReportObservability now r);
     on_cp (reports_put r);
     on_cp (resolvePending now r);
     (case oc_edgever (sv_orc sv) of
        None \<Rightarrow> cret ()
      | Some ev \<Rightarrow>
          if h_AppliedVersion (er_Health r) > 0 then do {
            _ \<leftarrow> orch_call now (etcd (Advance ev (er_EdgeID r) (h_AppliedVersion (er_Health r))));
            enqueuePoolsFor sv now (er_EdgeID r)
          } else cret ());
     on_cp (driftCheck now r)
   }"

section \<open>Drift sweep\<close>

definition poolLiveOnEdge :: "edge_id \<Rightarrow> pool \<Rightarrow> bool" where
  "poolLiveOnEdge e p = True"

definition expectedPoolSet :: "'s orch \<Rightarrow> edge_id \<Rightarrow> ('s, store_error + pool_id list) om" where
  "expectedPoolSet orc e =
     tryE (poolsForHome orc e) (\<lambda>primary.
     tryE (poolsForBackup orc e) (\<lambda>backup.
       ret (Inr (map p_ID (filter (poolLiveOnEdge e) primary) @ map p_ID (filter (poolLiveOnEdge e) backup)))))"

definition bumpDriftStreak :: "edge_id \<Rightarrow> cp \<Rightarrow> int \<times> cp" where
  "bumpDriftStreak e cp =
     (let n = (case cp_driftStreak cp e of None \<Rightarrow> 0 | Some n \<Rightarrow> n) + 1
      in (n, cp\<lparr>cp_driftStreak := (cp_driftStreak cp)(e \<mapsto> n)\<rparr>))"

definition resetDriftStreak :: "edge_id \<Rightarrow> cp \<Rightarrow> cp" where
  "resetDriftStreak e cp = cp\<lparr>cp_driftStreak := (cp_driftStreak cp)(e := None)\<rparr>"

text \<open>The branches of the sweep for one edge, as it logs them.\<close>

datatype drift_outcome = DriftSkipped | DriftConverged | DriftDeferred | DriftResync

definition drift_edge :: "'s srv \<Rightarrow> gtime \<Rightarrow> edge_id \<times> u64 \<Rightarrow> ('s, edge_id \<times> drift_outcome) cpm" where
  "drift_edge sv now er = (let (e, reported) = er in do {
     expected \<leftarrow> orch_call now (expectedPoolSet (sv_orc sv) e);
     (case expected of
        Inl _ \<Rightarrow> cret (e, DriftSkipped)
      | Inr expected \<Rightarrow>
          if sv_PoolSetHash sv expected = reported then do {
            on_cp (resetDriftStreak e);
            cret (e, DriftConverged)
          } else do {
            cp \<leftarrow> get_cp;
            on_cp (\<lambda>cp. snd (bumpDriftStreak e cp));
            if fst (bumpDriftStreak e cp) < sv_driftStreakThreshold sv then cret (e, DriftDeferred)
            else do {
              on_cp (resetDriftStreak e);
              _ \<leftarrow> orch_call now (RerenderEdge (sv_orc sv) e);
              cret (e, DriftResync)
            }
          })
   })"

fun drift_edges :: "'s srv \<Rightarrow> gtime \<Rightarrow> (edge_id \<times> u64) list \<Rightarrow> ('s, (edge_id \<times> drift_outcome) list) cpm" where
  "drift_edges sv now [] = cret []"
| "drift_edges sv now (er # ers) = do { o1 \<leftarrow> drift_edge sv now er; os \<leftarrow> drift_edges sv now ers; cret (o1 # os) }"

definition take_seen :: "cp \<Rightarrow> (edge_id \<times> u64) list \<times> cp" where
  "take_seen cp =
     (map (\<lambda>(e, rh). (e, rh_hash rh)) (filter (\<lambda>(e, rh). rh_seen rh) (cp_driftReported cp)),
      cp\<lparr>cp_driftReported := map (\<lambda>(e, rh). (e, rh\<lparr>rh_seen := False\<rparr>)) (cp_driftReported cp)\<rparr>)"

definition DriftSweep :: "'s srv \<Rightarrow> gtime \<Rightarrow> ('s, (edge_id \<times> drift_outcome) list) cpm" where
  "DriftSweep sv now = do {
     cp \<leftarrow> get_cp;
     on_cp (\<lambda>cp. snd (take_seen cp));
     drift_edges sv now (fst (take_seen cp))
   }"

section \<open>Convergence and removal\<close>

definition converge_step :: "'s srv \<Rightarrow> gtime \<Rightarrow> edge_id \<Rightarrow> ('s, unit) cpm" where
  "converge_step sv now e = do {
     cp \<leftarrow> get_cp;
     if \<not> IsSubscribed (cp_fan cp) e then cret ()
     else do { _ \<leftarrow> orch_call now (RerenderEdge (sv_orc sv) e); cret () }
   }"

definition cleanupEdge :: "'s srv \<Rightarrow> gtime \<Rightarrow> edge_id \<Rightarrow> ('s, unit) cpm" where
  "cleanupEdge sv now e = do { on_cp (cleanup_maps e); orch_call now (CleanupEdge e) }"

section \<open>Running computations\<close>

lemma run_simps [simp]:
  "run_state (cret x) s = (x, s)"
  "run_state (on_cp f) s = ((), (f (fst s), snd s))"
  "run_state get_cp s = (fst s, s)"
  by (simp_all add: cret_def on_cp_def get_cp_def split_beta)

lemma run_orch_call:
  "run_state (orch_call now m) s = (fst (run_state m (snd s)),
     (fold (callback now) (drop (length (w_trace (snd s))) (w_trace (snd (run_state m (snd s))))) (fst s),
      snd (run_state m (snd s))))"
  by (simp add: orch_call_def split_beta Let_def)

text \<open>Callbacks touch the event stream and the reconcile queue only.\<close>

lemma enqueuePool_sel [simp]:
  "cp_driftStreak (enqueuePool i cp) = cp_driftStreak cp" "cp_emitter (enqueuePool i cp) = cp_emitter cp"
  "cp_deathMethodByEdge (enqueuePool i cp) = cp_deathMethodByEdge cp" "produced (enqueuePool i cp) = produced cp"
  "cp_driftReported (enqueuePool i cp) = cp_driftReported cp"
  by (simp_all add: enqueuePool_def produced_def)

lemmas notify_defs = emitFailover_def onRedundancyNotify_def emitBackupChanged_def emitRedundancyRegained_def
  emitRedundancyLost_def emitCapacityExhausted_def emitRehome_def emitDoubleDeath_def

lemma callback_sel [simp]:
  "cp_driftStreak (callback now ev cp) = cp_driftStreak cp" "cp_emitter (callback now ev cp) = cp_emitter cp"
  "cp_deathMethodByEdge (callback now ev cp) = cp_deathMethodByEdge cp"
  by (simp_all add: callback_def notify_defs split: event.splits)

lemma fold_callback_sel [simp]:
  "cp_driftStreak (fold (callback now) evs cp) = cp_driftStreak cp"
  "cp_emitter (fold (callback now) evs cp) = cp_emitter cp"
  "cp_deathMethodByEdge (fold (callback now) evs cp) = cp_deathMethodByEdge cp"
  by (induction evs arbitrary: cp) simp_all

section \<open>Drift debounce\<close>

text \<open>
  The outcomes an edge can show and the streak they leave: a deferral while the threshold is not
  reached, a resync when it is.
\<close>

inductive streaks :: "int \<Rightarrow> drift_outcome list \<Rightarrow> int \<Rightarrow> bool" for thr where
  start: "streaks thr [] 0"
| converged: "streaks thr os s \<Longrightarrow> streaks thr (os @ [DriftConverged]) 0"
| deferred: "streaks thr os s \<Longrightarrow> s + 1 < thr \<Longrightarrow> streaks thr (os @ [DriftDeferred]) (s + 1)"
| resync: "streaks thr os s \<Longrightarrow> thr \<le> s + 1 \<Longrightarrow> streaks thr (os @ [DriftResync]) 0"

definition mismatch_run :: "drift_outcome list \<Rightarrow> nat" where
  "mismatch_run os = length (takeWhile (\<lambda>x. x \<noteq> DriftConverged) (rev os))"

lemma streaks_run:
  assumes "streaks thr os s" "1 \<le> thr"
  shows "s = int (mismatch_run os) mod thr"
  using assms
proof (induction rule: streaks.induct)
  case (deferred os s)
  then have "(int (mismatch_run os) + 1) mod thr = (s + 1) mod thr" by (simp add: mod_simps)
  also have "\<dots> = s + 1" using deferred by (simp add: mod_pos_pos_trivial)
  finally show ?case by (simp add: mismatch_run_def add.commute)
next
  case (resync os s)
  have "s < thr" using resync pos_mod_bound [of thr "int (mismatch_run os)"] by linarith
  then have "s + 1 = thr" using resync(2) by linarith
  moreover have "(int (mismatch_run os) + 1) mod thr = (s + 1) mod thr" using resync by (simp add: mod_simps)
  ultimately show ?case by (simp add: mismatch_run_def add.commute)
qed (simp_all add: mismatch_run_def)

lemma streaks_resync:
  assumes "streaks thr os s" "1 \<le> thr" "k < length os" "os ! k \<noteq> DriftConverged"
  shows "os ! k = DriftResync \<longleftrightarrow> thr dvd int (mismatch_run (take (Suc k) os))"
  using assms
proof (induction rule: streaks.induct)
  case (converged os s)
  then show ?case by (cases "k < length os") (auto simp: nth_append less_Suc_eq)
next
  case (deferred os s)
  show ?case
  proof (cases "k < length os")
    case False
    then have k: "k = length os" using deferred.prems by simp
    have "s + 1 = int (mismatch_run (os @ [DriftDeferred])) mod thr"
      using streaks_run [OF streaks.deferred [OF deferred(1,2)]] deferred.prems(1) .
    moreover have "0 \<le> s" using streaks_run [OF deferred(1)] deferred.prems(1) by simp
    ultimately show ?thesis using k by (auto simp: dvd_eq_mod_eq_0)
  qed (use deferred in \<open>auto simp: nth_append\<close>)
next
  case (resync os s)
  show ?case
  proof (cases "k < length os")
    case False
    then have k: "k = length os" using resync.prems by simp
    have "0 = int (mismatch_run (os @ [DriftResync])) mod thr"
      using streaks_run [OF streaks.resync [OF resync(1,2)]] resync.prems(1) .
    then show ?thesis using k by (auto simp: dvd_eq_mod_eq_0)
  qed (use resync in \<open>auto simp: nth_append\<close>)
qed simp

text \<open>Rounds of reports followed by a sweep; the outcomes of all sweeps in order.\<close>

fun drift_rounds ::
  "'s srv \<Rightarrow> ((gtime \<times> edge_report) list \<times> gtime) list \<Rightarrow> ('s, (edge_id \<times> drift_outcome) list) cpm"
where
  "drift_rounds sv [] = cret []"
| "drift_rounds sv ((reports, now) # rounds) = do {
     on_cp (fold (\<lambda>(t, r). driftCheck t r) reports);
     os \<leftarrow> DriftSweep sv now;
     rest \<leftarrow> drift_rounds sv rounds;
     cret (os @ rest)
   }"

definition outcomes_of :: "edge_id \<Rightarrow> (edge_id \<times> drift_outcome) list \<Rightarrow> drift_outcome list" where
  "outcomes_of e os = map snd (filter (\<lambda>(d, x). d = e \<and> x \<noteq> DriftSkipped) os)"

abbreviation streak_of :: "cp \<Rightarrow> edge_id \<Rightarrow> int" where
  "streak_of cp e \<equiv> (case cp_driftStreak cp e of None \<Rightarrow> 0 | Some n \<Rightarrow> n)"

lemma drift_edge_streak:
  assumes "run_state (drift_edge sv now er) (cp, w) = (x, (cp', w'))"
    and "streaks (sv_driftStreakThreshold sv) os (streak_of cp e)"
  shows "streaks (sv_driftStreakThreshold sv) (os @ outcomes_of e [x]) (streak_of cp' e)"
  using assms
  by (auto simp: drift_edge_def outcomes_of_def run_orch_call bumpDriftStreak_def resetDriftStreak_def Let_def
      split: prod.splits sum.splits if_splits intro: streaks.intros streaks.resync [OF _ leI])

lemma outcomes_append: "outcomes_of e (xs @ ys) = outcomes_of e xs @ outcomes_of e ys"
  by (simp add: outcomes_of_def)

lemma drift_edges_streak:
  assumes "run_state (drift_edges sv now ers) (cp, w) = (xs, (cp', w'))"
    and "streaks (sv_driftStreakThreshold sv) os (streak_of cp e)"
  shows "streaks (sv_driftStreakThreshold sv) (os @ outcomes_of e xs) (streak_of cp' e)"
  using assms
proof (induction ers arbitrary: cp w xs os)
  case (Cons er ers)
  obtain x cp1 w1 where x: "run_state (drift_edge sv now er) (cp, w) = (x, (cp1, w1))" by (metis prod.exhaust)
  obtain ys where ys: "run_state (drift_edges sv now ers) (cp1, w1) = (ys, (cp', w'))" "xs = x # ys"
    using Cons.prems(1) x by (auto split: prod.splits)
  show ?case
    using Cons.IH [OF ys(1) drift_edge_streak [OF x Cons.prems(2)]] outcomes_append [of e "[x]" ys]
    by (simp add: ys(2))
qed (simp add: outcomes_of_def)

lemma driftChecks_streak [simp]: "cp_driftStreak (fold (\<lambda>(t, r). driftCheck t r) rs cp) = cp_driftStreak cp"
  by (induction rs arbitrary: cp) (auto simp: driftCheck_def)

lemma drift_rounds_streak:
  assumes "run_state (drift_rounds sv rounds) (cp, w) = (xs, (cp', w'))"
    and "streaks (sv_driftStreakThreshold sv) os (streak_of cp e)"
  shows "streaks (sv_driftStreakThreshold sv) (os @ outcomes_of e xs) (streak_of cp' e)"
  using assms
proof (induction rounds arbitrary: cp w xs os)
  case (Cons round rounds)
  obtain reports now where r: "round = (reports, now)" by (cases round)
  let ?cp = "fold (\<lambda>(t, r). driftCheck t r) reports cp"
  let ?seen = "fst (take_seen ?cp)" and ?cp0 = "snd (take_seen ?cp)"
  obtain ys cp1 w1 where ys: "run_state (drift_edges sv now ?seen) (?cp0, w) = (ys, (cp1, w1))" by (metis prod.exhaust)
  obtain zs where zs: "run_state (drift_rounds sv rounds) (cp1, w1) = (zs, (cp', w'))" "xs = ys @ zs"
    using Cons.prems(1) ys by (auto simp: r DriftSweep_def split: prod.splits)
  have "cp_driftStreak ?cp0 = cp_driftStreak cp" by (simp add: take_seen_def)
  then have "streaks (sv_driftStreakThreshold sv) os (streak_of ?cp0 e)" using Cons.prems(2) by simp
  from Cons.IH [OF zs(1) drift_edges_streak [OF ys this]] show ?case
    by (simp add: zs(2) outcomes_append)
qed (simp add: outcomes_of_def)


definition demo_srv :: "cluster srv" where
  "demo_srv = \<lparr>sv_orc = demo_orch, sv_led = demo_ledger,
     sv_fns = demo_fns,
     sv_PoolSetHash = (\<lambda>ids. of_nat (length ids)), sv_SoftDead = (\<lambda>h. h_State h = HealthDataPlaneDown),
     sv_driftStreakThreshold = 2, sv_progThreshold = 3, sv_acctTolerance = 0, sv_createWindow = seconds 30,
     sv_sched = id\<rparr>"

text \<open>The edge holds nothing of the store's one pool in any of the three rounds.\<close>

definition demo_rounds :: "((gtime \<times> edge_report) list \<times> gtime) list" where
  "demo_rounds = [([(1, demo_edge_report ''e2'' 0)], 2), ([(3, demo_edge_report ''e2'' 0)], 4), ([(5, demo_edge_report ''e2'' 0)], 6)]"


section \<open>Node death\<close>

text \<open>The moves a trace reports, and the event of one.\<close>

definition moves_in :: "event list \<Rightarrow> (pool_id \<times> edge_id \<times> edge_id \<times> u64) list" where
  "moves_in evs = List.map_filter (\<lambda>ev. case ev of EvFailover i src dst gen \<Rightarrow> Some (i, src, dst, gen) | _ \<Rightarrow> None) evs"

definition move_event :: "gtime \<Rightarrow> cp \<Rightarrow> pool_id \<times> edge_id \<times> edge_id \<times> u64 \<Rightarrow> api_event" where
  "move_event now cp m = (case m of (i, src, dst, gen) \<Rightarrow> (controller_event now ''failover'')\<lparr>ev_PoolID := i,
     ev_FromEdge := src, ev_ToEdge := dst, ev_Reason := deathReasonFor cp src, ev_Generation := gen\<rparr>)"

lemma callback_moves:
  assumes "cp_emitter cp \<noteq> Noop"
  shows "\<exists>out. produced (callback now ev cp) = produced cp @ out
    \<and> filter (\<lambda>x. ev_Op x = ''failover'') out = map (move_event now cp) (moves_in [ev])"
  using assms
  by (cases ev) (auto simp: callback_def notify_defs moves_in_def move_event_def map_filter_def controller_event_def zero_event_def)

lemma fold_callback_moves:
  assumes "cp_emitter cp \<noteq> Noop"
  shows "\<exists>out. produced (fold (callback now) evs cp) = produced cp @ out
    \<and> filter (\<lambda>x. ev_Op x = ''failover'') out = map (move_event now cp) (moves_in evs)"
  using assms
proof (induction evs arbitrary: cp)
  case Nil
  then show ?case by (simp add: moves_in_def map_filter_def)
next
  case (Cons ev evs)
  let ?cp = "callback now ev cp"
  obtain o1 where o1: "produced ?cp = produced cp @ o1"
    "filter (\<lambda>x. ev_Op x = ''failover'') o1 = map (move_event now cp) (moves_in [ev])"
    using callback_moves [OF Cons.prems] by blast
  obtain o2 where o2: "produced (fold (callback now) evs ?cp) = produced ?cp @ o2"
    "filter (\<lambda>x. ev_Op x = ''failover'') o2 = map (move_event now ?cp) (moves_in evs)"
    using Cons.IH [of ?cp] Cons.prems by auto
  have "move_event now ?cp = move_event now cp" by (auto simp: move_event_def deathReasonFor_def)
  moreover have "moves_in (ev # evs) = moves_in [ev] @ moves_in evs" by (simp add: moves_in_def map_filter_def)
  ultimately show ?case using o1 o2 by (intro exI [of _ "o1 @ o2"]) simp
qed


abbreviation demo_death :: "unit \<times> cp \<times> cluster world" where
  "demo_death \<equiv> run_state (for_each (on_live_event demo_srv 5) [OnDeath ''e1'' HardQuorum, OnFailover ''e1'']) (demo_cp, demo_world)"


end
