(* ===== verification/CpFrame.thy ===== *)
theory CpFrame
  imports ControlPlane
begin

text \<open>
  Which parts of the control plane's state an operation leaves alone. The locale \<open>cp_view\<close> is the interface of a part that
  the liveness, event and report paths do not write: it does not see the fields they update. It is interpreted on
  the presence map and on the streaks of the program audit.
\<close>

definition keeps_view :: "(cp \<Rightarrow> 'x) \<Rightarrow> ('s, 'a) cpm \<Rightarrow> bool" where
  "keeps_view view m \<longleftrightarrow> (\<forall>cp w. view (fst (snd (run_state m (cp, w)))) = view cp)"

named_theorems view_keeps

lemma keeps_viewD: "keeps_view view m \<Longrightarrow> run_state m (cp, w) = (r, (cp', w')) \<Longrightarrow> view cp' = view cp"
  unfolding keeps_view_def by (metis fst_conv snd_conv)

lemma keeps_view_bind [view_keeps]:
  assumes "keeps_view view m" "\<And>x. keeps_view view (f x)"
  shows "keeps_view view (m \<bind> f)"
  unfolding keeps_view_def
proof (intro allI)
  fix cp w
  obtain x cp1 w1 where m: "run_state m (cp, w) = (x, (cp1, w1))" by (rule prod_cases3)
  have "view (fst (snd (run_state (f x) (cp1, w1)))) = view cp1" using assms(2) [of x] unfolding keeps_view_def by blast
  then show "view (fst (snd (run_state (m \<bind> f) (cp, w)))) = view cp" using keeps_viewD [OF assms(1) m] m by simp
qed

lemma keeps_view_after:
  assumes "run_state m s = (x, (cp1, w1))" "keeps_view view (f x)"
  shows "view (fst (snd (run_state (m \<bind> f) s))) = view cp1"
  using assms by (simp add: keeps_view_def)

lemma keeps_view_cret [view_keeps]: "keeps_view view (cret x)"
  and keeps_view_get [view_keeps]: "keeps_view view get_cp"
  and keeps_view_on_cp [view_keeps]: "(\<And>cp. view (f cp) = view cp) \<Longrightarrow> keeps_view view (on_cp f)"
  by (simp_all add: keeps_view_def)

lemma keeps_view_for_each [view_keeps]: "(\<And>x. keeps_view view (f x)) \<Longrightarrow> keeps_view view (for_each f xs)"
  by (induction xs) (auto intro!: view_keeps)

lemma fold_same: "(\<And>x s. f (g x s) = f s) \<Longrightarrow> f (fold g xs s) = f s"
  by (induction xs arbitrary: s) simp_all

locale cp_view =
  fixes view :: "cp \<Rightarrow> 'x"
  assumes sent [simp]: "view (cp\<lparr>cp_sent := x1\<rparr>) = view cp"
    and queue [simp]: "view (cp\<lparr>cp_reconcileQ := x2\<rparr>) = view cp"
    and live [simp]: "view (cp\<lparr>cp_Liveness := x3\<rparr>) = view cp"
    and deaths [simp]: "view (cp\<lparr>cp_deathMethodByEdge := x4\<rparr>) = view cp"
    and levels [simp]: "view (cp\<lparr>cp_dpDownEdges := x5\<rparr>) = view cp" "view (cp\<lparr>cp_meteringStaleEdge := x5\<rparr>) = view cp"
      "view (cp\<lparr>cp_fibDriftEdges := x5\<rparr>) = view cp"
    and reports [simp]: "view (cp\<lparr>cp_reports := x6\<rparr>) = view cp"
    and pending [simp]: "view (cp\<lparr>cp_pending := x7\<rparr>) = view cp"
    and drift [simp]: "view (cp\<lparr>cp_driftReported := x8\<rparr>) = view cp"
begin

lemma view_Emit [simp]: "view (Emit ev cp) = view cp"
  by (simp add: Emit_def split: emitter.split)

lemma view_enqueue [simp]: "view (enqueuePool i cp) = view cp"
  by (simp add: enqueuePool_def)

lemma view_callback [simp]: "view (callback now ev cp) = view cp"
  by (simp add: callback_def notify_defs split: event.split)

lemma view_events [simp]:
  "view (emitEdgeUp now e cp) = view cp" "view (onEdgeDeath now e why cp) = view cp"
  "view (emitMeteringStale now e st cp) = view cp" "view (emitEdgeDataplane now e d cp) = view cp"
  by (simp_all add: emitEdgeUp_def onEdgeDeath_def emitMeteringStale_def emitEdgeDataplane_def Let_def)

lemma view_observability [simp]: "view (emitReportObservability now r cp) = view cp"
  by (simp add: emitReportObservability_def emitFIBDrift_def emitDeliveryDegraded_def Let_def split: option.split)

lemma view_resolve [simp]: "view (resolvePending now r cp) = view cp"
proof -
  have emits: "view (fold (\<lambda>(i, p). Emit (converged_event now p)) ps cp) = view cp" for ps cp
    by (rule fold_same) (simp add: split_beta)
  show ?thesis unfolding resolvePending_def Let_def by (rule trans [OF emits pending])
qed

lemma view_report [simp]: "view (reports_put r cp) = view cp" "view (driftCheck now r cp) = view cp"
  by (simp_all add: reports_put_def driftCheck_def)

lemma keeps_call [view_keeps]: "keeps_view view (orch_call now m)"
  by (simp add: keeps_view_def run_orch_call fold_same)

lemma keeps_live_event [view_keeps]: "keeps_view view (on_live_event sv now ev)"
  unfolding on_live_event_def revive_def failover_def enqueuePoolsFor_def
  by (cases ev) (auto intro!: view_keeps simp: fold_same)

lemma keeps_mon_call [view_keeps]: "keeps_view view (mon_call sv now f)"
  unfolding mon_call_def by (auto intro!: view_keeps simp: split_beta)

lemma keeps_onReport [view_keeps]: "keeps_view view (onReport sv now r)"
  unfolding onReport_def enqueuePoolsFor_def
  by (auto intro!: view_keeps simp: fold_same split: option.split)

end

text \<open>Parts that the delivery to coverers, and then also the reports about members, leave alone.\<close>

locale cp_frame = cp_view +
  assumes fan [simp]: "view (cp\<lparr>cp_fan := x9\<rparr>) = view cp"

locale cp_outside = cp_frame +
  assumes presence [simp]: "view (cp\<lparr>cp_presence := x10\<rparr>) = view cp"

interpretation presence: cp_frame cp_presence
  by unfold_locales simp_all

interpretation prog_streak: cp_outside cp_progStreak
  by unfold_locales simp_all

end
