(* ===== verification/NetipParse.thy ===== *)
theory NetipParse
  imports Ledger
begin

text \<open>
  \<open>netip.ParsePrefix\<close> of Go's standard library, which the coverer reports go through, at the level of its loops over the
  text. The lemmas show that it inverts \<open>Prefix.String\<close>. Error values are not distinguished.
\<close>

section \<open>Parsing\<close>

text \<open>\<open>parseIPv4Fields\<close>: whether a dot may not come next, value and digits of the current field, the fields before.\<close>

fun v4_fields :: "bool \<Rightarrow> int \<Rightarrow> nat \<Rightarrow> int list \<Rightarrow> string \<Rightarrow> int list option" where
  "v4_fields nodot val digLen fs [] = (if length fs < 3 then None else Some (fs @ [val]))"
| "v4_fields nodot val digLen fs (c # cs) =
     (case digit_val c of
        Some d \<Rightarrow>
          if digLen = 1 \<and> val = 0 then None
          else if val * 10 + d > 255 then None
          else v4_fields False (val * 10 + d) (Suc digLen) fs cs
      | None \<Rightarrow>
          if c \<noteq> CHR ''.'' then None
          else if nodot \<or> cs = [] then None
          else if length fs = 3 then None
          else v4_fields True 0 0 (fs @ [val]) cs)"

definition number :: "int \<Rightarrow> int list \<Rightarrow> int" where
  "number base ds = foldl (\<lambda>a d. a * base + d) 0 ds"

definition parseIPv4 :: "string \<Rightarrow> addr option" where
  "parseIPv4 s = map_option (\<lambda>fs. V4 (word_of_int (number 256 fs))) (v4_fields True 0 0 [] s)"

definition hex_val :: "char \<Rightarrow> int option" where
  "hex_val c = (let n = (of_char c :: int) in
     if 48 \<le> n \<and> n \<le> 57 then Some (n - 48)
     else if 97 \<le> n \<and> n \<le> 102 then Some (n - 87)
     else if 65 \<le> n \<and> n \<le> 70 then Some (n - 55) else None)"

text \<open>The hex number of a field: value, digits, rest.\<close>

fun take_hex :: "nat \<Rightarrow> int \<Rightarrow> string \<Rightarrow> (int \<times> nat \<times> string) option" where
  "take_hex off acc [] = Some (acc, off, [])"
| "take_hex off acc (c # cs) =
     (case hex_val c of
        None \<Rightarrow> Some (acc, off, c # cs)
      | Some d \<Rightarrow> if off > 3 then None else take_hex (Suc off) (acc * 16 + d) cs)"

text \<open>The loop of \<open>parseIPv6\<close>: groups left to read, the groups read, the group before which \<open>::\<close> stood, the rest.\<close>

fun v6_loop :: "nat \<Rightarrow> int list \<Rightarrow> nat option \<Rightarrow> string \<Rightarrow> (int list \<times> nat option \<times> string) option" where
  "v6_loop 0 groups ell s = Some (groups, ell, s)"
| "v6_loop (Suc n) groups ell s =
     (case take_hex 0 0 s of
        None \<Rightarrow> None
      | Some (acc, off, rest) \<Rightarrow>
          if off = 0 then None
          else if rest \<noteq> [] \<and> hd rest = CHR ''.'' then
            (if ell = None \<and> length groups \<noteq> 6 then None
             else if length groups + 2 > 8 then None
             else case v4_fields True 0 0 [] s of
               Some [a, b, c, d] \<Rightarrow> Some (groups @ [a * 256 + b, c * 256 + d], ell, [])
             | _ \<Rightarrow> None)
          else
            (case rest of
               [] \<Rightarrow> Some (groups @ [acc], ell, [])
             | c # cs \<Rightarrow>
                 if c \<noteq> CHR '':'' \<or> cs = [] then None
                 else if hd cs = CHR '':'' then
                   (if ell \<noteq> None then None
                    else if tl cs = [] then Some (groups @ [acc], Some (Suc (length groups)), [])
                    else v6_loop n (groups @ [acc]) (Some (Suc (length groups))) (tl cs))
                 else v6_loop n (groups @ [acc]) ell cs))"

definition v6_expand :: "int list \<times> nat option \<times> string \<Rightarrow> int list option" where
  "v6_expand = (\<lambda>(groups, ell, rest).
     if rest \<noteq> [] then None
     else if length groups < 8
     then map_option (\<lambda>e. take e groups @ replicate (8 - length groups) 0 @ drop e groups) ell
     else if ell \<noteq> None then None else Some groups)"

definition parseIPv6 :: "string \<Rightarrow> addr option" where
  "parseIPv6 s =
     (let (ell, s) = (if prefix ''::'' s then (Some 0, drop 2 s) else (None, s)) in
      if ell = Some 0 \<and> s = [] then Some (V6 0)
      else case v6_loop 8 [] ell s of
        None \<Rightarrow> None
      | Some r \<Rightarrow> map_option (\<lambda>gs. V6 (word_of_int (number 65536 gs))) (v6_expand r))"

text \<open>A zone is never allowed in a prefix, so an address with a percent sign is refused here.\<close>

definition ParseAddr :: "string \<Rightarrow> addr option" where
  "ParseAddr s =
     (if CHR ''%'' \<in> set s then None
      else case find (\<lambda>c. c = CHR ''.'' \<or> c = CHR '':'') s of
        None \<Rightarrow> None
      | Some c \<Rightarrow> if c = CHR ''.'' then parseIPv4 s else parseIPv6 s)"

definition ParsePrefix :: "string \<Rightarrow> pfx option" where
  "ParsePrefix s =
     (if CHR ''/'' \<notin> set s then None
      else
        let bits = rev (takeWhile (\<lambda>c. c \<noteq> CHR ''/'') (rev s));
            ip = take (length s - length bits - 1) s
        in case ParseAddr ip of
             None \<Rightarrow> None
           | Some a \<Rightarrow>
               if length bits > 1 \<and> hd bits \<notin> set ''123456789'' then None
               else case ParseInt bits of
                 None \<Rightarrow> None
               | Some b \<Rightarrow> if b < 0 \<or> b > BitLen a then None else Some (PrefixFrom a b))"

section \<open>Digits\<close>

definition digit_chars :: "char set" where
  "digit_chars = set ''0123456789abcdef''"

lemma sep_not_digit [simp]:
  "CHR ''.'' \<notin> digit_chars" "CHR '':'' \<notin> digit_chars" "CHR ''/'' \<notin> digit_chars" "CHR ''%'' \<notin> digit_chars"
  by (simp_all add: digit_chars_def)

lemma digit_char_in: "0 \<le> d \<Longrightarrow> d < 16 \<Longrightarrow> digit_char d \<in> digit_chars"
  unfolding digit_char_def digit_chars_def by (rule nth_mem) simp

lemma digits_rev_chars:
  "0 \<le> n \<Longrightarrow> 0 < base \<Longrightarrow> base \<le> 16 \<Longrightarrow> set (digits_rev k base n) \<subseteq> digit_chars"
proof (induction k arbitrary: n)
  case (Suc k)
  have "digit_char (n mod base) \<in> digit_chars"
    using Suc.prems by (intro digit_char_in) (auto intro: less_le_trans [OF pos_mod_bound])
  moreover have "set (digits_rev k base (n div base)) \<subseteq> digit_chars"
    using Suc.prems by (intro Suc.IH) (auto simp: pos_imp_zdiv_nonneg_iff)
  ultimately show ?case by simp
qed simp

lemma show_chars:
  assumes "0 \<le> n"
  shows "set (show_dec n) \<subseteq> digit_chars" "set (show_hex n) \<subseteq> digit_chars"
  using assms digits_rev_chars [of n] by (simp_all add: show_dec_def show_hex_def)

lemma digits_rev_unroll:
  "digits_rev 20 base n = digit_char (n mod base) # (if n div base = 0 then [] else digit_char (n div base mod base) #
     (if n div base div base = 0 then [] else digit_char (n div base div base mod base) #
     (if n div base div base div base = 0 then [] else digit_char (n div base div base div base mod base) #
     (if n div base div base div base div base = 0 then [] else digits_rev 16 base (n div base div base div base div base)))))"
proof -
  have "(20 :: nat) = Suc (Suc (Suc (Suc 16)))" by simp
  then show ?thesis by (simp only: digits_rev.simps)
qed

lemma quotient_less: "0 < k \<Longrightarrow> n div k < m \<longleftrightarrow> n < m * (k :: int)"
proof -
  assume k: "0 < k"
  define q where "q = n div k"
  have "k * q + n mod k = n" by (simp add: q_def)
  moreover have "0 \<le> n mod k" "n mod k < k" using k by simp_all
  ultimately have "n < (n div k + 1) * k" "n div k * k \<le> n" unfolding q_def [symmetric] by (simp_all add: algebra_simps)
  moreover have "(n div k + 1) * k \<le> m * k" if "n div k < m" using that k by (intro mult_right_mono) simp_all
  moreover have "m * k \<le> n div k * k" if "\<not> n div k < m" using that k by (intro mult_right_mono) simp_all
  ultimately show ?thesis by linarith
qed

lemma show_dec_small:
  assumes "0 \<le> n" "n < 256"
  shows "show_dec n = (if n < 10 then [digit_char n] else if n < 100 then [digit_char (n div 10), digit_char (n mod 10)]
    else [digit_char (n div 100), digit_char (n div 10 mod 10), digit_char (n mod 10)])"
proof -
  have "n div 10 div 10 = n div 100" "n div 100 div 10 = n div 1000" by simp_all
  moreover have "n div 1000 = 0" using assms by simp
  moreover have "n div 10 = 0 \<longleftrightarrow> n < 10" "n div 100 = 0 \<longleftrightarrow> n < 100" using assms by presburger+
  moreover have "n div 10 < 10 \<longleftrightarrow> n < 100" "n div 100 < 10" using assms by presburger+
  then have "n < 10 \<Longrightarrow> n mod 10 = n" "n < 100 \<Longrightarrow> n div 10 mod 10 = n div 10" "n div 100 mod 10 = n div 100"
    using assms by simp_all
  ultimately show ?thesis by (simp add: show_dec_def digits_rev_unroll)
qed

lemma show_hex_small:
  assumes "0 \<le> n" "n < 65536"
  shows "show_hex n = (if n < 16 then [digit_char n] else if n < 256 then [digit_char (n div 16), digit_char (n mod 16)]
    else if n < 4096 then [digit_char (n div 256), digit_char (n div 16 mod 16), digit_char (n mod 16)]
    else [digit_char (n div 4096), digit_char (n div 256 mod 16), digit_char (n div 16 mod 16), digit_char (n mod 16)])"
proof -
  have q: "n div 16 div 16 = n div 256" "n div 256 div 16 = n div 4096" "n div 4096 div 16 = 0"
    using assms by simp_all
  have z: "n div 16 = 0 \<longleftrightarrow> n < 16" "n div 256 = 0 \<longleftrightarrow> n < 256" "n div 4096 = 0 \<longleftrightarrow> n < 4096"
    using assms by (auto simp: zdiv_eq_0_iff)
  have l: "n div 16 < 16 \<longleftrightarrow> n < 256" "n div 256 < 16 \<longleftrightarrow> n < 4096" "n div 4096 < 16"
    using assms by (simp_all add: quotient_less)
  have m: "n < 16 \<Longrightarrow> n mod 16 = n" "n < 256 \<Longrightarrow> n div 16 mod 16 = n div 16"
    "n < 4096 \<Longrightarrow> n div 256 mod 16 = n div 256" "n div 4096 mod 16 = n div 4096"
    using assms l by simp_all
  show ?thesis using m unfolding show_hex_def digits_rev_unroll q z by simp
qed

lemma hex_val_char: "0 \<le> d \<Longrightarrow> d < 16 \<Longrightarrow> hex_val (digit_char d) = Some d"
proof -
  assume "0 \<le> d" "d < 16"
  then have "d \<in> {0, 1, 2, 3, 4, 5, 6, 7, 8, 9, 10, 11, 12, 13, 14, 15}" unfolding insert_iff empty_iff by presburger
  then show ?thesis by (elim insertE emptyE; simp add: hex_val_def digit_char_def)
qed

section \<open>IPv4\<close>

lemma v4_fields_number:
  assumes "0 \<le> n" "n < 256"
  shows "v4_fields nodot 0 0 fs (show_dec n @ rest) = v4_fields False n (length (show_dec n)) fs rest"
proof -
  have d: "digit_val (digit_char (n mod 10)) = Some (n mod 10)" "digit_val (digit_char (n div 10 mod 10)) = Some (n div 10 mod 10)"
    by (rule digit_val_char; simp)+
  consider "n < 10" | "10 \<le> n" "n < 100" | "100 \<le> n" by linarith
  then show ?thesis
  proof cases
    case 1
    then show ?thesis using assms digit_val_char [of n] by (simp add: show_dec_small)
  next
    case 2
    then have q: "0 < n div 10" "n div 10 < 10" "n div 10 * 10 + n mod 10 = n" by presburger+
    then have "digit_val (digit_char (n div 10)) = Some (n div 10)" by (auto intro!: digit_val_char)
    then show ?thesis using 2 assms d q by (simp add: show_dec_small)
  next
    case 3
    have q: "0 < n div 100" "n div 100 < 10" "n div 10 * 10 + n mod 10 = n" "n div 10 \<le> 255"
      using 3 assms by presburger+
    have q2: "n div 100 * 10 + n div 10 mod 10 = n div 10" using div_mult_mod_eq [of "n div 10" 10] by (simp add: zdiv_zmult2_eq [symmetric])
    have "digit_val (digit_char (n div 100)) = Some (n div 100)" using q by (intro digit_val_char) simp_all
    then show ?thesis using 3 assms d q q2 by (simp add: show_dec_small)
  qed
qed

definition octets :: "int \<Rightarrow> int list" where
  "octets n = [n div 2 ^ 24 mod 256, n div 2 ^ 16 mod 256, n div 2 ^ 8 mod 256, n mod 256]"

lemma v4_fields_string4: "v4_fields True 0 0 [] (string4 n) = Some (octets n)"
proof -
  have dot: "digit_val CHR ''.'' = None" by (simp add: digit_val_def)
  have b: "0 \<le> x mod (256 :: int)" "x mod (256 :: int) < 256" for x by simp_all
  show ?thesis
    unfolding string4_def octets_def
    by (simp add: v4_fields_number b dot show_dec_not_Nil v4_fields_number [OF b, where rest = "[]", simplified])
qed

section \<open>IPv6\<close>

text \<open>What may follow a hex number.\<close>

definition ends_hex :: "string \<Rightarrow> bool" where
  "ends_hex rest \<longleftrightarrow> (case rest of [] \<Rightarrow> True | c # _ \<Rightarrow> hex_val c = None)"

lemma take_hex_stop: "ends_hex rest \<Longrightarrow> take_hex off acc rest = Some (acc, off, rest)"
  by (cases rest) (simp_all add: ends_hex_def)

lemma take_hex_show:
  assumes n: "0 \<le> n" "n < 65536" and r: "ends_hex rest"
  shows "take_hex 0 0 (show_hex n @ rest) = Some (n, length (show_hex n), rest)"
proof -
  have h: "hex_val (digit_char (x mod 16)) = Some (x mod 16)" for x by (rule hex_val_char) simp_all
  have e: "n div 16 * 16 + n mod 16 = n" "n div 256 * 16 + n div 16 mod 16 = n div 16"
    "n div 4096 * 16 + n div 256 mod 16 = n div 256"
    using div_mult_mod_eq [of n 16] div_mult_mod_eq [of "n div 16" 16] div_mult_mod_eq [of "n div 256" 16]
    by (simp_all add: zdiv_zmult2_eq [symmetric])
  note top = hex_val_char [of n] hex_val_char [of "n div 16"] hex_val_char [of "n div 256"] hex_val_char [of "n div 4096"]
  have l: "n div 16 < 16 \<longleftrightarrow> n < 256" "n div 256 < 16 \<longleftrightarrow> n < 4096" "n div 4096 < 16"
    "0 \<le> n div 16" "0 \<le> n div 256" "0 \<le> n div 4096"
    using n by (simp_all add: quotient_less pos_imp_zdiv_nonneg_iff)
  show ?thesis
    unfolding show_hex_small [OF n]
    using n top h e l by (simp add: take_hex_stop [OF r])
qed

lemma show_hex_not_Nil: "show_hex n \<noteq> []"
  by (simp add: show_hex_def digits_rev_unroll)

lemma sep_not_hex: "hex_val CHR '':'' = None" "hex_val CHR ''.'' = None" "hex_val CHR ''/'' = None"
  by (simp_all add: hex_val_def)

lemma show_hex_hd: "0 \<le> n \<Longrightarrow> hd (show_hex n @ xs) \<noteq> CHR '':''"
  using show_chars(2) [of n] show_hex_not_Nil [of n] by (cases "show_hex n") auto

abbreviation group_ok :: "int list \<Rightarrow> bool" where
  "group_ok xs \<equiv> \<forall>x \<in> set xs. 0 \<le> x \<and> x < 65536"

lemma join_hd:
  assumes "group_ok xs" "xs \<noteq> []"
  shows "join_colon (map show_hex xs) @ rest \<noteq> []" "hd (join_colon (map show_hex xs) @ rest) \<noteq> CHR '':''"
proof -
  obtain x ys where xs: "xs = x # ys" using assms(2) by (cases xs) auto
  obtain zs where "join_colon (map show_hex xs) = show_hex x @ zs" unfolding xs by (cases ys) auto
  then show "join_colon (map show_hex xs) @ rest \<noteq> []" "hd (join_colon (map show_hex xs) @ rest) \<noteq> CHR '':''"
    using show_hex_not_Nil show_hex_hd [of x "zs @ rest"] assms(1) xs by auto
qed

text \<open>The loop over groups printed with colons, at the end of the text and before a double colon.\<close>

lemma v6_loop_join:
  assumes "group_ok xs" "xs \<noteq> []" "length xs \<le> n"
  shows "v6_loop n groups ell (join_colon (map show_hex xs)) = Some (groups @ xs, ell, [])"
  using assms
proof (induction xs arbitrary: n groups rule: induct_list012)
  case (2 x)
  obtain m where n: "n = Suc m" using 2 by (cases n) auto
  show ?case using 2 take_hex_show [of x "[]"] by (simp add: n ends_hex_def show_hex_not_Nil)
next
  case (3 x y xs)
  obtain m where n: "n = Suc m" using 3 by (cases n) auto
  let ?s = "join_colon (map show_hex (y # xs))"
  have "take_hex 0 0 (show_hex x @ CHR '':'' # ?s) = Some (x, length (show_hex x), CHR '':'' # ?s)"
    using 3 by (intro take_hex_show) (simp_all add: ends_hex_def sep_not_hex)
  moreover have "?s \<noteq> []" "hd ?s \<noteq> CHR '':''" using join_hd [of "y # xs" "[]"] 3 by simp_all
  moreover have "v6_loop m (groups @ [x]) ell ?s = Some ((groups @ [x]) @ y # xs, ell, [])"
    using 3 by (intro "3.IH"(2)) (simp_all add: n)
  ultimately show ?case by (simp add: n show_hex_not_Nil)
qed simp

lemma v6_loop_gap:
  assumes "group_ok xs" "xs \<noteq> []" "length xs \<le> n"
  shows "v6_loop n groups None (join_colon (map show_hex xs) @ ''::'' @ rest) =
    (if rest = [] then Some (groups @ xs, Some (length (groups @ xs)), [])
     else v6_loop (n - length xs) (groups @ xs) (Some (length (groups @ xs))) rest)"
  using assms
proof (induction xs arbitrary: n groups rule: induct_list012)
  case (2 x)
  obtain m where n: "n = Suc m" using 2 by (cases n) auto
  have "take_hex 0 0 (show_hex x @ ''::'' @ rest) = Some (x, length (show_hex x), ''::'' @ rest)"
    using 2 by (intro take_hex_show) (simp_all add: ends_hex_def sep_not_hex)
  then show ?case by (simp add: n show_hex_not_Nil)
next
  case (3 x y xs)
  obtain m where n: "n = Suc m" using 3 by (cases n) auto
  let ?s = "join_colon (map show_hex (y # xs)) @ ''::'' @ rest"
  have "take_hex 0 0 (show_hex x @ CHR '':'' # ?s) = Some (x, length (show_hex x), CHR '':'' # ?s)"
    using 3 by (intro take_hex_show) (simp_all add: ends_hex_def sep_not_hex)
  moreover have "?s \<noteq> []" "hd ?s \<noteq> CHR '':''" using join_hd [of "y # xs" "''::'' @ rest"] 3 by simp_all
  moreover have "v6_loop m (groups @ [x]) None ?s = (if rest = [] then Some ((groups @ [x]) @ y # xs, Some (length ((groups @ [x]) @ y # xs)), [])
     else v6_loop (m - length (y # xs)) ((groups @ [x]) @ y # xs) (Some (length ((groups @ [x]) @ y # xs))) rest)"
    using 3 by (intro "3.IH"(2)) (simp_all add: n)
  ultimately show ?case by (simp add: n show_hex_not_Nil)
qed simp

section \<open>Numbers from their digits\<close>

lemma number_digits:
  assumes "0 < base"
  shows "number base (map (\<lambda>i. n div base ^ (k - 1 - i) mod base) [0..<k]) = n mod base ^ k"
proof (induction k arbitrary: n)
  case (Suc k)
  have "map (\<lambda>i. n div base ^ (k - i) mod base) [0..<k] = map (\<lambda>i. n div base div base ^ (k - 1 - i) mod base) [0..<k]"
  proof (rule map_cong [OF refl])
    fix i
    assume "i \<in> set [0..<k]"
    then have "base ^ (k - i) = base * base ^ (k - 1 - i)" by (simp add: power_Suc [symmetric] del: power_Suc) (metis Suc_diff_Suc diff_commute diff_Suc_1)
    then show "n div base ^ (k - i) mod base = n div base div base ^ (k - 1 - i) mod base" using assms by (simp add: zdiv_zmult2_eq)
  qed
  then have "number base (map (\<lambda>i. n div base ^ (Suc k - 1 - i) mod base) [0..<Suc k]) =
    number base (map (\<lambda>i. n div base div base ^ (k - 1 - i) mod base) [0..<k]) * base + n mod base"
    unfolding number_def by (simp del: map_eq_conv)
  also have "\<dots> = (n div base mod base ^ k) * base + n mod base" by (simp only: Suc.IH)
  also have "\<dots> = n mod base ^ Suc k" using assms by (simp add: zmod_zmult2_eq mult.commute)
  finally show ?case .
qed (simp add: number_def)

lemma upt_4: "[0..<4] = [0, Suc 0, 2, 3]"
  by (simp add: upt_conv_Cons numeral_eq_Suc)

lemma number_octets:
  assumes "0 \<le> n" "n < 2 ^ 32"
  shows "number 256 (octets n) = n"
proof -
  have "octets n = map (\<lambda>i. n div 256 ^ (4 - 1 - i) mod 256) [0..<4]" unfolding octets_def upt_4 by simp
  then have "number 256 (octets n) = n mod 256 ^ 4" by (simp only: number_digits [of 256 n 4])
  also have "(256 ^ 4 :: int) = 2 ^ 32" by simp
  also have "n mod 2 ^ 32 = n" using assms by (rule mod_pos_pos_trivial)
  finally show ?thesis .
qed

abbreviation groups6 :: "128 word \<Rightarrow> int list" where
  "groups6 w \<equiv> map (v6u16 w) [0..<8]"

lemma number_groups: "number 65536 (groups6 w) = uint w"
proof -
  have "v6u16 w i = uint w div 65536 ^ (8 - 1 - i) mod 65536" if "i < 8" for i
    using that by (simp add: v6u16_def power_mult)
  then have "groups6 w = map (\<lambda>i. uint w div 65536 ^ (8 - 1 - i) mod 65536) [0..<8]" by (intro map_cong) simp_all
  then have "number 65536 (groups6 w) = uint w mod 65536 ^ 8" by (simp only: number_digits [of 65536 "uint w" 8])
  then show ?thesis using uint_lt2p [of w] by simp
qed

lemma group_ok_v6: "group_ok (map (v6u16 w) is)"
  by (auto simp: v6u16_def)

section \<open>The elided zeros\<close>

lemma longest_zero_Some:
  assumes "longest_zero w = Some (s, l)"
  shows "0 < l" "s + l \<le> 8" "map (v6u16 w) [s..<s + l] = replicate l 0"
proof -
  define f where "f = (\<lambda>best i. let l = zero_run w i in
     case best of None \<Rightarrow> (if l \<ge> 2 then Some (i, l) else None)
     | Some (s, m) \<Rightarrow> (if l \<ge> 2 \<and> l > m then Some (i, l) else Some (s, m)))"
  define P where "P = (\<lambda>best. \<forall>s l. best = Some (s, l) \<longrightarrow> s < 8 \<and> 2 \<le> l \<and> l = zero_run w s)"
  have step: "P (f best i)" if "P best" "i < 8" for best i
    using that by (cases best) (auto simp: f_def P_def Let_def split: if_splits)
  have inv: "P (foldl f best is)" if "P best" "\<forall>i \<in> set is. i < 8" for best "is"
    using that by (induction "is" arbitrary: best) (auto intro: step)
  have "\<forall>i \<in> set [0..<8]. i < (8 :: nat)" by auto
  moreover have "P None" by (simp add: P_def)
  ultimately have "P (longest_zero w)" unfolding longest_zero_def f_def [symmetric] by (intro inv)
  then have l: "s < 8" "2 \<le> l" "l = zero_run w s" using assms by (simp_all add: P_def)
  let ?z = "\<lambda>j. v6u16 w j = 0"
  have "length (takeWhile ?z [s..<8]) \<le> length [s..<8]" by (rule length_takeWhile_le)
  then show sl: "s + l \<le> 8" using l by (simp add: zero_run_def)
  show "0 < l" using l by simp
  have "takeWhile ?z [s..<8] = take l [s..<8]" unfolding l(3) zero_run_def by (rule takeWhile_eq_take)
  then have "[s..<s + l] = takeWhile ?z [s..<8]" using sl by (simp add: take_upt)
  then have "\<forall>x \<in> set (map (v6u16 w) [s..<s + l]). x = 0" by (auto dest: set_takeWhileD)
  then show "map (v6u16 w) [s..<s + l] = replicate l 0" by (metis length_map length_upt replicate_length_same add_diff_cancel_left')
qed

lemma groups_split:
  assumes "longest_zero w = Some (s, l)"
  shows "groups6 w = map (v6u16 w) [0..<s] @ replicate l 0 @ map (v6u16 w) [s + l..<8]"
proof -
  have "[0..<8] = [0..<s] @ [s..<s + l] @ [s + l..<8]"
    using longest_zero_Some(2) [OF assms] by (metis le_add1 le_add2 le_trans upt_add_eq_append le_add_diff_inverse add_0 )
  then show ?thesis using longest_zero_Some(3) [OF assms] by simp
qed

lemma join_hex: "join_colon (map (\<lambda>i. show_hex (v6u16 w i)) is) = join_colon (map show_hex (map (v6u16 w) is))"
  by (simp add: comp_def)

lemma no_leading_gap:
  assumes "group_ok xs" "xs \<noteq> []"
  shows "\<not> prefix ''::'' (join_colon (map show_hex xs) @ rest)"
proof
  assume "prefix ''::'' (join_colon (map show_hex xs) @ rest)"
  then obtain zs where "join_colon (map show_hex xs) @ rest = ''::'' @ zs" by (auto elim: prefixE)
  then show False using join_hd(2) [OF assms, of rest] by simp
qed

lemma parseIPv6_string6: "parseIPv6 (string6 w) = Some (V6 w)"
proof (cases "longest_zero w")
  case None
  let ?s = "join_colon (map show_hex (groups6 w))"
  have s: "string6 w = ?s" by (simp add: string6_def None join_hex del: map_map upt_rec_numeral)
  have "groups6 w \<noteq> []" by simp
  then have "\<not> prefix ''::'' ?s" using no_leading_gap [OF group_ok_v6, of w "[0..<8]" "[]"] by simp
  moreover have "v6_loop 8 [] None ?s = Some ([] @ groups6 w, None, [])"
    by (rule v6_loop_join [OF group_ok_v6]) simp_all
  ultimately show ?thesis unfolding s parseIPv6_def
    by (simp add: v6_expand_def number_groups del: upt_rec_numeral)
next
  case (Some r)
  obtain s l where r: "r = (s, l)" by (cases r)
  define xs ys where "xs = map (v6u16 w) [0..<s]" and "ys = map (v6u16 w) [s + l..<8]"
  have lz: "longest_zero w = Some (s, l)" using Some r by simp
  note z = longest_zero_Some [OF lz]
  have len: "length xs = s" "length ys = 8 - (s + l)" by (simp_all add: xs_def ys_def)
  have ok: "group_ok xs" "group_ok ys" unfolding xs_def ys_def by (rule group_ok_v6)+
  have g: "groups6 w = xs @ replicate l 0 @ ys" unfolding xs_def ys_def by (rule groups_split [OF lz])
  have str: "string6 w = join_colon (map show_hex xs) @ ''::'' @ join_colon (map show_hex ys)"
    unfolding string6_def by (simp only: lz join_hex Let_def option.case prod.case xs_def ys_def)
  have tail: "v6_loop n groups (Some e) (join_colon (map show_hex ys)) = Some (groups @ ys, Some e, [])"
    if "ys \<noteq> []" "length ys \<le> n" for n groups e
    using ok(2) that by (rule v6_loop_join)
  have nil: "join_colon (map show_hex ys) = [] \<longleftrightarrow> ys = []" using join_hd(1) [OF ok(2), of "[]"] by auto
  have ex: "v6_expand (xs @ ys, Some s, []) = Some (groups6 w)"
    using z len by (simp add: v6_expand_def g del: upt_rec_numeral)
  have fin: "map_option (\<lambda>gs. V6 (word_of_int (number 65536 gs))) (Some (groups6 w)) = Some (V6 w)"
    by (simp only: option.map number_groups word_of_int_uint)
  show ?thesis
  proof (cases "s = 0")
    case True
    then have x: "xs = []" using len by simp
    show ?thesis
    proof (cases "ys = []")
      case True
      then have "number 65536 (groups6 w) = number 65536 (replicate 8 0)" using g x \<open>s = 0\<close> z len by simp
      then have "uint w = 0" by (simp only: number_groups) (simp add: number_def numeral_eq_Suc)
      then have "w = 0" by (simp add: unsigned_eq_0_iff)
      then show ?thesis unfolding str parseIPv6_def x True by simp
    next
      case False
      have "v6_loop 8 [] (Some 0) (join_colon (map show_hex ys)) = Some ([] @ ys, Some 0, [])"
        by (rule tail [OF False]) (simp add: len)
      then show ?thesis using nil False ex fin x \<open>s = 0\<close> unfolding str parseIPv6_def
        by (simp del: upt_rec_numeral)
    qed
  next
    case False
    then have x: "xs \<noteq> []" using len by auto
    have "\<not> prefix ''::'' (string6 w)" unfolding str by (rule no_leading_gap [OF ok(1) x])
    moreover have "v6_loop 8 [] None (string6 w) = Some (xs @ ys, Some s, [])"
    proof -
      have "v6_loop 8 [] None (string6 w) = (if join_colon (map show_hex ys) = [] then Some ([] @ xs, Some (length ([] @ xs)), [])
        else v6_loop (8 - length xs) ([] @ xs) (Some (length ([] @ xs))) (join_colon (map show_hex ys)))"
        unfolding str using ok(1) x by (rule v6_loop_gap) (use z len in simp)
      then show ?thesis using tail [of "8 - length xs" xs s] nil len by (cases "ys = []") simp_all
    qed
    ultimately show ?thesis unfolding parseIPv6_def using ex fin by (simp del: upt_rec_numeral)
  qed
qed

lemma take_hex_run:
  assumes "\<forall>c \<in> set ds. hex_val c \<noteq> None" "off + length ds \<le> 4" "ends_hex rest"
  shows "\<exists>acc'. take_hex off acc (ds @ rest) = Some (acc', off + length ds, rest)"
  using assms
proof (induction ds arbitrary: off acc)
  case (Cons d ds)
  obtain v where v: "hex_val d = Some v" using Cons.prems(1) by auto
  obtain acc' where "take_hex (Suc off) (acc * 16 + v) (ds @ rest) = Some (acc', Suc off + length ds, rest)"
    using Cons.IH [of "Suc off" "acc * 16 + v"] Cons.prems by auto
  then show ?case using v Cons.prems(2) by simp
qed (simp add: take_hex_stop)

lemma digit_chars_hex: "c \<in> digit_chars \<Longrightarrow> hex_val c \<noteq> None"
  by (auto simp: hex_val_def digit_chars_def)

lemma take_hex_octet:
  assumes "0 \<le> n" "n < 256"
  shows "\<exists>acc'. take_hex 0 acc (show_dec n @ CHR ''.'' # rest) = Some (acc', length (show_dec n), CHR ''.'' # rest)"
proof -
  have "\<forall>c \<in> set (show_dec n). hex_val c \<noteq> None" using show_chars(1) [OF assms(1)] digit_chars_hex by blast
  moreover have "0 + length (show_dec n) \<le> 4" using assms by (simp add: show_dec_small)
  moreover have "ends_hex (CHR ''.'' # rest)" by (simp add: ends_hex_def sep_not_hex)
  ultimately show ?thesis using take_hex_run [of "show_dec n" 0 "CHR ''.'' # rest" acc] by simp
qed

lemma v6_loop_string4:
  "v6_loop (Suc k) [x] (Some 0) (string4 n) =
     Some ([x, n div 2 ^ 24 mod 256 * 256 + n div 2 ^ 16 mod 256, n div 2 ^ 8 mod 256 * 256 + n mod 256], Some 0, [])"
proof -
  let ?a = "n div 2 ^ 24 mod 256"
  let ?rest = "show_dec (n div 2 ^ 16 mod 256) @ ''.'' @ show_dec (n div 2 ^ 8 mod 256) @ ''.'' @ show_dec (n mod 256)"
  obtain acc where "take_hex 0 0 (show_dec ?a @ CHR ''.'' # ?rest) = Some (acc, length (show_dec ?a), CHR ''.'' # ?rest)"
    using take_hex_octet [of ?a 0 ?rest] by auto
  then have "take_hex 0 0 (string4 n) = Some (acc, length (show_dec ?a), CHR ''.'' # ?rest)" by (simp add: string4_def)
  then show ?thesis using v4_fields_string4 [of n] by (simp add: octets_def show_dec_not_Nil)
qed

lemma parseIPv6_mapped:
  assumes "uint w div 2 ^ 32 = 0xffff"
  shows "parseIPv6 (''::ffff:'' @ string4 (uint w mod 2 ^ 32)) = Some (V6 w)"
proof -
  define n where "n = uint w mod 2 ^ 32"
  have n: "0 \<le> n" "n < 2 ^ 32" by (simp_all add: n_def)
  let ?s = "string4 n"
  have hd4: "?s \<noteq> []" "hd ?s \<noteq> CHR '':''"
    using show_chars(1) [of "n div 2 ^ 24 mod 256"] show_dec_not_Nil [of "n div 2 ^ 24 mod 256"]
    by (auto simp: string4_def hd_append dest: hd_in_set)
  have "hex_val CHR ''f'' = Some 15" by (simp add: hex_val_def)
  then have "take_hex 0 0 (''ffff:'' @ ?s) = Some (65535, 4, CHR '':'' # ?s)" by (simp add: sep_not_hex)
  then have "v6_loop 8 [] (Some 0) (''ffff:'' @ ?s) = v6_loop 7 [65535] (Some 0) ?s"
    using hd4 by (simp add: numeral_eq_Suc)
  also have "\<dots> = Some ([65535, n div 2 ^ 24 mod 256 * 256 + n div 2 ^ 16 mod 256, n div 2 ^ 8 mod 256 * 256 + n mod 256], Some 0, [])"
    using v6_loop_string4 [of 6] by (simp add: numeral_eq_Suc)
  finally have loop: "v6_loop 8 [] (Some 0) (''ffff:'' @ ?s) = \<dots>" .
  have "number 65536 (replicate 5 0 @ [65535, n div 2 ^ 24 mod 256 * 256 + n div 2 ^ 16 mod 256, n div 2 ^ 8 mod 256 * 256 + n mod 256])
    = 65535 * 2 ^ 32 + number 256 (octets n)"
    by (simp add: number_def octets_def numeral_eq_Suc algebra_simps)
  also have "\<dots> = uint w"
    using number_octets [OF n] assms div_mult_mod_eq [of "uint w" "2 ^ 32"] by (simp add: n_def)
  finally have num: "number 65536 (replicate 5 0 @ [65535, n div 2 ^ 24 mod 256 * 256 + n div 2 ^ 16 mod 256,
    n div 2 ^ 8 mod 256 * 256 + n mod 256]) = uint w" .
  have e: "v6_expand ([65535, a, b], Some 0, []) = Some (replicate 5 0 @ [65535, a, b])" for a b
    by (simp add: v6_expand_def)
  have "(''::ffff:'' @ ?s) = ''::'' @ (''ffff:'' @ ?s)" by simp
  then show ?thesis unfolding n_def [symmetric] parseIPv6_def using loop
    by (simp add: e num [simplified])
qed

section \<open>Prefixes\<close>

lemma join_chars: "set (join_colon (map show_hex xs)) \<subseteq> insert CHR '':'' digit_chars" if "group_ok xs" for xs
  using that
proof (induction xs rule: induct_list012)
  case (2 x)
  then show ?case using show_chars(2) [of x] by auto
next
  case (3 x y xs)
  then show ?case using show_chars(2) [of x] by auto
qed simp

lemma string4_chars: "set (string4 n) \<subseteq> insert CHR ''.'' digit_chars"
proof -
  have "set (show_dec (x mod 256)) \<subseteq> insert CHR ''.'' digit_chars" for x using show_chars(1) [of "x mod 256"] by auto
  then show ?thesis unfolding string4_def by simp
qed

lemma string6_chars: "set (string6 w) \<subseteq> insert CHR '':'' digit_chars"
proof -
  have "set (join_colon (map show_hex (map (v6u16 w) is))) \<subseteq> insert CHR '':'' digit_chars" for "is"
    by (rule join_chars [OF group_ok_v6])
  then show ?thesis unfolding string6_def join_hex Let_def
    by (cases "longest_zero w") (auto simp del: upt_rec_numeral map_map)
qed

lemma find_skip: "\<forall>x \<in> set xs. \<not> P x \<Longrightarrow> find P (xs @ ys) = find P ys"
  by (induction xs) auto

lemma ParseAddr_String:
  assumes "a \<noteq> AddrInvalid"
  shows "ParseAddr (addr_String a) = Some a" "CHR ''/'' \<notin> set (addr_String a)"
proof -
  let ?sep = "\<lambda>c. c = CHR ''.'' \<or> c = CHR '':''"
  have four: "find ?sep (string4 n) = Some CHR ''.''" for n
  proof -
    have "\<forall>c \<in> set (show_dec (n div 2 ^ 24 mod 256)). \<not> ?sep c" using show_chars(1) [of "n div 2 ^ 24 mod 256"] by auto
    then show ?thesis unfolding string4_def by (simp add: find_skip)
  qed
  have six: "find ?sep (string6 w) = Some CHR '':''" if "CHR '':'' \<in> set (string6 w)" for w
  proof -
    have "find ?sep (string6 w) \<noteq> None" using that by (auto simp: find_None_iff)
    then obtain c where c: "find ?sep (string6 w) = Some c" by auto
    then have "c \<in> set (string6 w)" "?sep c" by (auto simp: find_Some_iff intro: nth_mem)
    moreover have "CHR ''.'' \<notin> set (string6 w)" using string6_chars [of w] by auto
    ultimately show ?thesis using c by auto
  qed
  have colon: "CHR '':'' \<in> set (string6 w)" for w
  proof (cases "longest_zero w")
    case None
    then show ?thesis unfolding string6_def by (simp add: upt_conv_Cons numeral_eq_Suc)
  qed (auto simp: string6_def Let_def)
  have "c \<notin> set (string4 n)" "c \<notin> set (string6 w)" if "c = CHR ''/'' \<or> c = CHR ''%''" for c n w
    using that string4_chars [of n] string6_chars [of w] by auto
  then have free: "c \<notin> set (addr_String a)" if "c = CHR ''/'' \<or> c = CHR ''%''" for c
    using that assms by (cases a) auto
  from free [of "CHR ''/''"] show "CHR ''/'' \<notin> set (addr_String a)" by simp
  from free [of "CHR ''%''"] have pct: "CHR ''%'' \<notin> set (addr_String a)" by simp
  show "ParseAddr (addr_String a) = Some a"
  proof (cases a)
    case (V4 w)
    have "number 256 (octets (uint w)) = uint w" using uint_lt2p [of w] by (intro number_octets) simp_all
    then show ?thesis using pct V4 four by (simp add: ParseAddr_def parseIPv4_def v4_fields_string4)
  next
    case (V6 w)
    show ?thesis
    proof (cases "uint w div 2 ^ 32 = 0xffff")
      case True
      then show ?thesis using pct V6 parseIPv6_mapped [OF True] by (simp add: ParseAddr_def)
    next
      case False
      then show ?thesis using pct V6 six [OF colon, of w] by (simp add: ParseAddr_def parseIPv6_string6)
    qed
  qed (use assms in simp)
qed

lemma ParseInt_bits: "0 \<le> n \<Longrightarrow> n < 256 \<Longrightarrow> ParseInt (show_dec n) = Some n"
  using ParseInt_FormatInt [of n] by (simp add: FormatInt_def)

lemma show_dec_leading: "0 \<le> n \<Longrightarrow> n < 256 \<Longrightarrow> length (show_dec n) > 1 \<Longrightarrow> hd (show_dec n) \<in> set ''123456789''"
proof -
  have d: "digit_char d \<in> set ''123456789''" if "0 < d" "d < 10" for d
  proof -
    have "d \<in> {1, 2, 3, 4, 5, 6, 7, 8, 9}" using that unfolding insert_iff empty_iff by presburger
    then show ?thesis by (elim insertE emptyE; simp add: digit_char_def)
  qed
  assume "0 \<le> n" "n < 256" "length (show_dec n) > 1"
  moreover from this have "10 \<le> n" by (auto simp: show_dec_small split: if_splits)
  moreover have "0 < n div 10" "n < 100 \<Longrightarrow> n div 10 < 10" "\<not> n < 100 \<Longrightarrow> 0 < n div 100" "n div 100 < 10"
    using \<open>10 \<le> n\<close> \<open>n < 256\<close> by presburger+
  ultimately show ?thesis using d [of "n div 10"] d [of "n div 100"] by (simp add: show_dec_small)
qed

lemma ParsePrefix_String:
  assumes "pfx_IsValid p"
  shows "ParsePrefix (pfx_String p) = Some p"
proof -
  obtain a b where p: "p = \<lparr>pAddr = a, pBits = b\<rparr>" by (cases p)
  have v: "a \<noteq> AddrInvalid" "0 \<le> b" "b \<le> BitLen a" using assms by (simp_all add: pfx_IsValid_def p)
  have b: "b < 256" using v by (cases a) auto
  let ?s = "addr_String a @ CHR ''/'' # show_dec b"
  have s: "pfx_String p = ?s" using assms by (simp add: pfx_String_def p)
  have "\<forall>c \<in> set (rev (show_dec b)). c \<noteq> CHR ''/''" using show_chars(1) [OF v(2)] by auto
  then have "takeWhile (\<lambda>c. c \<noteq> CHR ''/'') (rev ?s) = rev (show_dec b)" by (simp add: takeWhile_append)
  then have bits: "rev (takeWhile (\<lambda>c. c \<noteq> CHR ''/'') (rev ?s)) = show_dec b" by (simp del: rev_append)
  have "PrefixFrom a b = p" using v by (simp add: PrefixFrom_def p)
  then show ?thesis
    unfolding s ParsePrefix_def Let_def bits
    using v b show_dec_leading [OF v(2) b] by (simp add: ParseAddr_String ParseInt_bits)
qed

end
