(* ===== verification/Uplink.thy ===== *)
theory Uplink
  imports CpFrame NetipParse
begin

text \<open>
  The uplink of the coverers (\<open>internal/server/scvr_provider.go\<close>, the pipeline of \<open>memberedge.go\<close>, \<open>Report\<close>, \<open>Register\<close> and
  \<open>initialCovererSync\<close> of \<open>servercoverer.go\<close>). The goroutines a report starts are returned as jobs, which run at any later time.
  The JSON payload of an agent report is given decoded, \<open>None\<close> when it does not decode. The advertise gate reads the presence
  map when a render asks it, so a render is a call of the orchestrator gated by the state of that moment.
\<close>

section \<open>Members\<close>

fun parseMembers :: "string list \<Rightarrow> pfx list" where
  "parseMembers [] = []"
| "parseMembers (s # ss) = (case ParsePrefix s of Some p \<Rightarrow> p # parseMembers ss | None \<Rightarrow> parseMembers ss)"

definition memberSuppressed :: "'s srv \<Rightarrow> gtime \<Rightarrow> cp \<Rightarrow> edge_id \<Rightarrow> pfx \<Rightarrow> bool" where
  "memberSuppressed sv now cp e m = shouldWithdraw (sv_fns sv) (cp_presence cp) now e m"

text \<open>\<open>WithAdvertiseGate(cp.memberSuppressed)\<close>\<close>

definition gated :: "'s srv \<Rightarrow> gtime \<Rightarrow> cp \<Rightarrow> 's orch" where
  "gated sv now cp = (sv_orc sv)\<lparr>oc_Suppress := Some (memberSuppressed sv now cp)\<rparr>"

definition rerender :: "'s srv \<Rightarrow> gtime \<Rightarrow> edge_id \<Rightarrow> ('s, orch_error option) cpm" where
  "rerender sv now e = do { cp \<leftarrow> get_cp; orch_call now (RerenderEdge (gated sv now cp) e) }"

definition markOrRerender :: "'s srv \<Rightarrow> gtime \<Rightarrow> edge_id \<Rightarrow> ('s, unit) cpm" where
  "markOrRerender sv now e =
     (if e = [] then cret ()
      else if oc_edgever (sv_orc sv) \<noteq> None then orch_call now (MarkEdge (sv_orc sv) e)
      else do { _ \<leftarrow> rerender sv now e; cret () })"

text \<open>\<open>Inr None\<close>: not a member, or its pool has no home.\<close>

definition memberHome :: "'s orch \<Rightarrow> pfx \<Rightarrow> ('s, store_error + (edge_id \<times> pool_id) option) om" where
  "memberHome orc host =
     tryE (yb orc (\<lambda>st. MemberConflicts st [host] 0)) (\<lambda>cs.
       case find (\<lambda>c. cf_Prefix c = host) cs of
         None \<Rightarrow> ret (Inr None)
       | Some c \<Rightarrow>
           tryE (yb orc (\<lambda>st. Get st (cf_PoolID c))) (\<lambda>rec.
             ret (Inr (case rec of
                 None \<Rightarrow> None
               | Some rec \<Rightarrow> if y_Primary rec = [] then None else Some (y_Primary rec, cf_PoolID c)))))"

section \<open>Jobs\<close>

datatype uplink_job =
    MemberUp pfx
  | MemberDown pfx
  | MarkOrRerender edge_id
  | Rerender edge_id

text \<open>The two goroutines of the member transitions differ in the event only.\<close>

definition notify_home :: "'s srv \<Rightarrow> gtime \<Rightarrow> pfx \<Rightarrow> (pool_id \<Rightarrow> edge_id \<Rightarrow> cp \<Rightarrow> cp) \<Rightarrow> ('s, unit) cpm" where
  "notify_home sv now m ev = do {
     r \<leftarrow> orch_call now (memberHome (sv_orc sv) m);
     (case r of
        Inr (Some (home, i)) \<Rightarrow> do {
          cp \<leftarrow> get_cp;
          (if IsSubscribed (cp_fan cp) home then on_cp (ev i home) else cret ());
          markOrRerender sv now home
        }
      | _ \<Rightarrow> cret ())
   }"

definition run_uplink_job :: "'s srv \<Rightarrow> gtime \<Rightarrow> uplink_job \<Rightarrow> ('s, unit) cpm" where
  "run_uplink_job sv now j = (case j of
      MemberUp m \<Rightarrow> notify_home sv now m (\<lambda>i home. emitMemberUp now i home m)
    | MemberDown m \<Rightarrow> notify_home sv now m (\<lambda>i home. emitMemberDown now i home m ''route-withdrawal'')
    | MarkOrRerender e \<Rightarrow> markOrRerender sv now e
    | Rerender e \<Rightarrow> do { _ \<leftarrow> rerender sv now e; cret () })"

section \<open>Reports\<close>

datatype report_kind = DEATH_VOTE | AGENT_REPORT | MEMBER_EDGE | AGENT_REGISTER | AGENT_SUBSCRIBE | OTHER_KIND

record coverer_report =
  cr_Kind :: report_kind
  cr_EdgeId :: edge_id
  cr_CovererId :: coverer_id
  cr_Soft :: bool
  cr_Down :: bool
  cr_Payload :: "edge_report option"
  cr_Members :: "string list"

definition applyMemberPresent :: "'s srv \<Rightarrow> gtime \<Rightarrow> edge_id \<Rightarrow> coverer_id \<Rightarrow> pfx \<Rightarrow> ('s, uplink_job list) cpm" where
  "applyMemberPresent sv now e c m = do {
     cp \<leftarrow> get_cp;
     (let (wasAbsent, mp) = markPresent (sv_fns sv) (cp_presence cp) now e c m in do {
        on_cp (\<lambda>cp. cp\<lparr>cp_presence := mp\<rparr>);
        cret (if wasAbsent then [MemberUp m] else [])
      })
   }"

definition applyMemberAbsent :: "'s srv \<Rightarrow> gtime \<Rightarrow> edge_id \<Rightarrow> coverer_id \<Rightarrow> pfx \<Rightarrow> ('s, uplink_job list) cpm" where
  "applyMemberAbsent sv now e c m = do {
     cp \<leftarrow> get_cp;
     (let (nowAbsent, mp) = markAbsent (sv_fns sv) (cp_presence cp) now e c m in do {
        on_cp (\<lambda>cp. cp\<lparr>cp_presence := mp\<rparr>);
        cret (if nowAbsent then [MemberDown m] else [])
      })
   }"

fun absent_all :: "'s srv \<Rightarrow> gtime \<Rightarrow> edge_id \<Rightarrow> coverer_id \<Rightarrow> pfx list \<Rightarrow> ('s, uplink_job list) cpm" where
  "absent_all sv now e c [] = cret []"
| "absent_all sv now e c (m # ms) = do {
     js \<leftarrow> applyMemberAbsent sv now e c m;
     rest \<leftarrow> absent_all sv now e c ms;
     cret (js @ rest)
   }"

definition reporter :: "coverer_report \<Rightarrow> coverer_id" where
  "reporter r = (if cr_CovererId r = [] then ''?'' else cr_CovererId r)"

definition onMemberEdge :: "'s srv \<Rightarrow> gtime \<Rightarrow> coverer_report \<Rightarrow> ('s, uplink_job list) cpm" where
  "onMemberEdge sv now r =
     (let e = cr_EdgeId r; c = reporter r; ms = parseMembers (cr_Members r) in
      if cr_Down r then absent_all sv now e c ms
      else if ms = [] then cret []
      else if length ms \<ge> 2 then do {
        on_cp (\<lambda>cp. cp\<lparr>cp_presence := fold (\<lambda>m mp. snd (markPresent (sv_fns sv) mp now e c m)) ms (cp_presence cp)\<rparr>);
        cret [MarkOrRerender e]
      }
      else applyMemberPresent sv now e c (hd ms))"

definition rehome_mis :: "gtime \<Rightarrow> edge_id \<Rightarrow> coverer_id \<Rightarrow> cp \<Rightarrow> cp" where
  "rehome_mis now e relay cp = cp\<lparr>cp_fan := snd (rehomeMisHome (cp_fan cp) e relay now)\<rparr>"

datatype uplink_error = BadPayload

definition Report :: "'s srv \<Rightarrow> gtime \<Rightarrow> coverer_report \<Rightarrow> ('s, uplink_error option \<times> uplink_job list) cpm" where
  "Report sv now r = (case cr_Kind r of
      DEATH_VOTE \<Rightarrow> do {
        mon_call sv now (\<lambda>m. (if cr_Soft r
            then (if cr_Down r then CanaryDown m now (cr_EdgeId r) else CanaryUp m now (cr_EdgeId r))
            else Vote m now (cr_EdgeId r) (cr_CovererId r) (cr_Down r), []));
        cret (None, [])
      }
    | AGENT_REPORT \<Rightarrow>
        (case cr_Payload r of
           None \<Rightarrow> cret (Some BadPayload, [])
         | Some er \<Rightarrow> do {
             on_cp (rehome_mis now (er_EdgeID er) (cr_CovererId r));
             onReport sv now er;
             cret (None, [])
           })
    | MEMBER_EDGE \<Rightarrow> do { js \<leftarrow> onMemberEdge sv now r; cret (None, js) }
    | AGENT_REGISTER \<Rightarrow> cret (None, [])
    | AGENT_SUBSCRIBE \<Rightarrow> do {
        on_cp (rehome_mis now (cr_EdgeId r) (cr_CovererId r));
        cret (None, [Rerender (cr_EdgeId r)])
      }
    | OTHER_KIND \<Rightarrow> cret (None, []))"

text \<open>The drain of a report stream: a bad report is logged and the stream goes on. The jobs are collected.\<close>

fun report_stream :: "'s srv \<Rightarrow> (gtime \<times> coverer_report) list \<Rightarrow> ('s, uplink_job list) cpm" where
  "report_stream sv [] = cret []"
| "report_stream sv ((t, r) # rs) = do {
     (_, js) \<leftarrow> Report sv t r;
     rest \<leftarrow> report_stream sv rs;
     cret (js @ rest)
   }"

section \<open>Registration and connect\<close>

record register_request =
  rg_SchemaVersion :: int
  rg_EdgeId :: edge_id
  rg_CapacityBps :: u64

record register_response =
  rp_SchemaVersion :: int
  rp_Accepted :: bool
  rp_Coverers :: "coverer_assignment option"

text \<open>\<open>ver\<close> is the contract's schema version; \<open>covererFunc\<close> is \<open>fan.assignmentFor\<close>, as the constructor wires it.\<close>

definition seam_Register :: "'s srv \<Rightarrow> int \<Rightarrow> gtime \<Rightarrow> register_request \<Rightarrow> ('s, register_error + register_response) cpm" where
  "seam_Register sv ver now req =
     (if rg_SchemaVersion req \<noteq> 0 \<and> rg_SchemaVersion req \<noteq> ver
      then cret (Inr \<lparr>rp_SchemaVersion = ver, rp_Accepted = False, rp_Coverers = None\<rparr>)
      else do {
        err \<leftarrow> onRegister sv now (rg_EdgeId req) (rg_CapacityBps req);
        (case err of
           Some err \<Rightarrow> cret (Inl err)
         | None \<Rightarrow> do {
             cp \<leftarrow> get_cp;
             (let asg = assignmentFor (cp_fan cp) (rg_EdgeId req) in do {
                (case asg of
                   Some a \<Rightarrow> if as_Coverers a \<noteq> []
                     then on_cp (\<lambda>cp. cp\<lparr>cp_fan := notePrimary (cp_fan cp) (rg_EdgeId req) (primary_of a)\<rparr>) else cret ()
                 | None \<Rightarrow> cret ());
                cret (Inr \<lparr>rp_SchemaVersion = ver, rp_Accepted = True, rp_Coverers = asg\<rparr>)
              })
           })
      })"

text \<open>\<open>rel\<close>: whether the blocked send of the coverage is released.\<close>

definition initialCovererSync :: "'s srv \<Rightarrow> gtime \<Rightarrow> bool \<Rightarrow> coverer_id \<Rightarrow> ('s, unit) cpm" where
  "initialCovererSync sv now rel c = do {
     r \<leftarrow> orch_call now (etcd (EdgeIDs (oc_reg (sv_orc sv))));
     cp \<leftarrow> get_cp;
     (let es = (case r of Inl _ \<Rightarrow> [] | Inr es \<Rightarrow> coveredEdgesFor (cp_fan cp) c es) in do {
        on_cp (\<lambda>cp. cp\<lparr>cp_fan := emitCoverage rel (cp_fan cp) c es\<rparr>);
        for_each (\<lambda>e. do {
          mon_call sv now (\<lambda>m. Alive m now e);
          _ \<leftarrow> rerender sv now e;
          cret ()
        }) es
      })
   }"

section \<open>Members on the wire\<close>

lemma parseMembers_append: "parseMembers (xs @ ys) = parseMembers xs @ parseMembers ys"
  by (induction xs) (simp_all split: option.splits)

text \<open>
  C29: Members survive the wire. The texts a coverer prints for any valid prefixes, of both families and with any host bits, parse back to
  exactly these prefixes in their order, and an entry that does not parse is skipped without touching the others.
\<close>

theorem parseMembers_roundtrip:
  assumes "list_all pfx_IsValid ps" "list_all pfx_IsValid qs" "ParsePrefix junk = None"
  shows "parseMembers (map pfx_String ps) = ps
    \<and> parseMembers (map pfx_String ps @ junk # map pfx_String qs) = ps @ qs"
proof -
  have "parseMembers (map pfx_String ps) = ps" if "list_all pfx_IsValid ps" for ps
    using that by (induction ps) (simp_all add: ParsePrefix_String)
  then show ?thesis using assms by (simp add: parseMembers_append)
qed

definition demo_prefixes :: "pfx list" where
  "demo_prefixes = [\<lparr>pAddr = V4 167772167, pBits = 32\<rparr>, \<lparr>pAddr = V6 0x20010db8000000000000000000000001, pBits = 128\<rparr>,
     \<lparr>pAddr = V6 0xffff0a000007, pBits = 128\<rparr>]"

theorem parseMembers_roundtrip_witness:
  "parseMembers (map pfx_String demo_prefixes @ ''10.0.0.07/32'' # map pfx_String demo_prefixes) = demo_prefixes @ demo_prefixes
   \<and> map pfx_String demo_prefixes = [''10.0.0.7/32'', ''2001:db8::1/128'', ''::ffff:10.0.0.7/128'']"
proof -
  have "list_all pfx_IsValid demo_prefixes" "ParsePrefix ''10.0.0.07/32'' = None"
    "map pfx_String demo_prefixes = [''10.0.0.7/32'', ''2001:db8::1/128'', ''::ffff:10.0.0.7/128'']" by code_simp+
  then show ?thesis using parseMembers_roundtrip [of demo_prefixes demo_prefixes "''10.0.0.07/32''"] by simp
qed

section \<open>What the uplink leaves alone\<close>

context cp_view
begin

lemmas view_rules = keeps_call keeps_live_event keeps_mon_call keeps_onReport

lemma keeps_rerender: "keeps_view view (rerender sv now e)"
  unfolding rerender_def by (intro view_keeps view_rules)

lemma keeps_markOrRerender: "keeps_view view (markOrRerender sv now e)"
  unfolding markOrRerender_def by (auto intro!: view_keeps view_rules keeps_rerender)

lemma keeps_notify_home:
  "(\<And>i e cp. view (ev i e cp) = view cp) \<Longrightarrow> keeps_view view (notify_home sv now m ev)"
  unfolding notify_home_def
  by (auto intro!: view_keeps view_rules keeps_markOrRerender split: sum.split option.split)

lemma keeps_run_uplink_job: "keeps_view view (run_uplink_job sv now j)"
  unfolding run_uplink_job_def
  by (cases j) (auto intro!: view_keeps keeps_notify_home keeps_markOrRerender keeps_rerender
      simp: emitMemberUp_def emitMemberDown_def)

end

context cp_frame
begin

lemma keeps_seam_Register: "keeps_view view (seam_Register sv ver now req)"
  unfolding seam_Register_def onRegister_def emitEdgeRegistered_def emitEdgeCapacityChanged_def
  by (auto intro!: view_keeps view_rules simp: Let_def split: option.split sum.split)

lemma keeps_initialCovererSync: "keeps_view view (initialCovererSync sv now rel c)"
  unfolding initialCovererSync_def by (auto intro!: view_keeps view_rules keeps_rerender simp: Let_def)

end

context cp_outside
begin

lemma keeps_absent_all: "keeps_view view (absent_all sv now e c ms)"
  by (induction ms) (auto intro!: view_keeps simp: applyMemberAbsent_def split_beta)

lemma keeps_onMemberEdge: "keeps_view view (onMemberEdge sv now r)"
  unfolding onMemberEdge_def applyMemberPresent_def
  by (auto intro!: view_keeps keeps_absent_all simp: Let_def split_beta)

lemma keeps_Report: "keeps_view view (Report sv now r)"
  unfolding Report_def
  by (cases "cr_Kind r") (auto intro!: view_keeps view_rules keeps_onMemberEdge simp: rehome_mis_def split: option.split)

end

section \<open>What a report says about presence\<close>

definition words :: "gtime \<Rightarrow> coverer_report \<Rightarrow> presence_op list" where
  "words t r = (if cr_Kind r = MEMBER_EDGE
     then map (\<lambda>m. if cr_Down r then Retract t (cr_EdgeId r) (reporter r) m else Assert t (cr_EdgeId r) (reporter r) m)
            (parseMembers (cr_Members r))
     else [])"

lemma run_presence_append: "run_presence fn (xs @ ys) mp = run_presence fn ys (run_presence fn xs mp)"
  by (simp add: run_presence_def)

lemma run_presence_Assert: "run_presence fn (map (Assert t e c) ms) mp = fold (\<lambda>m mp. snd (markPresent fn mp t e c m)) ms mp"
  by (induction ms arbitrary: mp) (simp_all add: run_presence_def)

lemma absent_all_presence:
  "cp_presence (fst (snd (run_state (absent_all sv t e c ms) (cp, w)))) = run_presence (sv_fns sv) (map (Retract t e c) ms) (cp_presence cp)"
  by (induction ms arbitrary: cp w) (simp_all add: run_presence_def applyMemberAbsent_def split_beta)

lemma onMemberEdge_presence:
  assumes "cr_Kind r = MEMBER_EDGE"
  shows "cp_presence (fst (snd (run_state (onMemberEdge sv t r) (cp, w)))) = run_presence (sv_fns sv) (words t r) (cp_presence cp)"
proof (cases "cr_Down r")
  case True
  then show ?thesis using assms by (simp add: onMemberEdge_def words_def absent_all_presence Let_def)
next
  case False
  let ?ms = "parseMembers (cr_Members r)"
  consider "?ms = []" | m where "?ms = [m]" | "length ?ms \<ge> 2" by (cases ?ms rule: remdups_adj.cases) auto
  then show ?thesis
  proof cases
    case 2
    then show ?thesis using assms False
      by (simp add: onMemberEdge_def words_def applyMemberPresent_def run_presence_def split_beta Let_def)
  next
    case 3
    then have "?ms \<noteq> []" by auto
    then show ?thesis using assms False 3
      by (simp add: onMemberEdge_def words_def Let_def run_presence_Assert)
  qed (use assms False in \<open>simp add: onMemberEdge_def words_def run_presence_def Let_def\<close>)
qed

lemma Report_other_keeps:
  assumes "cr_Kind r \<noteq> MEMBER_EDGE"
  shows "keeps_view cp_presence (Report sv t r)"
  using assms unfolding Report_def
  by (cases "cr_Kind r") (auto intro!: view_keeps presence.view_rules simp: rehome_mis_def split: option.split)

lemma Report_presence:
  "cp_presence (fst (snd (run_state (Report sv t r) (cp, w)))) = run_presence (sv_fns sv) (words t r) (cp_presence cp)"
proof (cases "cr_Kind r = MEMBER_EDGE")
  case True
  then show ?thesis using onMemberEdge_presence [OF True, of sv t cp w] by (simp add: Report_def split_beta)
next
  case False
  then show ?thesis using Report_other_keeps [OF False, of sv t] by (simp add: keeps_view_def words_def run_presence_def)
qed

section \<open>A coverer reconnects\<close>

text \<open>An edge judged dead by its votes, and a connected coverer that covers it.\<close>

definition demo_dead :: cp where
  "demo_dead = (let cp = demo_cp\<lparr>cp_fan := snd (connectCoverer (cp_fan demo_cp) ''c'' ''c:1'')\<rparr> in
     cp\<lparr>cp_Liveness := fst (Tick (HardDown (cp_Liveness cp) 100 ''e1'') 200 [''e1''] [''e1''])\<rparr>)"


definition demo_quiet_world :: "cluster world" where
  "demo_quiet_world = demo_world\<lparr>w_yb := \<lparr>tabs = \<lparr>pools = [], members = []\<rparr>, snap = \<lparr>pools = [], members = []\<rparr>, faults = []\<rparr>,
     w_etcd := \<lparr>cl_log = take 1 demo_agents, cl_peers = [], cl_faults = []\<rparr>\<rparr>"

text \<open>
  The initial sync of a coverer calls \<open>Alive\<close> on every edge it covers, so a reconnect of the coverer revives an edge that was judged dead, without a
  word from the edge.
\<close>

lemma reconnect_revives_dead_edge:
  "IsDead (cp_Liveness demo_dead) 201 ''e1''
   \<and> (case run_state (initialCovererSync demo_srv 201 True ''c'') (demo_dead, demo_quiet_world) of
        (_, cp, _) \<Rightarrow> (IsDead (cp_Liveness cp) 201 ''e1'', map (\<lambda>ev. (ev_Op ev, ev_Edge ev)) (produced cp)))
     = (False, [(''edge-up'', ''e1'')])"
proof
  show "IsDead (cp_Liveness demo_dead) 201 ''e1''" by code_simp
qed code_simp

end
