(* ===== verification/Anchors.thy ===== *)
theory Anchors
  imports Uplink
begin

text \<open>
  The anchor audit (\<open>internal/server/anchoraudit.go\<close>): the sweep of lapsed presence leases and the comparison of what each
  edge is meant to anchor with what the coverers report there. Then the composition of reports, sweeps, audit and rendering: what an
  edge announces, and what the audit alarms about, are both determined by the history of the reports.
\<close>

section \<open>The lease sweep\<close>

fun reap_loop :: "'s srv \<Rightarrow> gtime \<Rightarrow> edge_id list \<Rightarrow> (edge_id \<times> pfx) list \<Rightarrow> ('s, unit) cpm" where
  "reap_loop sv now rerendered [] = cret ()"
| "reap_loop sv now rerendered ((_, m) # ls) = do {
     r \<leftarrow> orch_call now (memberHome (sv_orc sv) m);
     (case r of
        Inr (Some (home, i)) \<Rightarrow> do {
          cp \<leftarrow> get_cp;
          (if IsSubscribed (cp_fan cp) home then on_cp (emitMemberDown now i home m ''route-withdrawal'') else cret ());
          (if home \<in> set rerendered then reap_loop sv now rerendered ls
           else do { markOrRerender sv now home; reap_loop sv now (home # rerendered) ls })
        }
      | _ \<Rightarrow> reap_loop sv now rerendered ls)
   }"

definition reapMemberLeases :: "'s srv \<Rightarrow> gtime \<Rightarrow> ('s, unit) cpm" where
  "reapMemberLeases sv now = do {
     cp \<leftarrow> get_cp;
     (let (losses, mp) = sweepExpired (sv_fns sv) (cp_presence cp) now in do {
        on_cp (\<lambda>cp. cp\<lparr>cp_presence := mp\<rparr>);
        reap_loop sv now [] losses
      })
   }"

section \<open>The audit\<close>

record anchor_mismatch =
  am_Edge :: edge_id
  am_Unprovisioned :: "pfx list"
  am_Rogue :: "pfx list"

datatype audit_error = AuRegistry reg_error | AuStore store_error | AuLedger ledger_error

definition pfx_less :: "pfx \<Rightarrow> pfx \<Rightarrow> bool" where
  "pfx_less p q = (if pAddr p \<noteq> pAddr q then pAddr p < pAddr q else pBits p < pBits q)"

definition sortPrefixes :: "pfx list \<Rightarrow> pfx list" where
  "sortPrefixes ps = sort_by pfx_less ps"

text \<open>Go's sets of prefixes are lists without repetition here; the audit sorts whatever it takes from them.\<close>

definition prefixSet :: "pfx list \<Rightarrow> pfx list" where
  "prefixSet ps = remdups ps"

definition intentHosts :: "'s srv \<Rightarrow> edge_id \<Rightarrow> ('s, store_error + pfx list) om" where
  "intentHosts sv e = tryE (poolsForHome (sv_orc sv) e) (\<lambda>ps.
     ret (Inr (prefixSet (filter (mf_IsHost (sv_fns sv)) (concat (map (\<lambda>p. map m_Prefix (p_Members p)) ps))))))"

definition family_gap :: "'s srv \<Rightarrow> gtime \<Rightarrow> cp \<Rightarrow> edge_id \<Rightarrow> pfx list \<Rightarrow> family \<Rightarrow> pfx list \<times> pfx list" where
  "family_gap sv now cp e intent fam =
     (case hostsByFamily (sv_fns sv) (cp_presence cp) now e fam of
        None \<Rightarrow> ([], [])
      | Some phys \<Rightarrow>
          let physical = prefixSet phys
          in (filter (\<lambda>p. mf_FamilyOf (sv_fns sv) p = fam \<and> p \<notin> set physical) intent,
              filter (\<lambda>p. p \<notin> set intent) physical))"

definition anchor_gap :: "'s srv \<Rightarrow> gtime \<Rightarrow> cp \<Rightarrow> edge_id \<Rightarrow> pfx list \<Rightarrow> anchor_mismatch" where
  "anchor_gap sv now cp e intent =
     (let (u4, r4) = family_gap sv now cp e intent FamilyIPv4; (u6, r6) = family_gap sv now cp e intent FamilyIPv6
      in \<lparr>am_Edge = e, am_Unprovisioned = sortPrefixes (u4 @ u6), am_Rogue = sortPrefixes (r4 @ r6)\<rparr>)"

definition anchor_edge :: "'s srv \<Rightarrow> gtime \<Rightarrow> edge_id \<Rightarrow> ('s, store_error + anchor_mismatch option) cpm" where
  "anchor_edge sv now e = do {
     cp \<leftarrow> get_cp;
     if IsDead (cp_Liveness cp) now e then cret (Inr None)
     else do {
       r \<leftarrow> orch_call now (intentHosts sv e);
       (case r of
          Inl err \<Rightarrow> cret (Inl err)
        | Inr intent \<Rightarrow>
            let m = anchor_gap sv now cp e intent in
            if am_Unprovisioned m = [] \<and> am_Rogue m = [] then cret (Inr None)
            else do {
              on_cp (emitAnchorMismatch now e (am_Unprovisioned m) (am_Rogue m));
              cret (Inr (Some m))
            })
     }
   }"

fun anchor_edges :: "'s srv \<Rightarrow> gtime \<Rightarrow> edge_id list \<Rightarrow> anchor_mismatch list \<Rightarrow> ('s, audit_error + anchor_mismatch list) cpm" where
  "anchor_edges sv now [] out = cret (Inr out)"
| "anchor_edges sv now (e # es) out = do {
     r \<leftarrow> anchor_edge sv now e;
     (case r of
        Inl err \<Rightarrow> cret (Inl (AuStore err))
      | Inr None \<Rightarrow> anchor_edges sv now es out
      | Inr (Some m) \<Rightarrow> anchor_edges sv now es (out @ [m]))
   }"

definition ReconcileAnchors :: "'s srv \<Rightarrow> gtime \<Rightarrow> ('s, audit_error + anchor_mismatch list) cpm" where
  "ReconcileAnchors sv now = do {
     reapMemberLeases sv now;
     r \<leftarrow> orch_call now (etcd (reg_List (oc_reg (sv_orc sv))));
     (case r of
        Inl err \<Rightarrow> cret (Inl (AuRegistry err))
      | Inr agents \<Rightarrow> anchor_edges sv now (map ag_EdgeID agents) [])
   }"

section \<open>Presence under every activity\<close>

datatype uplink_act =
    Received coverer_report
  | Ran uplink_job
  | Registered register_request
  | Connected coverer_id bool
  | Audited

fun uplink_acts :: "'s srv \<Rightarrow> int \<Rightarrow> (gtime \<times> uplink_act) list \<Rightarrow> ('s, unit) cpm" where
  "uplink_acts sv ver [] = cret ()"
| "uplink_acts sv ver ((t, a) # as) = do {
     (case a of
        Received r \<Rightarrow> do { _ \<leftarrow> Report sv t r; cret () }
      | Ran j \<Rightarrow> run_uplink_job sv t j
      | Registered req \<Rightarrow> do { _ \<leftarrow> seam_Register sv ver t req; cret () }
      | Connected c rel \<Rightarrow> initialCovererSync sv t rel c
      | Audited \<Rightarrow> do { _ \<leftarrow> ReconcileAnchors sv t; cret () });
     uplink_acts sv ver as
   }"

text \<open>What the activities amount to for the presence map.\<close>

definition act_words :: "gtime \<times> uplink_act \<Rightarrow> presence_op list" where
  "act_words ta = (case ta of (t, Received r) \<Rightarrow> words t r | (t, Audited) \<Rightarrow> [Sweep t] | _ \<Rightarrow> [])"

abbreviation history :: "(gtime \<times> uplink_act) list \<Rightarrow> presence_op list" where
  "history as \<equiv> concat (map act_words as)"

context cp_view
begin

lemma keeps_reap_loop: "keeps_view view (reap_loop sv now homes ls)"
proof (induction ls arbitrary: homes)
  case (Cons l ls)
  then show ?case
    by (cases l) (auto intro!: view_keeps view_rules keeps_markOrRerender simp: emitMemberDown_def
        split: sum.split option.split)
qed (auto intro!: view_keeps)

lemma keeps_anchor_edge: "keeps_view view (anchor_edge sv now e)"
  unfolding anchor_edge_def emitAnchorMismatch_def
  by (auto intro!: view_keeps view_rules simp: Let_def fold_same split: sum.split)

lemma keeps_anchor_edges: "keeps_view view (anchor_edges sv now es out)"
  by (induction es arbitrary: out)
     (auto intro!: view_keeps keeps_anchor_edge split: sum.split option.split)

end

context cp_outside
begin

lemma keeps_ReconcileAnchors: "keeps_view view (ReconcileAnchors sv now)"
  unfolding ReconcileAnchors_def reapMemberLeases_def
  by (auto intro!: view_keeps view_rules keeps_reap_loop keeps_anchor_edges simp: split_beta split: sum.split)

lemma keeps_uplink_acts: "keeps_view view (uplink_acts sv ver as)"
proof (induction as)
  case (Cons ta as)
  obtain t a where ta: "ta = (t, a)" by (cases ta)
  have "keeps_view view (case a of
      Received r \<Rightarrow> Report sv t r \<bind> (\<lambda>_. cret ())
    | Ran j \<Rightarrow> run_uplink_job sv t j
    | Registered req \<Rightarrow> seam_Register sv ver t req \<bind> (\<lambda>_. cret ())
    | Connected c rel \<Rightarrow> initialCovererSync sv t rel c
    | Audited \<Rightarrow> ReconcileAnchors sv t \<bind> (\<lambda>_. cret ()))"
    by (cases a) (auto intro!: view_keeps keeps_Report keeps_run_uplink_job keeps_seam_Register keeps_initialCovererSync
        keeps_ReconcileAnchors)
  then show ?case using Cons unfolding ta by (auto intro!: view_keeps)
qed (auto intro!: view_keeps)

end

lemma reapMemberLeases_presence:
  "cp_presence (fst (snd (run_state (reapMemberLeases sv t) (cp, w)))) = snd (sweepExpired (sv_fns sv) (cp_presence cp) t)"
proof -
  let ?mp = "snd (sweepExpired (sv_fns sv) (cp_presence cp) t)" and ?ls = "fst (sweepExpired (sv_fns sv) (cp_presence cp) t)"
  have "cp_presence (fst (snd (run_state (reap_loop sv t [] ?ls) (cp\<lparr>cp_presence := ?mp\<rparr>, w)))) = ?mp"
    using presence.keeps_reap_loop [of sv t "[]" ?ls] unfolding keeps_view_def by simp
  then show ?thesis by (simp add: reapMemberLeases_def split_beta)
qed

lemma ReconcileAnchors_presence:
  "cp_presence (fst (snd (run_state (ReconcileAnchors sv t) (cp, w)))) = snd (sweepExpired (sv_fns sv) (cp_presence cp) t)"
proof -
  obtain u cp1 w1 where r: "run_state (reapMemberLeases sv t) (cp, w) = (u, (cp1, w1))" by (rule prod_cases3)
  have "cp_presence cp1 = snd (sweepExpired (sv_fns sv) (cp_presence cp) t)"
    using reapMemberLeases_presence [of sv t cp w] r by simp
  moreover have "cp_presence (fst (snd (run_state (ReconcileAnchors sv t) (cp, w)))) = cp_presence cp1"
    unfolding ReconcileAnchors_def
    by (rule keeps_view_after [OF r])
       (auto intro!: view_keeps presence.view_rules presence.keeps_anchor_edges split: sum.split)
  ultimately show ?thesis by simp
qed

lemma act_presence:
  "cp_presence (fst (snd (run_state (uplink_acts sv ver [ta]) (cp, w)))) = run_presence (sv_fns sv) (act_words ta) (cp_presence cp)"
proof -
  obtain t a where ta: "ta = (t, a)" by (cases ta)
  show ?thesis
  proof (cases a)
    case (Received r)
    then show ?thesis using Report_presence [of sv t r cp w] by (simp add: ta act_words_def split_beta)
  next
    case Audited
    then show ?thesis using ReconcileAnchors_presence [of sv t cp w] by (simp add: ta act_words_def run_presence_def split_beta)
  qed (use presence.keeps_run_uplink_job [of sv t] presence.keeps_seam_Register [of sv ver t] presence.keeps_initialCovererSync [of sv t] in
    \<open>auto simp: ta act_words_def run_presence_def split_beta keeps_view_def\<close>)
qed

lemma uplink_acts_Cons:
  "run_state (uplink_acts sv ver (ta # as)) s = run_state (uplink_acts sv ver as) (snd (run_state (uplink_acts sv ver [ta]) s))"
  by (cases ta) (simp add: split_beta)

lemma acts_presence:
  "cp_presence (fst (snd (run_state (uplink_acts sv ver as) (cp, w)))) = run_presence (sv_fns sv) (history as) (cp_presence cp)"
proof (induction as arbitrary: cp w)
  case (Cons ta as)
  obtain u cp1 w1 where r: "run_state (uplink_acts sv ver [ta]) (cp, w) = (u, (cp1, w1))" by (rule prod_cases3)
  then have "cp_presence cp1 = run_presence (sv_fns sv) (act_words ta) (cp_presence cp)" using act_presence [of sv ver ta cp w] by simp
  then show ?case using Cons.IH [of cp1 w1] uplink_acts_Cons [of sv ver ta as "(cp, w)"] r by (simp add: run_presence_append)
qed (simp add: run_presence_def)

section \<open>What is announced\<close>

definition withdrawn :: "member_fns \<Rightarrow> duration \<Rightarrow> presence_op list \<Rightarrow> gtime \<Rightarrow> edge_id \<Rightarrow> pfx \<Rightarrow> bool" where
  "withdrawn fn ttl h now e m \<longleftrightarrow> mf_IsHost fn m \<and> seen fn ttl h now e (mf_FamilyOf fn m) \<and> \<not> asserted ttl h now e m"

lemma ForEdge_anchors:
  assumes "ForEdge cx opt e primary backup = Inr st"
  shows "map an_Prefix (d_Anchors st) = concat (map (\<lambda>p. map m_Prefix (shown opt e p)) (sort_pools primary))"
proof -
  have "map an_Prefix (d_Anchors st) = concat (map (\<lambda>(p, sb). if sb then [] else map m_Prefix (shown opt e p)) (roles primary backup))"
    by (rule ForEdge_field [OF assms, where G = pd_Anchors])
       (auto simp: assemble_def pool_anchors_def rl_anchor_def map_concat dest!: ForPool_shape)
  then show ?thesis by (simp add: concat_roles concat_map_empty)
qed

lemma shown_members:
  "set (map m_Prefix (shown opt e p)) = {m_Prefix m | m. m \<in> set (p_Members p) \<and> \<not> suppressed opt e m}"
  by (auto simp: shown_def advertised_def sort_members_def)

text \<open>The only push of a render: the state rendered from the pools it read first.\<close>

lemma renderAndPush_pushed:
  assumes "EvPushDesired e' st ok \<in> set (drop (length (w_trace w)) (w_trace (snd (run_state (renderAndPush orc e) w))))"
  shows "e' = e \<and> (\<exists>primary backup gen st0. fst (run_state (yb orc (\<lambda>s. PoolsForHome s e)) w) = Inr primary
    \<and> ForEdge (oc_cx orc) (options_of orc gen) e primary backup = Inr st0 \<and> d_Anchors st = d_Anchors st0)"
  using assms
  unfolding renderAndPush_def renderAndPushGen_def renderOptions_def nextGenForEdge_def desired_version_def push_desired_def
    set_lastGen_def
  by (auto simp: split_beta Let_def yb_def etcd_def ret_def edge_desired_state.defs pushed_state.defs
      split: sum.splits option.splits)

lemma acts_track:
  assumes "0 < ttl" "cp_presence cp = newMemberPresence ttl" "history_ok (history as) now"
    and "run_state (uplink_acts sv ver as) (cp, w) = (u, (cp1, w1))"
  shows "tracks (sv_fns sv) ttl (history as) now (cp_presence cp1)"
    and "memberSuppressed sv now cp1 e m \<longleftrightarrow> withdrawn (sv_fns sv) ttl (history as) now e m"
proof -
  have "cp_presence cp1 = run_presence (sv_fns sv) (history as) (newMemberPresence ttl)"
    using acts_presence [of sv ver as cp w] assms(2,4) by simp
  then show tr: "tracks (sv_fns sv) ttl (history as) now (cp_presence cp1)" using run_tracks [OF assms(1,3)] by simp
  show "memberSuppressed sv now cp1 e m \<longleftrightarrow> withdrawn (sv_fns sv) ttl (history as) now e m"
    using shouldWithdraw_tracks [OF tr assms(3)] by (simp add: memberSuppressed_def withdrawn_def)
qed

text \<open>
  C9: Announcements follow the reports. After any reports, jobs, registrations, coverer connects and audits, whatever the stores and
  the transport did, a state pushed by a render of an edge announces exactly the members of the pools read as homed there, except
  the hosts withdrawn by the history: some coverer asserted the family on the edge within the lease, and no coverer's last word
  within the lease asserts the host.
\<close>

theorem announcements_follow_reports:
  assumes "0 < ttl" "cp_presence cp = newMemberPresence ttl" "history_ok (history as) now"
    and "run_state (uplink_acts sv ver as) (cp, w) = (u, (cp1, w1))"
    and "run_state (rerender sv now e) (cp1, w1) = (err, (cp2, w2))"
    and "EvPushDesired e' st ok \<in> set (drop (length (w_trace w1)) (w_trace w2))"
  shows "e' = e \<and> (\<exists>ps. fst (run_state (poolsForHome (sv_orc sv) e) w1) = Inr ps
    \<and> set (map an_Prefix (d_Anchors st)) = {m_Prefix m | m p. p \<in> set ps \<and> m \<in> set (p_Members p)
        \<and> \<not> withdrawn (sv_fns sv) ttl (history as) now e (m_Prefix m)})"
proof -
  let ?orc = "gated sv now cp1"
  have "w2 = snd (run_state (renderAndPush ?orc e) w1)" using assms(5) by (simp add: rerender_def RerenderEdge_def run_orch_call)
  with assms(6) obtain ps backup gen st0 where e: "e' = e"
    and ps: "fst (run_state (yb ?orc (\<lambda>s. PoolsForHome s e)) w1) = Inr ps"
    and st0: "ForEdge (oc_cx ?orc) (options_of ?orc gen) e ps backup = Inr st0" and st: "d_Anchors st = d_Anchors st0"
    using renderAndPush_pushed [of e' st ok w1 ?orc e] by blast
  have gate: "suppressed (options_of ?orc gen) e m \<longleftrightarrow> withdrawn (sv_fns sv) ttl (history as) now e (m_Prefix m)" for m
    using acts_track(2) [OF assms(1-4)] by (simp add: suppressed_def options_of_def gated_def)
  have "set (map an_Prefix (d_Anchors st)) = (\<Union>p \<in> set ps. set (map m_Prefix (shown (options_of ?orc gen) e p)))"
    unfolding st ForEdge_anchors [OF st0] by (simp add: sort_pools_def)
  also have "\<dots> = {m_Prefix m | m p. p \<in> set ps \<and> m \<in> set (p_Members p)
      \<and> \<not> withdrawn (sv_fns sv) ttl (history as) now e (m_Prefix m)}"
    unfolding shown_members gate by blast
  finally have "set (map an_Prefix (d_Anchors st)) = \<dots>" .
  moreover have "fst (run_state (poolsForHome (sv_orc sv) e) w1) = Inr ps"
    using ps by (simp add: poolsForHome_def yb_def gated_def split_beta)
  ultimately show ?thesis using e by blast
qed

section \<open>What the audit reports\<close>

interpretation prefix_order: strict_weak pfx_less
  by unfold_locales (auto simp: pfx_less_def split: if_splits)

lemma sortPrefixes_strict:
  assumes "distinct ps"
  shows "sorted_wrt pfx_less (sortPrefixes ps)"
proof -
  have "sorted_wrt (\<lambda>a b. \<not> pfx_less b a) (sortPrefixes ps)" unfolding sortPrefixes_def by (rule prefix_order.sorted_sort_by)
  moreover have "distinct (sortPrefixes ps)" unfolding sortPrefixes_def using assms by simp
  moreover have "p = q" if "\<not> pfx_less p q" "\<not> pfx_less q p" for p q
    using that by (cases p; cases q) (auto simp: pfx_less_def split: if_splits)
  ultimately show ?thesis
    by (auto simp: sorted_wrt_iff_nth_less distinct_conv_nth) (metis less_trans nat_neq_iff)
qed

lemma asserted_seen: "asserted ttl h now e m \<Longrightarrow> seen fn ttl h now e (mf_FamilyOf fn m)"
proof -
  assume "asserted ttl h now e m"
  then obtain c t where l: "find (about e c m) (rev h) = Some (Assert t e c m)" and n: "now < t + ttl"
    by (auto simp: asserted_def last_word_def)
  then have "\<exists>i < length (rev h). rev h ! i = Assert t e c m" by (auto simp: find_Some_iff)
  then have "Assert t e c m \<in> set h" by (metis nth_mem set_rev)
  then show ?thesis using n by (auto simp: seen_def)
qed

lemma family_gap_sets:
  assumes tr: "tracks (sv_fns sv) ttl h now (cp_presence cp)" "history_ok h now"
    and i: "distinct intent" "\<forall>p \<in> set intent. mf_IsHost (sv_fns sv) p"
    and g: "family_gap sv now cp e intent fam = (us, rs)"
  shows "set us = {p \<in> set intent. mf_FamilyOf (sv_fns sv) p = fam \<and> withdrawn (sv_fns sv) ttl h now e p}"
    and "set rs = {p. mf_FamilyOf (sv_fns sv) p = fam \<and> asserted ttl h now e p \<and> p \<notin> set intent}"
    and "distinct us" "distinct rs"
proof -
  let ?fn = "sv_fns sv" and ?mp = "cp_presence cp"
  have ok: "presence_ok ?mp" using tr(1) by (simp add: tracks_def)
  have keys: "map_ok (get_map (mp_present ?mp) e)" using presence_ok_members [OF ok, of e] by (simp add: leases_ok_def)
  note view = tracks_view [OF tr] and present = tracks_present [OF tr(1)]
  have phys: "set (map fst (filter (\<lambda>(m, covs). mf_FamilyOf ?fn m = fam \<and> anyLive covs now) (get_map (mp_present ?mp) e)))
    = {p. mf_FamilyOf ?fn p = fam \<and> asserted ttl h now e p}"
  proof -
    have "(\<exists>covs. (p, covs) \<in> set (get_map (mp_present ?mp) e) \<and> anyLive covs now) \<longleftrightarrow> asserted ttl h now e p" for p
      unfolding present [symmetric] map_of_eq_Some_iff [OF keys, symmetric]
      by (simp add: get_map_def [of "get_map (mp_present ?mp) e"] split: option.split)
    then show ?thesis by force
  qed
  show "set us = {p \<in> set intent. mf_FamilyOf ?fn p = fam \<and> withdrawn ?fn ttl h now e p}"
    "set rs = {p. mf_FamilyOf ?fn p = fam \<and> asserted ttl h now e p \<and> p \<notin> set intent}" "distinct us" "distinct rs"
    using g i phys view [of e fam] asserted_seen [of ttl h now e _ ?fn]
    by (auto simp: family_gap_def hostsByFamily_def Let_def prefixSet_def withdrawn_def split: if_splits)
qed

lemma anchor_gap_sets:
  fixes e :: edge_id
  assumes tr: "tracks (sv_fns sv) ttl h now (cp_presence cp)" "history_ok h now"
    and i: "distinct intent" "\<forall>p \<in> set intent. mf_IsHost (sv_fns sv) p"
  defines "m \<equiv> anchor_gap sv now cp e intent"
  shows "set (am_Unprovisioned m) = {p \<in> set intent. withdrawn (sv_fns sv) ttl h now e p}"
    and "set (am_Rogue m) = {p. asserted ttl h now e p} - set intent"
    and "sorted_wrt pfx_less (am_Unprovisioned m)" "sorted_wrt pfx_less (am_Rogue m)"
proof -
  let ?fam = "mf_FamilyOf (sv_fns sv)"
  obtain u4 r4 u6 r6 where g4: "family_gap sv now cp e intent FamilyIPv4 = (u4, r4)"
    and g6: "family_gap sv now cp e intent FamilyIPv6 = (u6, r6)" by (meson surj_pair)
  note s4 = family_gap_sets [OF tr i g4] and s6 = family_gap_sets [OF tr i g6]
  have m: "m = \<lparr>am_Edge = e, am_Unprovisioned = sortPrefixes (u4 @ u6), am_Rogue = sortPrefixes (r4 @ r6)\<rparr>"
    by (simp add: m_def anchor_gap_def g4 g6)
  have fam: "?fam p = FamilyIPv4 \<or> ?fam p = FamilyIPv6" for p by (cases "?fam p") simp_all
  show "set (am_Unprovisioned m) = {p \<in> set intent. withdrawn (sv_fns sv) ttl h now e p}"
    using s4(1) s6(1) fam by (auto simp: m sortPrefixes_def)
  show "set (am_Rogue m) = {p. asserted ttl h now e p} - set intent"
    using s4(2) s6(2) fam by (auto simp: m sortPrefixes_def)
  have "distinct (u4 @ u6)" "distinct (r4 @ r6)" using s4 s6 by auto
  then show "sorted_wrt pfx_less (am_Unprovisioned m)" "sorted_wrt pfx_less (am_Rogue m)"
    by (simp_all add: m sortPrefixes_strict)
qed


section \<open>A run\<close>

text \<open>A snapshot with the member of the stored pool and a stranger, then the withdrawal of the member.\<close>

definition demo_member :: "bool \<Rightarrow> pfx list \<Rightarrow> coverer_report" where
  "demo_member down ms = \<lparr>cr_Kind = MEMBER_EDGE, cr_EdgeId = ''e1'', cr_CovererId = ''a'', cr_Soft = False, cr_Down = down,
     cr_Payload = None, cr_Members = map pfx_String ms\<rparr>"

definition demo_acts :: "(gtime \<times> uplink_act) list" where
  "demo_acts = [(1, Received (demo_member False [Presence.demo_host 5, Presence.demo_host 9])),
     (2, Received (demo_member True [Presence.demo_host 5]))]"

definition demo_ttl :: duration where
  "demo_ttl = defaultMemberPresenceTTL"

lemma demo_start: "0 < demo_ttl" "cp_presence demo_cp = newMemberPresence demo_ttl" "history_ok (history demo_acts) 3"
proof -
  show "0 < demo_ttl" "cp_presence demo_cp = newMemberPresence demo_ttl"
    by (simp_all add: demo_ttl_def demo_cp_def newMemberPresence_def defaultMemberPresenceTTL_def)
  have "sorted (map op_time (history demo_acts)) \<and> list_all (\<lambda>x. op_time x \<le> 3) (history demo_acts)" by code_simp
  then show "history_ok (history demo_acts) 3" by (auto simp: history_ok_def list_all_iff)
qed

abbreviation demo_after :: "unit \<times> cp \<times> cluster world" where
  "demo_after \<equiv> run_state (uplink_acts demo_srv 1 demo_acts) (demo_cp, demo_world)"

lemma demo_withheld: "memberSuppressed demo_srv 3 (fst (snd demo_after)) ''e1'' (Presence.demo_host 5)"
  by code_simp

theorem announcements_follow_reports_witness:
  "\<exists>st. EvPushDesired ''e1'' st True \<in> set (drop (length (w_trace (snd (snd demo_after))))
       (w_trace (snd (snd (run_state (rerender demo_srv 3 ''e1'') (snd demo_after))))))
     \<and> Presence.demo_host 5 \<notin> set (map an_Prefix (d_Anchors st))"
proof -
  obtain u cp1 w1 where r: "demo_after = (u, (cp1, w1))" by (rule prod_cases3)
  obtain err cp2 w2 where r2: "run_state (rerender demo_srv 3 ''e1'') (cp1, w1) = (err, (cp2, w2))" by (rule prod_cases3)
  let ?new = "\<lambda>w1 w2. map (\<lambda>ev. case ev of EvPushDesired e st ok \<Rightarrow> Some (e, ok) | _ \<Rightarrow> None) (drop (length (w_trace w1)) (w_trace w2))"
  have "?new (snd (snd demo_after)) (snd (snd (run_state (rerender demo_srv 3 ''e1'') (snd demo_after)))) = [Some (''e1'', True)]"
    by code_simp
  then have "?new w1 w2 = [Some (''e1'', True)]" unfolding r r2 snd_conv .
  then obtain ev where ev: "ev \<in> set (drop (length (w_trace w1)) (w_trace w2))"
    "(case ev of EvPushDesired e st ok \<Rightarrow> Some (e, ok) | _ \<Rightarrow> None) = Some (''e1'', True)" by auto
  then obtain st where st: "EvPushDesired ''e1'' st True \<in> set (drop (length (w_trace w1)) (w_trace w2))"
    by (auto split: event.splits)
  have wd: "withdrawn (sv_fns demo_srv) demo_ttl (history demo_acts) 3 ''e1'' (Presence.demo_host 5)"
    using acts_track(2) [OF demo_start r] demo_withheld unfolding r fst_conv snd_conv by simp
  obtain ps :: "pool list" where "set (map an_Prefix (d_Anchors st)) = {m_Prefix m | m p. p \<in> set ps \<and> m \<in> set (p_Members p)
      \<and> \<not> withdrawn (sv_fns demo_srv) demo_ttl (history demo_acts) 3 ''e1'' (m_Prefix m)}"
    using announcements_follow_reports [OF demo_start r r2 st] by blast
  then have "Presence.demo_host 5 \<notin> set (map an_Prefix (d_Anchors st))" using wd by (simp only: mem_Collect_eq) metis
  then show ?thesis using st unfolding r r2 snd_conv by blast
qed


end
