(* ===== verification/Audits.thy ===== *)
theory Audits
  imports Anchors
begin

text \<open>
  The periodic audits of the control plane: accounts (\<open>internal/server/accounts.go\<close>) and program fidelity (\<open>reconaudit.go\<close>). An operator's
  callbacks are not modelled: the drifts are returned. The name of the contract's ready phase is an argument.
\<close>

section \<open>Accounts\<close>

record account_drift =
  ad_Edge :: edge_id
  ad_LedgerSold :: int
  ad_AgentSold :: int
  ad_Delta :: int

definition abs64 :: "int \<Rightarrow> int" where
  "abs64 x = (if x < 0 then wrap64 (- x) else x)"

text \<open>The loop body after the reads.\<close>

definition account_check :: "u64 \<Rightarrow> agent \<Rightarrow> edge_report \<Rightarrow> int \<Rightarrow> account_drift option" where
  "account_check tolerance a report remaining =
     (let sellable = go_div (wrap64 (sint (ag_CapacityBps a) * sellableFracPercent)) 100;
          ledgerSold = wrap64 (sellable - remaining);
          agentSold = sint (er_SoldBandwidthBps report);
          delta = wrap64 (ledgerSold - agentSold)
      in if abs64 delta \<le> sint tolerance then None
         else Some \<lparr>ad_Edge = ag_EdgeID a, ad_LedgerSold = ledgerSold, ad_AgentSold = agentSold, ad_Delta = delta\<rparr>)"

fun account_loop :: "'s srv \<Rightarrow> gtime \<Rightarrow> agent list \<Rightarrow> account_drift list \<Rightarrow> ('s, account_drift list \<times> audit_error option) cpm" where
  "account_loop sv now [] drifts = cret (drifts, None)"
| "account_loop sv now (a # as) drifts = do {
     cp \<leftarrow> get_cp;
     (case cp_reports cp (ag_EdgeID a) of
        None \<Rightarrow> account_loop sv now as drifts
      | Some report \<Rightarrow> do {
          r \<leftarrow> orch_call now (etcd (ld_Remaining (sv_led sv) (ag_EdgeID a)));
          (case r of
             Inl err \<Rightarrow> cret (drifts, Some (AuLedger err))
           | Inr remaining \<Rightarrow>
               (case account_check (sv_acctTolerance sv) a report remaining of
                  None \<Rightarrow> account_loop sv now as drifts
                | Some d \<Rightarrow> account_loop sv now as (drifts @ [d])))
        })
   }"

definition ReconcileAccounts :: "'s srv \<Rightarrow> gtime \<Rightarrow> ('s, account_drift list \<times> audit_error option) cpm" where
  "ReconcileAccounts sv now = do {
     r \<leftarrow> orch_call now (etcd (reg_List (oc_reg (sv_orc sv))));
     (case r of
        Inl err \<Rightarrow> cret ([], Some (AuRegistry err))
      | Inr agents \<Rightarrow> account_loop sv now agents [])
   }"

text \<open>The inventory gauges: agents, pools, dead edges; \<open>None\<close> when a read failed.\<close>

definition RefreshMetrics :: "'s srv \<Rightarrow> gtime \<Rightarrow> ('s, (nat \<times> nat \<times> nat) option) cpm" where
  "RefreshMetrics sv now = do {
     r \<leftarrow> orch_call now (etcd (reg_List (oc_reg (sv_orc sv))));
     (case r of
        Inl _ \<Rightarrow> cret None
      | Inr agents \<Rightarrow> do {
          p \<leftarrow> orch_call now (yb (sv_orc sv) ListPools);
          (case p of
             Inl _ \<Rightarrow> cret None
           | Inr ps \<Rightarrow> do {
               cp \<leftarrow> get_cp;
               cret (Some (length agents, length ps, length (filter (\<lambda>a. IsDead (cp_Liveness cp) now (ag_EdgeID a)) agents)))
             })
        })
   }"

section \<open>Program fidelity\<close>

record program_drift =
  gd_Edge :: edge_id
  gd_Kind :: string
  gd_ExpectedPolicers :: int
  gd_DesiredPolicers :: int
  gd_ActualPolicers :: int
  gd_ExpectedSessions :: int
  gd_DesiredSessions :: int
  gd_ActualSessions :: int
  gd_Gap :: int
  gd_Repushed :: bool

definition bumpProgStreak :: "edge_id \<Rightarrow> cp \<Rightarrow> int \<times> cp" where
  "bumpProgStreak e cp =
     (let n = (case cp_progStreak cp e of None \<Rightarrow> 0 | Some n \<Rightarrow> n) + 1
      in (n, cp\<lparr>cp_progStreak := (cp_progStreak cp)(e \<mapsto> n)\<rparr>))"

definition resetProgStreak :: "edge_id \<Rightarrow> cp \<Rightarrow> cp" where
  "resetProgStreak e cp = cp\<lparr>cp_progStreak := (cp_progStreak cp)(e := None)\<rparr>"

definition count_gap :: "int \<Rightarrow> int \<Rightarrow> int \<Rightarrow> int \<Rightarrow> int" where
  "count_gap p p' s s' = wrap64 (abs64 (wrap64 (p - p')) + abs64 (wrap64 (s - s')))"

text \<open>The \<open>switch\<close> that classifies the gaps; \<open>None\<close>: all three agree.\<close>

definition program_gap :: "edge_id \<Rightarrow> int \<Rightarrow> int \<Rightarrow> health \<Rightarrow> program_drift option" where
  "program_gap e expPol expSess h =
     (let d = (\<lambda>kind gap. \<lparr>gd_Edge = e, gd_Kind = kind, gd_ExpectedPolicers = expPol, gd_DesiredPolicers = h_PolicersDesired h,
                gd_ActualPolicers = h_PolicersActual h, gd_ExpectedSessions = expSess, gd_DesiredSessions = h_SessionsDesired h,
                gd_ActualSessions = h_SessionsActual h, gd_Gap = gap, gd_Repushed = False\<rparr>);
          deliveryGap = count_gap expPol (h_PolicersDesired h) expSess (h_SessionsDesired h);
          programGap = count_gap (h_PolicersDesired h) (h_PolicersActual h) (h_SessionsDesired h) (h_SessionsActual h)
      in if deliveryGap > 0 then Some (d ''delivery-loss'' deliveryGap)
         else if programGap > 0 then Some (d ''program-drift'' programGap)
         else None)"

text \<open>The gates before the comparison: the report is from a connected, live data plane in its ready phase.\<close>

definition report_trusted :: "'s srv \<Rightarrow> string \<Rightarrow> health \<Rightarrow> bool" where
  "report_trusted sv phaseReady h \<longleftrightarrow> h_VPPConnected h \<and> \<not> sv_SoftDead sv h \<and> (h_Phase h = [] \<or> h_Phase h = phaseReady)"

definition behind :: "orch_error + u64 \<Rightarrow> health \<Rightarrow> bool" where
  "behind dv h = (case dv of Inl _ \<Rightarrow> False | Inr v \<Rightarrow> v > 0 \<and> h_AppliedVersion h < v)"

text \<open>One edge; the outcomes are those of the drift sweep: not judged, agreeing or not trusted (streak reset), deferred, alarmed.\<close>

definition repush :: "'s srv \<Rightarrow> gtime \<Rightarrow> program_drift \<Rightarrow> ('s, program_drift) cpm" where
  "repush sv now d = do {
     cp \<leftarrow> get_cp;
     if \<not> IsSubscribed (cp_fan cp) (gd_Edge d) then cret d
     else do {
       err \<leftarrow> rerender sv now (gd_Edge d);
       cret (d\<lparr>gd_Repushed := (err = None)\<rparr>)
     }
   }"

definition judge_program :: "'s srv \<Rightarrow> gtime \<Rightarrow> program_drift \<Rightarrow> ('s, drift_outcome \<times> program_drift option) cpm" where
  "judge_program sv now d = (let e = gd_Edge d in do {
     cp \<leftarrow> get_cp;
     on_cp (\<lambda>cp. snd (bumpProgStreak e cp));
     if fst (bumpProgStreak e cp) < sv_progThreshold sv then cret (DriftDeferred, None)
     else do {
       on_cp (resetProgStreak e);
       d \<leftarrow> repush sv now d;
       on_cp (emitProgramDrift now e (gd_Kind d) (gd_Gap d));
       cret (DriftResync, Some d)
     }
   })"

definition clean_program :: "edge_id \<Rightarrow> ('s, drift_outcome \<times> program_drift option) cpm" where
  "clean_program e = do { on_cp (resetProgStreak e); cret (DriftConverged, None) }"

definition program_edge :: "'s srv \<Rightarrow> string \<Rightarrow> gtime \<Rightarrow> edge_id \<Rightarrow> ('s, drift_outcome \<times> program_drift option) cpm" where
  "program_edge sv phaseReady now e = do {
     cp \<leftarrow> get_cp;
     if IsDead (cp_Liveness cp) now e then clean_program e
     else case cp_reports cp e of
       None \<Rightarrow> cret (DriftSkipped, None)
     | Some rep \<Rightarrow>
         if \<not> report_trusted sv phaseReady (er_Health rep) then clean_program e
         else do {
           dv \<leftarrow> orch_call now (desired_version (sv_orc sv) e);
           if behind dv (er_Health rep) then clean_program e
           else do {
             exps \<leftarrow> orch_call now (ExpectedCounts (gated sv now cp) e);
             (case exps of
                Inl _ \<Rightarrow> cret (DriftSkipped, None)
              | Inr (expPol, expSess) \<Rightarrow>
                  (case program_gap e (int expPol) (int expSess) (er_Health rep) of
                     None \<Rightarrow> clean_program e
                   | Some d \<Rightarrow> judge_program sv now d))
           }
         }
   }"

fun program_edges :: "'s srv \<Rightarrow> string \<Rightarrow> gtime \<Rightarrow> edge_id list \<Rightarrow> ('s, (edge_id \<times> drift_outcome) list \<times> program_drift list) cpm" where
  "program_edges sv phaseReady now [] = cret ([], [])"
| "program_edges sv phaseReady now (e # es) = do {
     (oc, d) \<leftarrow> program_edge sv phaseReady now e;
     (ocs, ds) \<leftarrow> program_edges sv phaseReady now es;
     cret ((e, oc) # ocs, (case d of None \<Rightarrow> ds | Some d \<Rightarrow> d # ds))
   }"

text \<open>\<open>ReconcileProgram\<close> returns the alarmed drifts; the outcomes of the edges are added for the theorems.\<close>

definition ReconcileProgram :: "'s srv \<Rightarrow> string \<Rightarrow> gtime \<Rightarrow> ('s, reg_error + (edge_id \<times> drift_outcome) list \<times> program_drift list) cpm" where
  "ReconcileProgram sv phaseReady now = do {
     r \<leftarrow> orch_call now (etcd (reg_List (oc_reg (sv_orc sv))));
     (case r of
        Inl err \<Rightarrow> cret (Inl err)
      | Inr agents \<Rightarrow> do { x \<leftarrow> program_edges sv phaseReady now (map ag_EdgeID agents); cret (Inr x) })
   }"

section \<open>The program audit is debounced\<close>

abbreviation prog_of :: "cp \<Rightarrow> edge_id \<Rightarrow> int" where
  "prog_of cp e \<equiv> (case cp_progStreak cp e of None \<Rightarrow> 0 | Some n \<Rightarrow> n)"

text \<open>Any activity of the uplink, then an audit, and so on; the outcomes of all audits in order.\<close>

fun audit_rounds ::
  "'s srv \<Rightarrow> string \<Rightarrow> int \<Rightarrow> ((gtime \<times> uplink_act) list \<times> gtime) list \<Rightarrow> ('s, (edge_id \<times> drift_outcome) list) cpm"
where
  "audit_rounds sv phaseReady ver [] = cret []"
| "audit_rounds sv phaseReady ver ((as, now) # rounds) = do {
     uplink_acts sv ver as;
     r \<leftarrow> ReconcileProgram sv phaseReady now;
     rest \<leftarrow> audit_rounds sv phaseReady ver rounds;
     cret ((case r of Inl _ \<Rightarrow> [] | Inr (ocs, _) \<Rightarrow> ocs) @ rest)
   }"

lemma gd_Edge_gap: "program_gap e x y h = Some d \<Longrightarrow> gd_Edge d = e"
  by (auto simp: program_gap_def Let_def split: if_splits)

lemma keeps_repush: "keeps_view cp_progStreak (repush sv now d)"
  unfolding repush_def by (auto intro!: view_keeps prog_streak.keeps_rerender)

lemma emitProgramDrift_streak [simp]: "cp_progStreak (emitProgramDrift now e kind gap cp) = cp_progStreak cp"
  by (simp add: emitProgramDrift_def)

lemma clean_program_streak:
  assumes "run_state (clean_program e') (cp, w) = ((oc, d), (cp', w'))"
    and "streaks thr os (prog_of cp e)"
  shows "streaks thr (os @ outcomes_of e [(e', oc)]) (prog_of cp' e)"
  using assms by (auto simp: clean_program_def outcomes_of_def resetProgStreak_def intro: streaks.intros)

lemma judge_program_streak:
  assumes "run_state (judge_program sv now g) (cp, w) = ((oc, d), (cp', w'))"
    and s: "streaks (sv_progThreshold sv) os (prog_of cp e)"
  shows "streaks (sv_progThreshold sv) (os @ outcomes_of e [(gd_Edge g, oc)]) (prog_of cp' e)"
proof (cases "prog_of cp (gd_Edge g) + 1 < sv_progThreshold sv")
  case True
  then show ?thesis using assms
    by (auto simp: judge_program_def bumpProgStreak_def Let_def outcomes_of_def intro: streaks.intros)
next
  case False
  let ?cp = "resetProgStreak (gd_Edge g) (snd (bumpProgStreak (gd_Edge g) cp))"
  obtain g' cp1 w1 where r: "run_state (repush sv now g) (?cp, w) = (g', (cp1, w1))" by (rule prod_cases3)
  have "cp_progStreak cp1 = cp_progStreak ?cp" by (rule keeps_viewD [OF keeps_repush r])
  moreover have "oc = DriftResync" "cp_progStreak cp' = cp_progStreak cp1"
    using assms(1) False r by (auto simp: judge_program_def bumpProgStreak_def Let_def)
  ultimately show ?thesis using s False
    by (auto simp: outcomes_of_def resetProgStreak_def bumpProgStreak_def Let_def intro: streaks.resync [OF _ leI])
qed

lemma call_streak:
  assumes "run_state (orch_call now m) (cp, w) = (r, (cp', w'))"
  shows "cp_progStreak cp' = cp_progStreak cp"
  by (rule keeps_viewD [OF prog_streak.keeps_call assms])

lemma program_edge_streak:
  assumes run: "run_state (program_edge sv phaseReady now e') (cp, w) = ((oc, d), (cp', w'))"
    and s: "streaks (sv_progThreshold sv) os (prog_of cp e)"
  shows "streaks (sv_progThreshold sv) (os @ outcomes_of e [(e', oc)]) (prog_of cp' e)"
proof -
  have skip: ?thesis if "oc = DriftSkipped" "cp_progStreak cp' = cp_progStreak cp"
    using that s by (simp add: outcomes_of_def)
  have clean: ?thesis if "run_state (clean_program e') (cp1, w1) = ((oc, d), (cp', w'))" "cp_progStreak cp1 = cp_progStreak cp" for cp1 w1
    using clean_program_streak [OF that(1)] s that(2) by simp
  show ?thesis
  proof (cases "IsDead (cp_Liveness cp) now e' \<or> (\<exists>rep. cp_reports cp e' = Some rep \<and> \<not> report_trusted sv phaseReady (er_Health rep))")
    case True
    then show ?thesis using run clean [of cp w] by (auto simp: program_edge_def split: if_splits)
  next
    case alive: False
    show ?thesis
    proof (cases "cp_reports cp e'")
      case None
      then show ?thesis using run alive skip by (auto simp: program_edge_def)
    next
      case (Some rep)
      obtain dv cp1 w1 where v: "run_state (orch_call now (desired_version (sv_orc sv) e')) (cp, w) = (dv, (cp1, w1))" by (rule prod_cases3)
      obtain ex cp2 w2 where x: "run_state (orch_call now (ExpectedCounts (gated sv now cp) e')) (cp1, w1) = (ex, (cp2, w2))" by (rule prod_cases3)
      have same: "cp_progStreak cp1 = cp_progStreak cp" "cp_progStreak cp2 = cp_progStreak cp"
        using call_streak [OF v] call_streak [OF x] by simp_all
      show ?thesis
      proof (cases "behind dv (er_Health rep)")
        case True
        then show ?thesis using run alive Some v same clean [of cp1 w1] by (simp add: program_edge_def)
      next
        case False
        show ?thesis
        proof (cases ex)
          case (Inl err)
          then show ?thesis using run alive Some v x False same skip by (simp add: program_edge_def)
        next
          case (Inr c)
          then obtain p q where c: "ex = Inr (p, q)" by (cases c) simp
          show ?thesis
          proof (cases "program_gap e' (int p) (int q) (er_Health rep)")
            case None
            then show ?thesis using run alive Some v x False same c clean [of cp2 w2] by (simp add: program_edge_def)
          next
            case gap: (Some g)
            have "run_state (judge_program sv now g) (cp2, w2) = ((oc, d), (cp', w'))"
              using run alive Some v x False c gap by (simp add: program_edge_def)
            from judge_program_streak [OF this, of os e] show ?thesis using s same gd_Edge_gap [OF gap] by simp
          qed
        qed
      qed
    qed
  qed
qed

lemma program_edges_streak:
  assumes "run_state (program_edges sv phaseReady now es) (cp, w) = ((ocs, ds), (cp', w'))"
    and "streaks (sv_progThreshold sv) os (prog_of cp e)"
  shows "streaks (sv_progThreshold sv) (os @ outcomes_of e ocs) (prog_of cp' e)"
  using assms
proof (induction es arbitrary: cp w ocs ds os)
  case (Cons e' es)
  obtain oc d cp1 w1 where x: "run_state (program_edge sv phaseReady now e') (cp, w) = ((oc, d), (cp1, w1))" by (metis prod.exhaust)
  obtain ocs' ds' where y: "run_state (program_edges sv phaseReady now es) (cp1, w1) = ((ocs', ds'), (cp', w'))" "ocs = (e', oc) # ocs'"
    using Cons.prems(1) x by (auto split: prod.splits)
  show ?case
    using Cons.IH [OF y(1) program_edge_streak [OF x Cons.prems(2)]] outcomes_append [of e "[(e', oc)]" ocs'] by (simp add: y(2))
qed (simp add: outcomes_of_def)

lemma ReconcileProgram_streak:
  assumes "run_state (ReconcileProgram sv phaseReady now) (cp, w) = (r, (cp', w'))"
    and "streaks (sv_progThreshold sv) os (prog_of cp e)"
  shows "streaks (sv_progThreshold sv) (os @ outcomes_of e (case r of Inl _ \<Rightarrow> [] | Inr (ocs, _) \<Rightarrow> ocs)) (prog_of cp' e)"
proof -
  obtain l cp1 w1 where l: "run_state (orch_call now (etcd (reg_List (oc_reg (sv_orc sv))))) (cp, w) = (l, (cp1, w1))" by (rule prod_cases3)
  have same: "cp_progStreak cp1 = cp_progStreak cp" by (rule call_streak [OF l])
  show ?thesis
  proof (cases l)
    case (Inl err)
    then show ?thesis using assms l same by (auto simp: ReconcileProgram_def outcomes_of_def)
  next
    case (Inr agents)
    obtain ocs ds cp2 w2 where x: "run_state (program_edges sv phaseReady now (map ag_EdgeID agents)) (cp1, w1) = ((ocs, ds), (cp2, w2))"
      by (metis prod.exhaust)
    then have "r = Inr (ocs, ds)" "cp' = cp2" using assms(1) l Inr by (auto simp: ReconcileProgram_def)
    then show ?thesis using program_edges_streak [OF x, of os e] assms(2) same by simp
  qed
qed

lemma audit_rounds_streak:
  assumes "run_state (audit_rounds sv phaseReady ver rounds) (cp, w) = (xs, (cp', w'))"
    and "streaks (sv_progThreshold sv) os (prog_of cp e)"
  shows "streaks (sv_progThreshold sv) (os @ outcomes_of e xs) (prog_of cp' e)"
  using assms
proof (induction rounds arbitrary: cp w xs os)
  case (Cons round rounds)
  obtain as now where rd: "round = (as, now)" by (cases round)
  obtain u cp1 w1 where a: "run_state (uplink_acts sv ver as) (cp, w) = (u, (cp1, w1))" by (rule prod_cases3)
  obtain r cp2 w2 where p: "run_state (ReconcileProgram sv phaseReady now) (cp1, w1) = (r, (cp2, w2))" by (rule prod_cases3)
  obtain zs where z: "run_state (audit_rounds sv phaseReady ver rounds) (cp2, w2) = (zs, (cp', w'))"
    "xs = (case r of Inl _ \<Rightarrow> [] | Inr (ocs, _) \<Rightarrow> ocs) @ zs"
    using Cons.prems(1) a p by (auto simp: rd split: prod.splits)
  have "cp_progStreak cp1 = cp_progStreak cp" by (rule keeps_viewD [OF prog_streak.keeps_uplink_acts a])
  then have "streaks (sv_progThreshold sv) os (prog_of cp1 e)" using Cons.prems(2) by simp
  from Cons.IH [OF z(1) ReconcileProgram_streak [OF p this]] show ?case by (simp add: z(2) outcomes_append)
qed (simp add: outcomes_of_def)


text \<open>The only edge reports no policer while its pool needs two, in two audits.\<close>

definition demo_agent_report :: coverer_report where
  "demo_agent_report = \<lparr>cr_Kind = AGENT_REPORT, cr_EdgeId = ''e1'', cr_CovererId = [], cr_Soft = False, cr_Down = False,
     cr_Payload = Some (demo_edge_report ''e1'' 0), cr_Members = []\<rparr>"

definition demo_audits :: "((gtime \<times> uplink_act) list \<times> gtime) list" where
  "demo_audits = [([(1, Received demo_agent_report)], 2), ([], 3)]"

definition demo_auditor :: "cluster srv" where
  "demo_auditor = demo_srv\<lparr>sv_progThreshold := 2\<rparr>"

definition demo_one_edge :: "cluster world" where
  "demo_one_edge = demo_world\<lparr>w_etcd := \<lparr>cl_log = take 1 demo_agents, cl_peers = [], cl_faults = []\<rparr>\<rparr>"


section \<open>Account arithmetic\<close>

lemma account_check_ideal:
  fixes a :: agent
  defines "sellable \<equiv> uint (ag_CapacityBps a) * 90 div 100"
  assumes cap: "uint (ag_CapacityBps a) * 90 < 2 ^ 63" and rem: "\<bar>remaining\<bar> < 2 ^ 61"
    and sold: "uint (er_SoldBandwidthBps rep) < 2 ^ 61" and tol: "uint tolerance < 2 ^ 63"
  shows "account_check tolerance a rep remaining =
    (let delta = sellable - remaining - uint (er_SoldBandwidthBps rep) in
     if \<bar>delta\<bar> \<le> uint tolerance then None
     else Some \<lparr>ad_Edge = ag_EdgeID a, ad_LedgerSold = sellable - remaining, ad_AgentSold = uint (er_SoldBandwidthBps rep), ad_Delta = delta\<rparr>)"
proof -
  have s: "sint x = uint x" if "uint x < 2 ^ 63" for x :: u64
    using that by (simp add: sint_uint signed_take_bit_eq_if_positive bit_iff_odd take_bit_int_eq_self)
  have "0 \<le> uint (ag_CapacityBps a)" "0 \<le> uint (er_SoldBandwidthBps rep)" by simp_all
  then have sell: "go_div (wrap64 (sint (ag_CapacityBps a) * sellableFracPercent)) 100 = sellable"
  proof -
    assume c: "0 \<le> uint (ag_CapacityBps a)"
    have "sint (ag_CapacityBps a) = uint (ag_CapacityBps a)" using cap c by (intro s) linarith
    moreover have "wrap64 (uint (ag_CapacityBps a) * 90) = uint (ag_CapacityBps a) * 90" using cap c by (intro wrap64_id) linarith+
    moreover have "go_div (uint (ag_CapacityBps a) * 90) 100 = sellable" unfolding sellable_def using c by (intro go_div_pos) simp_all
    ultimately show ?thesis by (simp add: sellableFracPercent_def)
  qed
  have bound: "0 \<le> sellable" "sellable < 2 ^ 57"
    using cap unfolding sellable_def by (simp_all add: pos_imp_zdiv_nonneg_iff)
  define q where "q = uint (er_SoldBandwidthBps rep)"
  have r: "- (2 ^ 61) < remaining" "remaining < 2 ^ 61" using rem by (auto simp: abs_less_iff)
  have q: "0 \<le> q" "q < 2 ^ 61" using sold by (simp_all add: q_def)
  have l: "wrap64 (sellable - remaining) = sellable - remaining" using bound r by (intro wrap64_id) simp_all
  have d: "wrap64 (sellable - remaining - q) = sellable - remaining - q"
    "wrap64 (- (sellable - remaining - q)) = - (sellable - remaining - q)"
    using bound r q by (intro wrap64_id; simp)+
  then have ab: "abs64 (sellable - remaining - q) = \<bar>sellable - remaining - q\<bar>" by (simp add: abs64_def abs_if)
  have "sint (er_SoldBandwidthBps rep) = q" "sint tolerance = uint tolerance"
    using s [of "er_SoldBandwidthBps rep"] s [of tolerance] sold tol by (simp_all add: q_def)
  then show ?thesis unfolding account_check_def Let_def sell l q_def [symmetric] using d ab by simp
qed


definition demo_selling :: "u64 \<Rightarrow> edge_report" where
  "demo_selling sold = (demo_edge_report ''e1'' 0)\<lparr>er_SoldBandwidthBps := sold\<rparr>"

abbreviation demo_gig :: agent where
  "demo_gig \<equiv> \<lparr>ag_EdgeID = ''e1'', ag_CapacityBps = 1000000000, ag_RegisteredAt = 1\<rparr>"


text \<open>Registration seeds the ledger with the sellable tokens and nothing debits it, so an agent is reported as soon as what it sold exceeds the tolerance.\<close>

lemma seeded_account_alarms:
  assumes "uint (ag_CapacityBps a) * 90 < 2 ^ 63" "uint tolerance < uint (er_SoldBandwidthBps rep)" "uint (er_SoldBandwidthBps rep) < 2 ^ 61"
  shows "\<exists>d. account_check tolerance a rep (uint (ag_CapacityBps a) * 90 div 100) = Some d \<and> ad_Delta d = - uint (er_SoldBandwidthBps rep)"
proof -
  have "0 \<le> uint (ag_CapacityBps a) * 90 div 100" "uint (ag_CapacityBps a) * 90 div 100 < 2 ^ 57"
    using assms(1) by (simp_all add: pos_imp_zdiv_nonneg_iff)
  then have "\<bar>uint (ag_CapacityBps a) * 90 div 100\<bar> < 2 ^ 61" by simp
  moreover have "uint tolerance < 2 ^ 63" using assms(2,3) by simp
  ultimately show ?thesis using account_check_ideal [OF assms(1) _ assms(3), of _ tolerance] assms(2) by (simp add: Let_def)
qed

text \<open>The smallest 64-bit difference has no absolute value: an agent that reports \<open>2 ^ 63\<close> is not reported.\<close>

lemma smallest_delta_is_silent: "account_check 1000000 demo_gig (demo_selling (2 ^ 63)) 900000000 = None"
  by code_simp

end
