(* ===== verification/Claims.thy ===== *)
theory Claims
  imports Lifecycle
begin

text \<open>
  The invariant behind the address claims of pools: no two member rows share an address and every pool's body lists
  exactly its rows. The transactions keep it under named conditions, and the orchestrator's operations establish
  these conditions when no other replica writes. Faults of the store are unrestricted.
\<close>

section \<open>The invariant\<close>

definition apart :: "pfx set \<Rightarrow> bool" where
  "apart S \<longleftrightarrow> (\<forall>p \<in> S. granular p) \<and> (\<forall>p \<in> S. \<forall>q \<in> S. Overlaps p q \<longrightarrow> p = q)"

definition claims :: "tables \<Rightarrow> pfx set" where
  "claims t = mt_prefix ` set (members t)"

definition bodies_ok :: "tables \<Rightarrow> bool" where
  "bodies_ok t \<longleftrightarrow> (\<forall>r \<in> set (pools t). m_Prefix ` set (p_Members (y_Pool (t_body r))) = mem_keys t (t_id r))"

definition claims_ok :: "tables \<Rightarrow> bool" where
  "claims_ok t \<longleftrightarrow> tables_inv t \<and> apart (claims t) \<and> bodies_ok t"

lemma apart_subset: "apart S \<Longrightarrow> T \<subseteq> S \<Longrightarrow> apart T"
  by (auto simp: apart_def)

lemma apart_disjoint: "apart S \<Longrightarrow> p \<in> S \<Longrightarrow> q \<in> S \<Longrightarrow> p \<noteq> q \<Longrightarrow> addrs_of p \<inter> addrs_of q = {}"
  unfolding apart_def using Overlaps_meaning granular_valid by blast

lemma mem_keys_claims: "mem_keys t i \<subseteq> claims t"
  by (auto simp: mem_keys_def claims_def)

text \<open>Only the prefix and the pool of a member row count.\<close>

abbreviation claim_pairs :: "tables \<Rightarrow> (pfx \<times> pool_id) list" where
  "claim_pairs t \<equiv> map (\<lambda>r. (mt_prefix r, mt_pool r)) (members t)"

lemma mem_keys_pairs: "mem_keys t i = {p. (p, i) \<in> set (claim_pairs t)}"
  by (auto simp: mem_keys_def)

lemma claims_keys: "claims t = (\<Union>j. mem_keys t j)"
  by (auto simp: claims_def mem_keys_def)

lemma claims_split: "claims t = mem_keys t i \<union> (\<Union>j \<in> - {i}. mem_keys t j)"
proof -
  have "UNIV = insert i (- {i})" by blast
  then show ?thesis unfolding claims_keys by (metis UN_insert)
qed

lemma claims_empty: "claims_ok \<lparr>pools = [], members = []\<rparr>"
  by (simp add: claims_ok_def tables_inv_def apart_def claims_def bodies_ok_def)

section \<open>Transactions\<close>

lemma absent_keys:
  assumes "tables_inv t" "row_of t i = None"
  shows "mem_keys t i = {}"
proof -
  have "mt_pool r \<in> t_id ` set (pools t)" if "r \<in> set (members t)" for r
    using assms(1) that by (simp add: tables_inv_def)
  then have "mt_pool r \<noteq> i" if "r \<in> set (members t)" for r using that assms(2) unfolding row_of_None by metis
  then show ?thesis by (auto simp: mem_keys_def)
qed

lemma create_claims:
  assumes t: "claims_ok t" and tx: "tx_CreatePool t rec ms = Inr t'"
    and ms: "p_Members (y_Pool rec) = ms" and free: "apart (m_Prefix ` set ms \<union> claims t)"
  shows "claims_ok t'"
proof -
  let ?i = "p_ID (y_Pool rec)"
  have inv: "tables_inv t" using t by (simp add: claims_ok_def)
  note eq = tx [unfolded tx_CreatePool_Inr]
  have none: "mem_keys t ?i = {}" using absent_keys [OF inv] eq by simp
  have keys: "mem_keys t' j = (if j = ?i then m_Prefix ` set ms else mem_keys t j)" for j
    using none eq unfolding mem_keys_pairs by (auto simp: image_iff)
  have "bodies_ok t'"
    unfolding bodies_ok_def
  proof
    fix r assume "r \<in> set (pools t')"
    then consider "r \<in> set (pools t)" "t_id r \<noteq> ?i" | "t_id r = ?i" "t_body r = with_home rec"
      using eq by (force simp: row_of_None)
    then show "m_Prefix ` set (p_Members (y_Pool (t_body r))) = mem_keys t' (t_id r)"
      unfolding keys using t ms by cases (simp_all add: claims_ok_def bodies_ok_def with_home_def)
  qed
  moreover have "claims t' = m_Prefix ` set ms \<union> claims t" using eq by (auto simp: claims_def image_Un image_image)
  ultimately show ?thesis using tx_CreatePool_inv [OF inv tx] free by (simp add: claims_ok_def)
qed

lemma bodies_set_body:
  assumes "pools t' = pools (set_body x i rec)" "bodies_ok t" "pools x = pools t"
    and "m_Prefix ` set (p_Members (y_Pool rec)) = mem_keys t' i" "\<And>j. j \<noteq> i \<Longrightarrow> mem_keys t' j = mem_keys t j"
  shows "bodies_ok t'"
  unfolding bodies_ok_def
proof
  fix r' assume "r' \<in> set (pools t')"
  then obtain r where "r \<in> set (pools t)" "t_id r' = t_id r" "t_body r' = (if t_id r = i then rec else t_body r)"
    unfolding assms(1) set_body_def by (auto simp: assms(3))
  then show "m_Prefix ` set (p_Members (y_Pool (t_body r'))) = mem_keys t' (t_id r')"
    using assms(2,4,5) by (cases "t_id r = i") (simp_all add: bodies_ok_def)
qed

lemma update_claims:
  assumes t: "claims_ok t" and tx: "tx_UpdatePool t rec ms = Inr t'"
    and ms: "p_Members (y_Pool rec) = ms"
    and free: "apart (m_Prefix ` set ms \<union> (\<Union>j \<in> - {p_ID (y_Pool rec)}. mem_keys t j))"
  shows "claims_ok t'"
proof -
  let ?i = "p_ID (y_Pool rec)"
  have inv: "tables_inv t" using t by (simp add: claims_ok_def)
  note keys = UpdatePool_claims [OF inv tx]
  have inv': "tables_inv t'" by (rule tx_UpdatePool_inv [OF inv tx])
  have "claims t' = mem_keys t' ?i \<union> (\<Union>j \<in> - {?i}. mem_keys t' j)" by (rule claims_split)
  also have "\<dots> = m_Prefix ` set ms \<union> (\<Union>j \<in> - {?i}. mem_keys t j)" using keys by simp
  finally have "apart (claims t')" using free by simp
  moreover have "bodies_ok t'"
    by (rule bodies_set_body [OF tx_UpdatePool_Inr(2) [OF tx], of t])
       (use t keys ms in \<open>simp_all add: claims_ok_def with_home_def\<close>)
  ultimately show ?thesis using inv' by (simp add: claims_ok_def)
qed

lemma remove_claims:
  assumes t: "claims_ok t" and tx: "tx_RemoveMember t i pre = Inr t'"
  shows "claims_ok t'"
proof -
  have inv: "tables_inv t" using t by (simp add: claims_ok_def)
  let ?t = "t\<lparr>members := filter (\<lambda>r. \<not> (mt_prefix r = pre \<and> mt_pool r = i)) (members t)\<rparr>"
  obtain r where r: "row_of ?t i = Some r"
    and t': "t' = set_body ?t i ((t_body r)\<lparr>y_Pool := (y_Pool (t_body r))\<lparr>p_Members :=
        filter (\<lambda>m. m_Prefix m \<noteq> pre) (p_Members (y_Pool (t_body r)))\<rparr>\<rparr>)"
    using tx by (auto simp: tx_RemoveMember_def Let_def split: option.splits)
  have keys: "mem_keys t' j = (if j = i then mem_keys t j - {pre} else mem_keys t j)" for j
    by (auto simp: t' mem_keys_def pools_set_body)
  have body: "m_Prefix ` set (p_Members (y_Pool (t_body r))) = mem_keys t i"
    using row_of_Some [OF r] t by (auto simp: claims_ok_def bodies_ok_def)
  have "m_Prefix ` {m \<in> set (p_Members (y_Pool (t_body r))). m_Prefix m \<noteq> pre} = mem_keys t i - {pre}"
    using body by auto
  then have "bodies_ok t'"
    by (intro bodies_set_body [OF arg_cong [OF t', of pools], of t]) (use t keys in \<open>simp_all add: claims_ok_def\<close>)
  moreover have "claims t' \<subseteq> claims t" by (auto simp: t' claims_def pools_set_body)
  ultimately show ?thesis
    using tx_RemoveMember_inv [OF inv tx] t apart_subset by (auto simp: claims_ok_def)
qed

text \<open>A pivot read whose body is the row's at that version.\<close>

definition pivot_ok :: "tables \<Rightarrow> pivot_row \<Rightarrow> bool" where
  "pivot_ok t rec \<longleftrightarrow> p_ID (v_Pool rec) = v_PoolID rec \<and>
     (\<forall>r \<in> set (pools t). t_id r = v_PoolID rec \<and> t_version r = v_Version rec \<longrightarrow>
        m_Prefix ` set (p_Members (v_Pool rec)) = mem_keys t (t_id r))"

lemma pivot_ok_backup [simp]: "pivot_ok t (rec\<lparr>v_Backup := b\<rparr>) = pivot_ok t rec"
  by (simp add: pivot_ok_def)

lemma read_pivot_ok:
  assumes "claims_ok t" "q_GetForReconcile t i = Some rec"
  shows "pivot_ok t rec"
proof -
  obtain r where r: "row_of t i = Some r" and rec: "v_Pool rec = y_Pool (t_body r)" "v_PoolID rec = i"
    using assms(2) by (auto simp: q_GetForReconcile_def)
  have "r' = r" if "r' \<in> set (pools t)" "t_id r' = i" for r'
    using that r row_of_unique [of t r'] assms(1) by (auto simp: claims_ok_def tables_inv_def)
  then show ?thesis
    using assms(1) row_of_Some [OF r] rec by (auto simp: pivot_ok_def claims_ok_def bodies_ok_def tables_inv_def)
qed

lemma cas_claims:
  assumes t: "claims_ok t" and tx: "tx_UpdateCAS t rec (v_Version rec) np nb nr = Inr t'" and rec: "pivot_ok t rec"
  shows "claims_ok t'"
proof -
  have inv: "tables_inv t" using t by (simp add: claims_ok_def)
  note eq = tx [unfolded tx_UpdateCAS_Inr]
  have "claim_pairs t' = claim_pairs t" using eq by (auto simp: comp_def)
  then have keys: "mem_keys t' j = mem_keys t j" for j unfolding mem_keys_pairs by simp
  have "bodies_ok t'"
    unfolding bodies_ok_def keys
  proof
    fix r' assume "r' \<in> set (pools t')"
    then obtain r where "r \<in> set (pools t)" "r' = cas_row rec (v_Version rec) np nb nr r"
      unfolding tx_UpdateCAS_pools [OF tx] by auto
    then show "m_Prefix ` set (p_Members (y_Pool (t_body r'))) = mem_keys t (t_id r')"
      using t rec by (auto simp: cas_row_def with_home_def claims_ok_def bodies_ok_def pivot_ok_def)
  qed
  moreover have "claims t' = claims t"
    using arg_cong [OF tx_UpdateCAS_ids(2) [OF tx], of set] by (simp add: claims_def)
  moreover have "tables_inv t'" using tx_UpdateCAS_inv [OF inv tx] rec by (simp add: pivot_ok_def)
  ultimately show ?thesis using t by (simp add: claims_ok_def)
qed

lemma delete_claims:
  assumes t: "claims_ok t"
  shows "tx_DeleteCAS t i v = Inr t' \<Longrightarrow> claims_ok t'" and "tx_Delete t i = Inr t' \<Longrightarrow> claims_ok t'"
proof -
  have inv: "tables_inv t" using t by (simp add: claims_ok_def)
  have *: "claims_ok t'" if "tables_inv t'" and ps: "set (pools t') \<subseteq> set (pools t)" "i \<notin> t_id ` set (pools t')"
    and ms: "members t' = filter (\<lambda>r. mt_pool r \<noteq> i) (members t)"
  proof -
    have "mem_keys t' j = mem_keys t j" if "j \<noteq> i" for j using ms that by (auto simp: mem_keys_def)
    then have "bodies_ok t'" using ps t by (auto simp: bodies_ok_def claims_ok_def image_iff subset_eq)
    moreover have "claims t' \<subseteq> claims t" using ms by (auto simp: claims_def)
    ultimately show ?thesis using that(1) t apart_subset by (auto simp: claims_ok_def)
  qed
  show "claims_ok t'" if tx: "tx_Delete t i = Inr t'"
    using tx by (intro * tx_Delete_inv [OF inv tx]) (auto simp: tx_Delete_def)
  show "claims_ok t'" if tx: "tx_DeleteCAS t i v = Inr t'"
  proof (intro * tx_DeleteCAS_inv [OF inv tx])
    obtain r where r: "r \<in> set (pools t)" "t_id r = i" "t_version r = v"
      and t': "t' = t\<lparr>pools := filter (\<lambda>r. \<not> (t_id r = i \<and> t_version r = v)) (pools t),
                      members := filter (\<lambda>r. mt_pool r \<noteq> i) (members t)\<rparr>"
      using tx by (auto simp: tx_DeleteCAS_def Let_def split: if_splits)
    have "x = r" if "x \<in> set (pools t)" "t_id x = i" for x
      using that r inv by (auto simp: tables_inv_def distinct_map dest: inj_onD)
    then have "\<not> (t_id x = i \<and> t_version x \<noteq> v)" if "x \<in> set (pools t)" for x using r(3) that by metis
    then show "i \<notin> t_id ` set (pools t')" unfolding t' by fastforce
    show "set (pools t') \<subseteq> set (pools t)" "members t' = filter (\<lambda>r. mt_pool r \<noteq> i) (members t)"
      by (auto simp: t')
  qed
qed

section \<open>Triples on the tables\<close>

text \<open>No other replica writes.\<close>

definition solo :: "'s orch \<Rightarrow> bool" where
  "solo orc \<longleftrightarrow> oc_peers orc = (\<lambda>n st. st)"

definition triple :: "(tables \<Rightarrow> bool) \<Rightarrow> ('s, 'a) om \<Rightarrow> ('a \<Rightarrow> tables \<Rightarrow> bool) \<Rightarrow> bool" where
  "triple P m Q \<longleftrightarrow> (\<forall>w. P (tabs (w_yb w)) \<longrightarrow> Q (fst (run_state m w)) (tabs (w_yb (snd (run_state m w)))))"

text \<open>Computations that leave the tables as they are, whatever fails.\<close>

definition steady :: "('s, 'a) om \<Rightarrow> bool" where
  "steady m \<longleftrightarrow> (\<forall>w. tabs (w_yb (snd (run_state m w))) = tabs (w_yb w))"

lemma triple_bind:
  "triple P m R \<Longrightarrow> (\<And>r. triple (R r) (f r) Q) \<Longrightarrow> triple P (State_Monad.bind m f) Q"
  unfolding triple_def by (simp add: split_beta)

lemma triple_weaken: "triple P m Q \<Longrightarrow> (\<And>t. P' t \<Longrightarrow> P t) \<Longrightarrow> (\<And>r t. Q r t \<Longrightarrow> Q' r t) \<Longrightarrow> triple P' m Q'"
  by (auto simp: triple_def)

lemma triple_ret: "(\<And>t. P t \<Longrightarrow> Q x t) \<Longrightarrow> triple P (ret x) Q"
  by (simp add: triple_def ret_def)

lemma triple_steady: "steady m \<Longrightarrow> triple P m (\<lambda>_. P)"
  by (simp add: triple_def steady_def)

lemma triple_steady_weak: "steady m \<Longrightarrow> (\<And>t. P t \<Longrightarrow> I t) \<Longrightarrow> triple P m (\<lambda>_. I)"
  by (simp add: triple_def steady_def)

lemma triple_then_steady: "triple P m Q \<Longrightarrow> (\<And>r. steady (f r)) \<Longrightarrow> (\<And>r t. Q r t \<Longrightarrow> I t) \<Longrightarrow>
   triple P (State_Monad.bind m f) (\<lambda>_. I)"
  by (rule triple_bind) (auto intro: triple_weaken [OF triple_steady])

lemma triple_after_steady: "steady m \<Longrightarrow> (\<And>r. triple P (f r) Q) \<Longrightarrow> triple P (State_Monad.bind m f) Q"
  by (rule triple_bind [OF triple_steady])

lemma steady_bind: "steady m \<Longrightarrow> (\<And>r. steady (f r)) \<Longrightarrow> steady (State_Monad.bind m f)"
  by (simp add: steady_def split_beta)

named_theorems steadies

lemma steady_prims [steadies]:
  "steady (ret x)" "steady (observe ev)" "steady (etcd g)" "steady (alive orc e)"
  "steady (nextGenForEdge orc e)" "steady (set_lastGen e n)" "steady get_cap"
  "steady (push_desired orc e st)" "steady (push_delta orc e d)"
  by (simp_all add: steady_def ret_def observe_def etcd_def alive_def nextGenForEdge_def set_lastGen_def
      get_cap_def push_desired_def push_delta_def Let_def split_beta)

lemma tabs_next_fault: "next_fault s = (f, s') \<Longrightarrow> tabs s' = tabs s"
  by (auto simp: next_fault_def split: list.splits)

lemma tabs_leader_read: "tabs (fst (leader_read q s)) = tabs s"
  by (auto simp: leader_read_def tabs_next_fault split: prod.splits option.splits)

lemma tabs_followerReadOnce: "followerReadOnce q s = (s', r) \<Longrightarrow> tabs s' = tabs s"
  by (auto simp: followerReadOnce_def tabs_next_fault split: prod.splits option.splits)

lemma tabs_follower_loop: "tabs (fst (follower_loop n q s)) = tabs s"
  by (induction n arbitrary: s) (auto simp: tabs_followerReadOnce split: prod.splits sum.splits)

lemma steady_reads [steadies]:
  assumes "solo orc"
  shows "steady (yb orc (\<lambda>st. leader_read (q :: tables \<Rightarrow> 'a) st))" "steady (yb orc (\<lambda>st. followerRead (q :: tables \<Rightarrow> 'a) st))"
  using assms by (simp_all add: steady_def yb_def solo_def split_beta followerRead_def
      tabs_leader_read tabs_follower_loop)

lemmas read_defs = PoolsForHome_def PoolsForBackup_def GetForReconcile_def Get_def MemberConflicts_def
  PoolsForDeadEdge_def ListPivotsByPrimary_def

lemma write_tx_tabs:
  "tabs (fst (write_tx tx s)) = tabs s \<or> tx (tabs s) = Inr (tabs (fst (write_tx tx s)))"
  by (auto simp: write_tx_def dest!: tabs_next_fault split: prod.splits option.splits fault.splits sum.splits)

lemma triple_write:
  assumes "solo orc" "\<And>t t'. P t \<Longrightarrow> tx t = Inr t' \<Longrightarrow> I t'" "\<And>t. P t \<Longrightarrow> I t"
  shows "triple P (yb orc (write_tx tx)) (\<lambda>_. I)"
proof -
  have "I (tabs (fst (write_tx tx s)))" if "P (tabs s)" for s
    using write_tx_tabs [of tx s] assms(2,3) that by metis
  then show ?thesis using assms(1) by (simp add: triple_def yb_def solo_def split_beta)
qed

section \<open>The orchestrator's operations\<close>

lemma steady_store_reads [steadies]:
  assumes "solo orc"
  shows "steady (yb orc (\<lambda>st. PoolsForHome st e))" "steady (yb orc (\<lambda>st. PoolsForBackup st e))"
    "steady (yb orc (\<lambda>st. GetForReconcile st i))" "steady (yb orc (\<lambda>st. Get st i))"
    "steady (yb orc (\<lambda>st. MemberConflicts st ps i))" "steady (yb orc (\<lambda>st. PoolsForDeadEdge st e))"
  unfolding read_defs by (rule steady_reads [OF assms])+

lemma steady_desired_version [steadies]: "steady (desired_version orc e)"
  by (auto simp: desired_version_def intro!: steady_bind steadies split: option.splits)

lemma steady_renderAndPushGen [steadies]: "solo orc \<Longrightarrow> steady (renderAndPushGen orc e)"
  unfolding renderAndPushGen_def renderOptions_def
  by (auto intro!: steady_bind steadies split: sum.splits option.splits)

lemma steady_delivery [steadies]:
  assumes "solo orc"
  shows "steady (renderAndPush orc e)" "steady (bump orc e)" "steady (bumpGen orc e)"
  unfolding bump_def bumpGen_def renderAndPush_def
  by (auto intro!: steady_bind steadies assms split: option.splits prod.splits)

lemma steady_bump_all [steadies]: "solo orc \<Longrightarrow> steady (bump_all orc es)"
  by (induction es) (auto intro!: steady_bind steadies)

lemma steady_locallyDeliverable [steadies]: "steady (locallyDeliverable orc e)"
  by (auto simp: locallyDeliverable_def steady_def ret_def split: option.splits)

lemma steady_deliver [steadies]:
  assumes "solo orc"
  shows "steady (deliverEdge orc e)" "steady (deliver_all orc es)" "steady (deliver_each orc es)"
proof -
  show d: "steady (deliverEdge orc e)" for e
    unfolding deliverEdge_def by (auto intro!: steady_bind steadies assms)
  show "steady (deliver_all orc es)" by (induction es) (auto intro!: steady_bind steadies d)
  show "steady (deliver_each orc es)" by (induction es) (auto intro!: steady_bind steadies d split: option.splits)
qed

lemma steady_notify [steadies]:
  "steady (notifyFailover orc i f t g)" "steady (notifyRedundancy orc k i t x)" "steady (notifyRehome orc i f t)"
  by (auto simp: notifyFailover_def notifyRedundancy_def notifyRehome_def intro: steadies)

lemma steady_edgeReady [steadies]: "steady (edgeReady orc e)"
  unfolding edgeReady_def edgeReady_raw_def
  by (auto intro!: steady_bind steadies split: option.splits sum.splits)

lemma steady_live_loop [steadies]: "steady (live_loop orc excl as out caps)"
  by (induction as arbitrary: out caps) (auto intro!: steady_bind steadies)

lemma steady_liveCandidatesCap [steadies]: "steady (liveCandidatesCap orc excl)"
  unfolding liveCandidatesCap_def by (auto intro!: steady_bind steadies split: sum.splits)

lemma steady_pushPoolDeltaGen [steadies]: "solo orc \<Longrightarrow> steady (pushPoolDeltaGen orc e p b g)"
  unfolding pushPoolDeltaGen_def renderOptions_def Let_def
  by (auto intro!: steady_bind steadies split: sum.splits)

lemma steady_push_homes [steadies]: "solo orc \<Longrightarrow> steady (push_homes orc p hs)"
  by (induction hs) (auto intro!: steady_bind steadies)

lemma steady_dispatch [steadies]: "solo orc \<Longrightarrow> steady (dispatch orc j)"
  by (auto simp: dispatch_def steady_def dest: steady_push_homes [unfolded steady_def])

lemma steady_premint [steadies]: "steady (premint orc e)"
  by (auto simp: premint_def intro: steadies)

lemma steady_poll_ready [steadies]: "steady (poll_ready n orc e)"
  by (induction n) (auto simp: poll_ready.simps [of 0] poll_ready.simps [of "Suc n" for n] simp del: poll_ready.simps
      intro!: steady_bind steadies)

lemma steady_waitEdgeApplied [steadies]: "steady (waitEdgeApplied orc e)"
  by (auto simp: waitEdgeApplied_def Let_def simp del: poll_ready.simps intro!: steadies split: option.splits)

lemma steady_confirm_withdraw [steadies]: "steady (confirm_withdraw orc es)"
  by (induction es) (auto intro!: steady_bind steadies split: option.splits)

lemma steady_withdraw_homes [steadies]: "solo orc \<Longrightarrow> steady (withdraw_homes orc pri gen cross es)"
  by (induction es arbitrary: gen cross) (auto intro!: steady_bind steadies split: option.splits prod.splits)

section \<open>Pivot moves keep the claims\<close>

abbreviation pivot_pre :: "pivot_row \<Rightarrow> tables \<Rightarrow> bool" where
  "pivot_pre rec \<equiv> (\<lambda>t. claims_ok t \<and> pivot_ok t rec)"

lemma triple_drop_pivot: "triple claims_ok m (\<lambda>_. claims_ok) \<Longrightarrow> triple (pivot_pre rec) m (\<lambda>_. claims_ok)"
  by (auto simp: triple_def)

lemma read_fact:
  assumes "solo orc" "\<And>t x. P t \<Longrightarrow> q t = x \<Longrightarrow> R (Inr x) t" "\<And>t e. P t \<Longrightarrow> R (Inl e) t"
  shows "triple P (yb orc (leader_read q)) R"
proof -
  have "R (snd (leader_read q s)) (tabs (fst (leader_read q s)))" if "P (tabs s)" for s
    using assms(2,3) that by (auto simp: leader_read_def tabs_next_fault split: prod.splits option.splits)
  then show ?thesis using assms(1) by (simp add: triple_def yb_def solo_def split_beta)
qed

lemma triple_getPivot:
  assumes "solo orc"
  shows "triple claims_ok (getPivot orc i) (\<lambda>r t. claims_ok t \<and> (\<forall>rec. r = Inr (Some rec) \<longrightarrow> pivot_ok t rec))"
  unfolding getPivot_def GetForReconcile_def
  by (rule triple_bind [OF read_fact [OF assms, where R = "\<lambda>r t. claims_ok t \<and> (\<forall>rec. r = Inr (Some rec) \<longrightarrow> pivot_ok t rec)"]])
     (auto intro: read_pivot_ok intro!: triple_after_steady [OF steady_prims(2)] triple_ret)

lemma triple_with_pivot:
  assumes "solo orc" "\<And>rec. triple (pivot_pre rec) (h (Inr (Some rec))) (\<lambda>_. claims_ok)"
    and "triple claims_ok (h (Inr None)) (\<lambda>_. claims_ok)" "\<And>e. triple claims_ok (h (Inl e)) (\<lambda>_. claims_ok)"
  shows "triple claims_ok (State_Monad.bind (getPivot orc i) h) (\<lambda>_. claims_ok)"
proof (rule triple_bind [OF triple_getPivot [OF assms(1)]])
  fix r :: "store_error + pivot_row option"
  consider rec where "r = Inr (Some rec)" | "r = Inr None" | e where "r = Inl e" by (metis sum.exhaust option.exhaust)
  then show "triple (\<lambda>t. claims_ok t \<and> (\<forall>rec. r = Inr (Some rec) \<longrightarrow> pivot_ok t rec)) (h r) (\<lambda>_. claims_ok)"
    by cases (use assms(2-4) in simp_all)
qed

lemma triple_cas:
  assumes "solo orc"
  shows "triple (pivot_pre rec) (updateCAS orc rec np nb nr) (\<lambda>_. claims_ok)"
    and "triple claims_ok (deleteCAS orc rec) (\<lambda>_. claims_ok)"
  unfolding updateCAS_def deleteCAS_def UpdateCAS_def DeleteCAS_def
  by (rule triple_then_steady [OF triple_write [OF assms, where P = "pivot_pre rec" and I = claims_ok]];
      auto intro!: steady_bind steady_prims intro: cas_claims)
     (rule triple_then_steady [OF triple_write [OF assms, where P = claims_ok and I = claims_ok]];
      auto intro!: steady_bind steady_prims intro: delete_claims)

lemma triple_asyncProvisionBackup:
  assumes "solo orc"
  shows "triple (pivot_pre rec) (asyncProvisionBackup orc rec excl) (\<lambda>_. claims_ok)"
proof -
  note st = steady_bind steadies assms
  have dd: "triple (pivot_pre rec) (asyncDoubleDeath orc rec) (\<lambda>_. claims_ok)"
  proof (cases "FailOpenOnDoubleDeath (oc_cx orc) (v_Pool rec)")
    case True
    then show ?thesis unfolding asyncDoubleDeath_def Let_def
      by (auto intro!: triple_drop_pivot triple_then_steady [OF triple_cas(2) [OF assms]] st split: sum.splits)
  next
    case False
    then show ?thesis unfolding asyncDoubleDeath_def Let_def by (auto intro!: triple_steady_weak st)
  qed
  have ns: "triple (pivot_pre rec) (noSpareBackup orc rec err) (\<lambda>_. claims_ok)" for err
    unfolding noSpareBackup_def
    by (rule triple_after_steady) (auto intro!: st dd triple_steady_weak)
  have pb: "triple (pivot_pre rec) (placeBackup orc rec e) (\<lambda>_. claims_ok)" for e
    unfolding placeBackup_def Let_def
    by (rule triple_then_steady [OF triple_cas(1) [OF assms]]) (auto intro!: st split: sum.splits)
  show ?thesis
    unfolding asyncProvisionBackup_def
    by (rule triple_after_steady)
       (auto intro!: st triple_after_steady [OF steady_prims(7)] ns pb triple_ret split: sum.splits)
qed

lemma triple_ReconcilePool:
  assumes "solo orc"
  shows "triple claims_ok (ReconcilePool orc i) (\<lambda>_. claims_ok)"
proof -
  note st = steady_bind steadies assms
  have cas: "triple (pivot_pre rec) (State_Monad.bind (updateCAS orc rec np nb nr) f) (\<lambda>_. claims_ok)"
    if "\<And>r. steady (f r)" for rec np nb nr and f :: "store_error + unit \<Rightarrow> ('a, reconcile_result) om"
    by (rule triple_then_steady [OF triple_cas(1) [OF assms] that])
  have re: "triple (pivot_pre rec) (retire_step orc rec) (\<lambda>_. claims_ok)" for rec
    unfolding retire_step_def
    by (auto intro!: triple_after_steady cas triple_ret st split: sum.splits)
  have pr: "triple (pivot_pre rec) (promote_step orc rec) (\<lambda>_. claims_ok)" for rec
    unfolding promote_step_def
    by (auto intro!: triple_after_steady cas triple_ret triple_asyncProvisionBackup [OF assms] st split: sum.splits)
  have rd: "triple (pivot_pre rec) (redundancy_step orc rec) (\<lambda>_. claims_ok)" for rec
    unfolding redundancy_step_def
    by (auto intro!: triple_after_steady triple_then_steady [OF triple_asyncProvisionBackup [OF assms]] triple_ret st
        split: option.splits orch_error.splits)
  show ?thesis
    unfolding ReconcilePool_def
    by (rule triple_with_pivot [OF assms]) (auto intro!: triple_after_steady re pr rd triple_ret st)
qed

lemma steady_getPivot [steadies]: "solo orc \<Longrightarrow> steady (getPivot orc i)"
  unfolding getPivot_def by (auto intro!: steady_bind steadies)

lemma triple_cas_bind:
  "solo orc \<Longrightarrow> (\<And>r. steady (f r)) \<Longrightarrow>
   triple (pivot_pre rec) (State_Monad.bind (updateCAS orc rec np nb nr) f) (\<lambda>_. claims_ok)"
  by (rule triple_then_steady [OF triple_cas(1)])

lemma triple_PromoteBackupGen:
  assumes "solo orc"
  shows "triple claims_ok (PromoteBackupGen orc i) (\<lambda>_. claims_ok)"
  unfolding PromoteBackupGen_def
  by (rule triple_with_pivot [OF assms])
     (auto intro!: triple_ret triple_cas_bind steady_bind steadies assms split: sum.splits)

lemma triple_ProvisionBackup:
  assumes "solo orc"
  shows "triple claims_ok (ProvisionBackup orc i excl) (\<lambda>_. claims_ok)"
proof -
  have ap: "triple (pivot_pre rec) (State_Monad.bind (asyncProvisionBackup orc rec excl) f) (\<lambda>_. claims_ok)"
      "triple (pivot_pre rec) (State_Monad.bind (asyncProvisionBackup orc (rec\<lparr>v_Backup := []\<rparr>) excl) f) (\<lambda>_. claims_ok)"
    if "\<And>r. steady (f r)" for rec and f :: "reconcile_result \<Rightarrow> ('a, pool_record option \<times> orch_error option) om"
    using triple_then_steady [OF triple_asyncProvisionBackup [OF assms, of "rec\<lparr>v_Backup := []\<rparr>" excl] that]
      triple_then_steady [OF triple_asyncProvisionBackup [OF assms, of rec excl] that] by simp_all
  show ?thesis
    unfolding ProvisionBackup_def Let_def
    by (rule triple_with_pivot [OF assms])
       (auto intro!: triple_ret steady_prims(1,4) [THEN triple_after_steady] ap steady_bind steadies assms
         split: sum.splits option.splits prod.splits)
qed

text \<open>Computations that keep the claims.\<close>

abbreviation claim_safe :: "('s, 'a) om \<Rightarrow> bool" where
  "claim_safe m \<equiv> triple claims_ok m (\<lambda>_. claims_ok)"

lemma safe_bind: "claim_safe m \<Longrightarrow> (\<And>r. claim_safe (f r)) \<Longrightarrow> claim_safe (State_Monad.bind m f)"
  by (rule triple_bind)

lemmas safe_ops = triple_PromoteBackupGen triple_ProvisionBackup triple_ReconcilePool steady_prims [THEN triple_steady]
  steady_notify [THEN triple_steady] steady_delivery [THEN triple_steady] steady_getPivot [THEN triple_steady]
  steady_store_reads [THEN triple_steady]

lemma safe_drain_primary: "solo orc \<Longrightarrow> claim_safe (drain_primary orc edge ntf rec i)"
  unfolding drain_primary_def
  by (auto intro!: safe_bind safe_ops split: option.splits prod.splits)

lemma safe_drain_loop: "solo orc \<Longrightarrow> claim_safe (drain_loop orc edge ntf acc is)"
  by (induction "is" arbitrary: acc)
     (auto intro!: safe_bind safe_ops safe_drain_primary split: option.splits sum.splits prod.splits)

lemma safe_DecommissionGen: "solo orc \<Longrightarrow> claim_safe (DecommissionGen orc edge)"
  unfolding DecommissionGen_def drainEdgeGen_def
  by (auto intro!: safe_bind safe_ops safe_drain_loop split: sum.splits prod.splits)

section \<open>The life cycle keeps the claims\<close>

text \<open>The members of a pool are apart from each other and from what other pools claim.\<close>

definition admissible :: "pool \<Rightarrow> tables \<Rightarrow> bool" where
  "admissible p t \<longleftrightarrow> apart (m_Prefix ` set (p_Members p) \<union> (\<Union>j \<in> - {p_ID p}. mem_keys t j))"

lemma safe_rollback: "solo orc \<Longrightarrow> claim_safe (rollbackCreate orc rec)"
  unfolding rollbackCreate_def Delete_def
  by (rule safe_bind [OF triple_write]) (auto intro: delete_claims triple_steady steadies)

lemma safe_RemoveMember: "solo orc \<Longrightarrow> claim_safe (orch_RemoveMember orc i pre)"
  unfolding orch_RemoveMember_def Let_def RemoveMember_def
  by (auto intro!: safe_bind safe_ops triple_write steady_deliver [THEN triple_steady]
      split: sum.splits option.splits) (erule (1) remove_claims)

lemma admissible_create:
  assumes "claims_ok t" "admissible p t" "row_of t (p_ID p) = None"
  shows "apart (m_Prefix ` set (p_Members p) \<union> claims t)"
proof -
  have "mem_keys t (p_ID p) = {}"
    using assms(1,3) by (simp add: claims_ok_def absent_keys)
  then have "claims t = (\<Union>j \<in> - {p_ID p}. mem_keys t j)" using claims_split [of t "p_ID p"] by simp
  then show ?thesis using assms(2) by (simp add: admissible_def)
qed

lemma triple_persistCreate:
  assumes "solo orc"
  shows "triple (\<lambda>t. claims_ok t \<and> admissible p t) (persistCreate orc p tokens rec) (\<lambda>_. claims_ok)"
proof -
  let ?rec = "\<lparr>y_Pool = p, y_Primary = pr_Primary rec, y_Backup = pr_Backup rec, y_Tokens = tokens, y_RetiringEdge = []\<rparr>"
  have "claims_ok t'" if "claims_ok t \<and> admissible p t" "tx_CreatePool t ?rec (p_Members p) = Inr t'" for t t'
  proof (rule create_claims [OF _ that(2)])
    show "apart (m_Prefix ` set (p_Members p) \<union> claims t)"
      using that by (intro admissible_create) (simp_all add: tx_CreatePool_Inr)
  qed (use that(1) in simp_all)
  then have "triple (\<lambda>t. claims_ok t \<and> admissible p t)
      (yb orc (write_tx (\<lambda>t. tx_CreatePool t ?rec (p_Members p)))) (\<lambda>_. claims_ok)"
    by (intro triple_write [OF assms]) auto
  then show ?thesis
    unfolding persistCreate_def CreatePool_def
    by (rule triple_bind)
       (auto intro!: safe_bind safe_ops safe_rollback [OF assms] steadies [THEN triple_steady] assms split: sum.splits)
qed

lemma triple_CreatePoolNonceGen:
  assumes "solo orc"
  shows "triple (\<lambda>t. claims_ok t \<and> admissible p t) (CreatePoolNonceGen orc p tokens) (\<lambda>_. claims_ok)"
  unfolding CreatePoolNonceGen_def tryE_def
  by (auto intro!: triple_ret triple_persistCreate [OF assms] steadies [THEN triple_after_steady] assms
      split: sum.splits option.splits prod.splits)

lemma triple_UpdatePoolGen:
  assumes "solo orc"
  shows "triple (\<lambda>t. claims_ok t \<and> admissible p t) (UpdatePoolGen orc p tokens) (\<lambda>_. claims_ok)"
proof -
  have "triple (\<lambda>t. claims_ok t \<and> admissible p t)
      (yb orc (write_tx (\<lambda>t. tx_UpdatePool t (ybr\<lparr>y_Pool := p, y_Tokens := tokens\<rparr>) (p_Members p)))) (\<lambda>_. claims_ok)" for ybr
    by (intro triple_write [OF assms]) (auto simp: admissible_def intro: update_claims)
  then have u: "triple (\<lambda>t. claims_ok t \<and> admissible p t) (State_Monad.bind
      (yb orc (\<lambda>st. UpdatePool st (ybr\<lparr>y_Pool := p, y_Tokens := tokens\<rparr>) (p_Members p))) f) (\<lambda>_. claims_ok)"
    if "\<And>r. claim_safe (f r)" for ybr and f :: "store_error + unit \<Rightarrow> ('a, orch_error + pool_record option \<times> edge_id \<times> u64) om"
    unfolding UpdatePool_def by (rule triple_bind [OF _ that])
  show ?thesis
    unfolding UpdatePoolGen_def Let_def
    by (auto intro!: triple_ret u safe_bind steadies [THEN triple_steady] steady_store_reads(4) [THEN triple_after_steady] assms
        split: sum.splits option.splits)
qed

text \<open>A destroy that puts the pool back claims only what it had.\<close>

lemma triple_restore:
  assumes "solo orc" "p_Members (pr_Pool rec) = ms"
  shows "triple (\<lambda>t. claims_ok t \<and> apart (m_Prefix ` set ms \<union> claims t)) (restoreDestroyed orc rec e cause) (\<lambda>_. claims_ok)"
  unfolding restoreDestroyed_def CreatePool_def
  by (rule triple_bind [OF triple_write [OF assms(1), where I = claims_ok]])
     (auto simp: assms(2) intro: create_claims intro!: safe_bind steadies [THEN triple_steady] assms(1))

lemma safe_DestroyPoolGen:
  assumes "solo orc"
  shows "claim_safe (DestroyPoolGen orc i)"
proof -
  let ?P = "\<lambda>ms t. claims_ok t \<and> apart (m_Prefix ` set ms \<union> claims t)"
  have body: "apart (m_Prefix ` set (p_Members (y_Pool ybr)) \<union> claims t) \<and> claims_ok t"
    if t: "claims_ok t" and g: "q_Get t i = Some ybr" for t ybr
  proof -
    obtain r where "r \<in> set (pools t)" "t_body r = ybr" using g row_of_Some by (auto simp: q_Get_def)
    then have "m_Prefix ` set (p_Members (y_Pool ybr)) = mem_keys t (t_id r)"
      using t unfolding claims_ok_def bodies_ok_def by blast
    then have "m_Prefix ` set (p_Members (y_Pool ybr)) \<subseteq> claims t" using mem_keys_claims by simp
    then show ?thesis using t by (simp add: claims_ok_def Un_absorb1)
  qed
  have get: "triple claims_ok (yb orc (\<lambda>st. Get st i)) (\<lambda>r t. case r of Inr (Some ybr) \<Rightarrow> ?P (p_Members (y_Pool ybr)) t | _ \<Rightarrow> claims_ok t)"
    unfolding Get_def by (rule read_fact [OF assms]) (auto dest: body split: option.splits)
  have del: "triple (?P ms) (yb orc (\<lambda>st. DestroyPool st i)) (\<lambda>_. ?P ms)" for ms
    unfolding DestroyPool_def Delete_def
  proof (rule triple_write [OF assms])
    fix t t' assume t: "?P ms t" and tx: "tx_Delete t i = Inr t'"
    have "claims t' \<subseteq> claims t" using tx by (auto simp: tx_Delete_def claims_def)
    then have "apart (m_Prefix ` set ms \<union> claims t')" using t apart_subset by (metis Un_mono subset_refl)
    then show "?P ms t'" using delete_claims(2) t tx by blast
  qed simp
  have rest: "triple (?P ms) (State_Monad.bind (restoreDestroyed orc rec e x) (\<lambda>err. ret (Inl err))) (\<lambda>_. claims_ok)"
    if "p_Members (pr_Pool rec) = ms" for ms rec e x
    by (rule triple_then_steady [OF triple_restore [OF assms that]]) (auto intro: steadies)
  have weak: "triple (?P ms) (ret x) (\<lambda>_. claims_ok)" for ms and x :: 'x by (rule triple_ret) simp
  have after_get: "claim_safe (State_Monad.bind (yb orc (\<lambda>st. Get st i)) h)"
    if "\<And>ybr. triple (?P (p_Members (y_Pool ybr))) (h (Inr (Some ybr))) (\<lambda>_. claims_ok)"
      "claim_safe (h (Inr None))" "\<And>e. claim_safe (h (Inl e))" for h :: "_ \<Rightarrow> ('a, orch_error + edge_id \<times> u64) om"
  proof (rule triple_bind [OF get])
    fix r :: "store_error + yb_record option"
    show "triple (\<lambda>t. case r of Inr (Some ybr) \<Rightarrow> ?P (p_Members (y_Pool ybr)) t | _ \<Rightarrow> claims_ok t) (h r) (\<lambda>_. claims_ok)"
      using that by (cases r; cases "projr r") simp_all
  qed
  show ?thesis
    unfolding DestroyPoolGen_def Let_def
    by (rule after_get)
       (auto simp: plain_record_def intro!: triple_bind [OF del] steady_withdraw_homes [THEN triple_after_steady]
         steady_confirm_withdraw [THEN triple_after_steady] rest weak triple_ret assms split: sum.splits option.splits prod.splits)
qed

end
