(* ===== verification/Expiry.thy ===== *)
theory Expiry
  imports Anchors Claims
begin

text \<open>
  Expiry of actions (\<open>internal/server/expiry.go\<close>) and the reclaim tick. The text of an action kind is an argument. The sweep decides on the
  listing it reads, which comes from a follower, and destroys through the orchestrator.
\<close>

section \<open>Expiry and reclaim\<close>

definition actionExpired :: "action_spec \<Rightarrow> int \<Rightarrow> bool" where
  "actionExpired a nowMs \<longleftrightarrow> a_ExpiryUnixMs a > 0 \<and> nowMs \<ge> a_ExpiryUnixMs a"

fun expire_loop :: "'s srv \<Rightarrow> (actionKind \<Rightarrow> string) \<Rightarrow> gtime \<Rightarrow> yb_record list \<Rightarrow> ('s, nat) cpm" where
  "expire_loop sv kindString now [] = cret 0"
| "expire_loop sv kindString now (yr # yrs) =
     (let p = y_Pool yr in
      if \<not> actionExpired (p_Action p) (unix_ms now) then expire_loop sv kindString now yrs
      else do {
        r \<leftarrow> orch_call now (DestroyPoolGen (sv_orc sv) (p_ID p));
        (case r of
           Inl _ \<Rightarrow> expire_loop sv kindString now yrs
         | Inr _ \<Rightarrow> do {
             on_cp (emitPoolExpired now (p_ID p) (kindString (a_Kind (p_Action p))));
             n \<leftarrow> expire_loop sv kindString now yrs;
             cret (Suc n)
           })
      })"

definition ExpireActions :: "'s srv \<Rightarrow> (actionKind \<Rightarrow> string) \<Rightarrow> gtime \<Rightarrow> ('s, store_error + nat) cpm" where
  "ExpireActions sv kindString now = do {
     r \<leftarrow> orch_call now (yb (sv_orc sv) ListPools);
     (case r of
        Inl err \<Rightarrow> cret (Inl err)
      | Inr yrs \<Rightarrow> do { n \<leftarrow> expire_loop sv kindString now yrs; cret (Inr n) })
   }"

text \<open>One tick of \<open>RunReclaim\<close>: an error is logged.\<close>

definition reclaim_tick :: "'s srv \<Rightarrow> gtime \<Rightarrow> ('s, unit) cpm" where
  "reclaim_tick sv now = do { _ \<leftarrow> orch_call now (etcd (Reclaim (sv_led sv) (unix_ms now))); cret () }"

section \<open>What a destroy leaves alone\<close>

definition untouched :: "pool_id set \<Rightarrow> tables \<Rightarrow> tables \<Rightarrow> bool" where
  "untouched X t t' \<longleftrightarrow> filter (\<lambda>r. t_id r \<notin> X) (pools t') = filter (\<lambda>r. t_id r \<notin> X) (pools t)
     \<and> filter (\<lambda>r. mt_pool r \<notin> X) (members t') = filter (\<lambda>r. mt_pool r \<notin> X) (members t)"

text \<open>Relative to the tables \<open>t0\<close>: only pools of \<open>X\<close> were touched, and those of \<open>G\<close> are gone.\<close>

definition swept :: "tables \<Rightarrow> pool_id set \<Rightarrow> pool_id set \<Rightarrow> tables \<Rightarrow> bool" where
  "swept t0 X G t \<longleftrightarrow> tables_inv t \<and> untouched X t0 t \<and> (\<forall>j \<in> G. row_of t j = None)"

lemma filter_outside: "i \<in> X \<Longrightarrow> filter (\<lambda>r. f r \<noteq> i \<and> f r \<notin> X) xs = filter (\<lambda>r. f r \<notin> X) xs"
  by (rule filter_cong) auto

text \<open>A write that reports success has committed.\<close>

lemma triple_write_result:
  assumes "solo orc" "\<And>t t'. P t \<Longrightarrow> tx t = Inr t' \<Longrightarrow> R t'" "\<And>t. P t \<Longrightarrow> I t" "\<And>t. R t \<Longrightarrow> I t"
  shows "triple P (yb orc (write_tx tx)) (\<lambda>r t. I t \<and> (\<not> isl r \<longrightarrow> R t))"
proof -
  have "I (tabs (fst (write_tx tx s))) \<and> (\<not> isl (snd (write_tx tx s)) \<longrightarrow> R (tabs (fst (write_tx tx s))))" if "P (tabs s)" for s
    using that assms(2-4)
    by (auto simp: write_tx_def dest!: tabs_next_fault split: prod.splits option.splits fault.splits sum.splits)
  then show ?thesis using assms(1) by (simp add: triple_def yb_def solo_def split_beta)
qed

lemma swept_delete:
  assumes "swept t0 X G t" "i \<in> X" "tx_Delete t i = Inr t'"
  shows "swept t0 X G t'" "row_of t' i = None"
  using assms tx_Delete_inv [of t i t']
  by (auto simp: swept_def untouched_def tx_Delete_def filter_outside row_of_None)

lemma swept_restore:
  assumes "swept t0 X G t" "i \<in> X" "i \<notin> G" "p_ID (y_Pool rec) = i" "tx_CreatePool t rec ms = Inr t'"
  shows "swept t0 X G t'"
  using assms tx_CreatePool_inv [of t rec ms t']
  by (auto simp: swept_def untouched_def tx_CreatePool_Inr row_of_None)

lemma triple_pure: "(B \<Longrightarrow> triple P m Q) \<Longrightarrow> triple (\<lambda>t. P t \<and> B) m Q"
  by (auto simp: triple_def)

text \<open>What the first read of a destroy tells, and what the destroy is to establish.\<close>

definition found :: "tables \<Rightarrow> pool_id set \<Rightarrow> pool_id set \<Rightarrow> pool_id \<Rightarrow> store_error + yb_record option \<Rightarrow> tables \<Rightarrow> bool" where
  "found t0 X G i r t \<longleftrightarrow> swept t0 X G t \<and> (case r of Inl _ \<Rightarrow> True | Inr None \<Rightarrow> row_of t i = None
     | Inr (Some ybr) \<Rightarrow> i \<notin> G \<and> p_ID (y_Pool ybr) = i)"

definition destroy_post :: "tables \<Rightarrow> pool_id set \<Rightarrow> pool_id set \<Rightarrow> pool_id \<Rightarrow> orch_error + 'a \<Rightarrow> tables \<Rightarrow> bool" where
  "destroy_post t0 X G i res t \<longleftrightarrow> swept t0 X G t \<and> (\<not> isl res \<longrightarrow> row_of t i = None)"

lemma triple_get:
  assumes "solo orc"
  shows "triple (swept t0 X G) (yb orc (\<lambda>st. Get st i)) (found t0 X G i)"
  unfolding Get_def
proof (rule read_fact [OF assms])
  fix t and x :: "yb_record option" assume t: "swept t0 X G t" and x: "q_Get t i = x"
  show "found t0 X G i (Inr x) t"
  proof (cases x)
    case None
    then show ?thesis using t x by (simp add: q_Get_def found_def)
  next
    case (Some ybr)
    then obtain r where r: "row_of t i = Some r" "t_body r = ybr" using x by (auto simp: q_Get_def)
    then have "r \<in> set (pools t)" "t_id r = i" using row_of_Some by blast+
    then show ?thesis using t r Some by (auto simp: found_def swept_def tables_inv_def)
  qed
qed (simp add: found_def)

lemma triple_failed: "triple (swept t0 X G) (ret (Inl e)) (destroy_post t0 X G i)"
  by (rule triple_ret) (simp add: destroy_post_def)

lemma triple_gone: "triple (\<lambda>t. swept t0 X G t \<and> row_of t i = None) (ret (Inr z)) (destroy_post t0 X G i)"
  by (rule triple_ret) (simp add: destroy_post_def)

lemma triple_delete:
  assumes "solo orc" "i \<in> X" "triple (\<lambda>t. swept t0 X G t \<and> row_of t i = None) k (destroy_post t0 X G i)"
  shows "triple (swept t0 X G) (State_Monad.bind (yb orc (\<lambda>st. DestroyPool st i))
    (\<lambda>d. case d of Inl e \<Rightarrow> ret (Inl (EStore e)) | Inr _ \<Rightarrow> k)) (destroy_post t0 X G i)"
proof (rule triple_bind)
  show "triple (swept t0 X G) (yb orc (\<lambda>st. DestroyPool st i)) (\<lambda>r t. swept t0 X G t \<and> (\<not> isl r \<longrightarrow> swept t0 X G t \<and> row_of t i = None))"
    unfolding DestroyPool_def Delete_def
    by (rule triple_write_result [OF assms(1)]) (auto dest: swept_delete [OF _ assms(2)])
  fix r :: "store_error + unit"
  show "triple (\<lambda>t. swept t0 X G t \<and> (\<not> isl r \<longrightarrow> swept t0 X G t \<and> row_of t i = None))
      (case r of Inl e \<Rightarrow> ret (Inl (EStore e)) | Inr _ \<Rightarrow> k) (destroy_post t0 X G i)"
  proof (cases r)
    case (Inl e)
    then show ?thesis by (simp only: sum.case) (rule triple_weaken [OF triple_failed], simp_all)
  next
    case (Inr u)
    then show ?thesis by (simp only: sum.case) (rule triple_weaken [OF assms(3)], simp_all)
  qed
qed

lemma triple_put_back:
  assumes "solo orc" "i \<in> X" "p_ID (pr_Pool rec) = i" "i \<notin> G"
  shows "triple (swept t0 X G) (State_Monad.bind (restoreDestroyed orc rec e x) (\<lambda>err. ret (Inl err))) (destroy_post t0 X G i)"
proof (rule triple_bind)
  show "triple (swept t0 X G) (restoreDestroyed orc rec e x) (\<lambda>_. swept t0 X G)"
    unfolding restoreDestroyed_def CreatePool_def
  proof (rule triple_bind [OF triple_write [OF assms(1), where I = "swept t0 X G"]])
    fix t t'
    assume t: "swept t0 X G t" and tx: "tx_CreatePool t \<lparr>y_Pool = pr_Pool rec, y_Primary = pr_Primary rec, y_Backup = pr_Backup rec,
      y_Tokens = pr_Tokens rec, y_RetiringEdge = []\<rparr> (p_Members (pr_Pool rec)) = Inr t'"
    show "swept t0 X G t'" by (rule swept_restore [OF t assms(2,4) _ tx]) (simp add: assms(3))
  qed (auto intro!: triple_steady steady_bind steadies assms(1))
qed (rule triple_failed)

lemma triple_withdraw:
  assumes "solo orc" "i \<in> X" "p_ID (pr_Pool rec) = i" "i \<notin> G"
  shows "triple (\<lambda>t. swept t0 X G t \<and> row_of t i = None) (State_Monad.bind (withdraw_homes orc pri 0 [] es) (\<lambda>wd. case wd of
      Inl (e, x) \<Rightarrow> State_Monad.bind (restoreDestroyed orc rec e x) (\<lambda>err. ret (Inl err))
    | Inr (gen, cross) \<Rightarrow> State_Monad.bind (confirm_withdraw orc cross) (\<lambda>cf. case cf of
          Some (e, x) \<Rightarrow> State_Monad.bind (restoreDestroyed orc rec e x) (\<lambda>err. ret (Inl err))
        | None \<Rightarrow> ret (Inr (pri, gen))))) (destroy_post t0 X G i)"
proof -
  have "triple (\<lambda>t. swept t0 X G t \<and> row_of t i = None)
      (State_Monad.bind (restoreDestroyed orc rec e x) (\<lambda>err. ret (Inl err))) (destroy_post t0 X G i)" for e x
    by (rule triple_weaken [OF triple_put_back [OF assms]]) simp_all
  then show ?thesis
    by (intro triple_after_steady [OF steady_withdraw_homes [OF assms(1)]])
       (auto intro!: triple_gone triple_after_steady [OF steady_confirm_withdraw] split: sum.split option.split)
qed

lemma triple_destroy:
  assumes "solo orc" "i \<in> X"
  shows "triple (swept t0 X G) (DestroyPoolGen orc i) (destroy_post t0 X G i)"
  unfolding DestroyPoolGen_def
proof (rule triple_bind [OF triple_get [OF assms(1)]], goal_cases)
  case (1 r)
  consider e where "r = Inl e" | "r = Inr None" | ybr where "r = Inr (Some ybr)" by (cases r rule: sum.exhaust) (metis option.exhaust)+
  then show ?case
  proof cases
    case 1
    show ?thesis unfolding 1 sum.case by (rule triple_weaken [OF triple_failed]) (simp_all add: found_def)
  next
    case 2
    show ?thesis unfolding 2 sum.case option.case by (rule triple_weaken [OF triple_gone]) (simp_all add: found_def)
  next
    case (3 ybr)
    show ?thesis
      unfolding 3 found_def sum.case option.case Let_def
    proof (rule triple_pure, goal_cases)
      case 1
      then have "p_ID (pr_Pool (plain_record ((y_Pool ybr)\<lparr>p_HomeEdge := y_Primary ybr\<rparr>) (y_Primary ybr) (y_Backup ybr) (y_Tokens ybr))) = i"
        "i \<notin> G" by (simp_all add: plain_record_def)
      from triple_delete [OF assms triple_withdraw [OF assms this]] show ?case .
    qed
  qed
qed

section \<open>What the sweep does\<close>

definition expired_events :: "cp \<Rightarrow> pool_id list" where
  "expired_events cp = map ev_PoolID (filter (\<lambda>ev. ev_Op ev = ''pool-expired'') (produced cp))"

lemma callback_expired [simp]: "expired_events (callback now ev cp) = expired_events cp"
  by (simp add: callback_def notify_defs expired_events_def controller_event_def zero_event_def produced_def Emit_sent enqueuePool_def
      split: event.split)

lemma fold_callback_expired [simp]: "expired_events (fold (callback now) evs cp) = expired_events cp"
  by (rule fold_same) simp

lemma emitPoolExpired_events:
  "cp_emitter cp \<noteq> Noop \<Longrightarrow> expired_events (emitPoolExpired now i k cp) = expired_events cp @ [i]"
  by (simp add: emitPoolExpired_def expired_events_def controller_event_def)

text \<open>The listed pools with an expiry that has passed.\<close>

definition expired_ids :: "gtime \<Rightarrow> yb_record list \<Rightarrow> pool_id list" where
  "expired_ids now yrs = map (\<lambda>yr. p_ID (y_Pool yr))
     (filter (\<lambda>yr. let x = a_ExpiryUnixMs (p_Action (y_Pool yr)) in 0 < x \<and> x \<le> unix_ms now) yrs)"

lemma expired_ids_eq: "expired_ids now yrs = map (\<lambda>yr. p_ID (y_Pool yr)) (filter (\<lambda>yr. actionExpired (p_Action (y_Pool yr)) (unix_ms now)) yrs)"
  by (simp add: expired_ids_def actionExpired_def Let_def)

lemma expire_loop_swept:
  assumes "solo (sv_orc sv)" "set (expired_ids now yrs) \<subseteq> X" "cp_emitter cp \<noteq> Noop"
    and "swept t0 X G (tabs (w_yb w))" "run_state (expire_loop sv ks now yrs) (cp, w) = (n, (cp', w'))"
  shows "\<exists>ids. length ids = n \<and> subseq ids (expired_ids now yrs) \<and> expired_events cp' = expired_events cp @ ids
    \<and> swept t0 X (G \<union> set ids) (tabs (w_yb w'))"
  using assms(2-5)
proof (induction yrs arbitrary: cp w G n)
  case Nil
  then show ?case by (auto intro!: exI [of _ "[]"])
next
  case (Cons yr yrs)
  let ?i = "p_ID (y_Pool yr)"
  show ?case
  proof (cases "actionExpired (p_Action (y_Pool yr)) (unix_ms now)")
    case False
    then show ?thesis using Cons.IH [OF _ Cons.prems(2,3)] Cons.prems(1,4) by (simp add: expired_ids_eq Let_def)
  next
    case True
    then have i: "?i \<in> X" and X: "set (expired_ids now yrs) \<subseteq> X" using Cons.prems(1) by (simp_all add: expired_ids_eq)
    have ids: "expired_ids now (yr # yrs) = ?i # expired_ids now yrs" using True by (simp add: expired_ids_eq)
    obtain r cp1 w1 where d: "run_state (orch_call now (DestroyPoolGen (sv_orc sv) ?i)) (cp, w) = (r, (cp1, w1))" by (rule prod_cases3)
    have "swept t0 X G (tabs (w_yb w1)) \<and> (\<not> isl r \<longrightarrow> row_of (tabs (w_yb w1)) ?i = None)"
      using triple_destroy [OF assms(1) i, of t0 G] Cons.prems(3) d by (auto simp: triple_def destroy_post_def run_orch_call)
    then have sw: "swept t0 X G (tabs (w_yb w1))" and gone: "\<not> isl r \<Longrightarrow> swept t0 X (insert ?i G) (tabs (w_yb w1))"
      by (auto simp: swept_def)
    have cp1: "expired_events cp1 = expired_events cp" "cp_emitter cp1 = cp_emitter cp" using d by (auto simp: run_orch_call)
    show ?thesis
    proof (cases r)
      case (Inl err)
      then have "run_state (expire_loop sv ks now yrs) (cp1, w1) = (n, (cp', w'))" using Cons.prems(4) True d by (simp add: Let_def)
      from Cons.IH [OF X _ sw this] cp1 Cons.prems(2) obtain ids where "length ids = n \<and> subseq ids (expired_ids now yrs)
          \<and> expired_events cp' = expired_events cp @ ids \<and> swept t0 X (G \<union> set ids) (tabs (w_yb w'))" by auto
      then show ?thesis unfolding ids by (intro exI [of _ ids]) auto
    next
      case (Inr u)
      let ?cp = "emitPoolExpired now ?i (ks (a_Kind (p_Action (y_Pool yr)))) cp1"
      obtain m where m: "run_state (expire_loop sv ks now yrs) (?cp, w1) = (m, (cp', w'))" "n = Suc m"
        using Cons.prems(4) True d Inr by (auto simp: Let_def split: prod.splits)
      have "cp_emitter ?cp \<noteq> Noop" using cp1 Cons.prems(2) by (simp add: emitPoolExpired_def)
      from Cons.IH [OF X this gone m(1)] Inr obtain ids where "length ids = m" "subseq ids (expired_ids now yrs)"
          "expired_events cp' = expired_events ?cp @ ids" "swept t0 X (insert ?i G \<union> set ids) (tabs (w_yb w'))" by auto
      moreover have "expired_events ?cp = expired_events cp @ [?i]" using emitPoolExpired_events [of cp1] cp1 Cons.prems(2) by simp
      ultimately show ?thesis unfolding ids using m(2) by (intro exI [of _ "?i # ids"]) auto
    qed
  qed
qed


section \<open>A sweep\<close>

text \<open>Pool 1 has no expiry, pool 2 is a blackhole that expires after one second; the listing may be the one of a follower.\<close>

definition demo_blackhole :: "int \<Rightarrow> yb_record" where
  "demo_blackhole ms = (let yr = demo_yb_rec 2 [host4 9] 7; p = y_Pool yr in
     yr\<lparr>y_Pool := p\<lparr>p_Action := (p_Action p)\<lparr>a_Kind := ActionBlackhole, a_ExpiryUnixMs := ms\<rparr>\<rparr>\<rparr>)"

definition demo_holed :: "int \<Rightarrow> tables" where
  "demo_holed ms = (case tx_CreatePool demo_tables (demo_blackhole ms) [\<lparr>m_Prefix = host4 9\<rparr>] of Inr t \<Rightarrow> t | Inl _ \<Rightarrow> demo_tables)"

definition demo_hole_world :: "int \<Rightarrow> int \<Rightarrow> cluster world" where
  "demo_hole_world cur old = demo_world\<lparr>w_yb := \<lparr>tabs = demo_holed cur, snap = demo_holed old, faults = []\<rparr>,
     w_etcd := \<lparr>cl_log = take 1 demo_agents, cl_peers = [], cl_faults = []\<rparr>\<rparr>"

definition demo_kind :: "actionKind \<Rightarrow> string" where
  "demo_kind k = (case k of ActionRateLimit \<Rightarrow> ''rate_limit'' | ActionBlackhole \<Rightarrow> ''blackhole'' | ActionScrub \<Rightarrow> ''scrub'')"

lemma demo_holed_inv: "tables_inv (demo_holed ms)"
  using demo_tables_inv(1) tx_CreatePool_inv [of demo_tables "demo_blackhole ms" "[\<lparr>m_Prefix = host4 9\<rparr>]"]
  by (auto simp: demo_holed_def split: sum.splits)

lemma demo_solo_orch: "solo (sv_orc demo_srv)"
  by (simp add: demo_srv_def demo_orch_def solo_def)

abbreviation demo_sweep :: "int \<Rightarrow> int \<Rightarrow> (store_error + nat) \<times> cp \<times> cluster world" where
  "demo_sweep cur old \<equiv> run_state (ExpireActions demo_srv demo_kind (seconds 2)) (demo_cp, demo_hole_world cur old)"


text \<open>The listing is a follower's: a pool whose expiry was moved to the next hour after the follower's snapshot is destroyed all the same.\<close>

lemma renewed_pool_expires:
  "expired_events (fst (snd (demo_sweep 3600000 1000))) = [2] \<and> row_of (tabs (w_yb (snd (snd (demo_sweep 3600000 1000))))) 2 = None"
  by code_simp

end
