(* ===== verification/Config.thy ===== *)
theory Config
  imports NetipParse Contract
begin

text \<open>
  The configuration (\<open>internal/server/config.go\<close>) and what \<open>cmd/sbw-server/main.go\<close> computes from it: next hops, home marker and
  edge numbers. The file reader and the environment getters of the contract's \<open>config\<close> package are arguments; a getter that
  fails still returns a value, which the code stores before it looks at the error.
\<close>

unbundle bit_operations_syntax

section \<open>The records\<close>

record log_config =
  lg_Level :: string
  lg_Format :: string

record etcd_config =
  et_Endpoints :: "string list"
  et_Prefix :: string
  et_ReservationTTL :: duration

record yugabyte_config =
  yc_DSN :: string
  yc_CapRefresh :: duration

record home_marker_config =
  hm_Enabled :: bool
  hm_GlobalAdmin :: "32 word"
  hm_LocalData1 :: "32 word"

record sharding_config =
  sh_K :: int
  sh_FailoverQuorum :: int
  sh_LeaseTTL :: duration
  sh_HardDebounce :: duration
  sh_VPPRestartGrace :: duration

text \<open>The maps of next hops are lists of pairs, in the order an iteration visits them.\<close>

record server_config =
  sc_Log :: log_config
  sc_Etcd :: etcd_config
  sc_Yugabyte :: yugabyte_config
  sc_ServerCovererListenAddr :: string
  sc_MetricsListenAddr :: string
  sc_AdminListenAddr :: string
  sc_Replicas :: int
  sc_EdgeAddrs :: "(edge_id \<times> string) list"
  sc_EdgeAddrs6 :: "(edge_id \<times> string) list"
  sc_HomeMarker :: home_marker_config
  sc_DriftSweepInterval :: duration
  sc_ReplicaID :: string
  sc_Sharding :: sharding_config
  sc_RedpandaBrokers :: "string list"
  sc_APIResultsTopic :: string

definition defaultHomeMarkerGlobalAdmin :: "32 word" where
  "defaultHomeMarkerGlobalAdmin = 65010"

definition WithDefaults :: "sharding_config \<Rightarrow> sharding_config" where
  "WithDefaults s =
     (let s = (if sh_K s = 0 then s\<lparr>sh_K := 2\<rparr> else s);
          s = (if sh_FailoverQuorum s = 0 then s\<lparr>sh_FailoverQuorum := sh_K s\<rparr> else s);
          s = (if sh_FailoverQuorum s < 1 then s\<lparr>sh_FailoverQuorum := 1\<rparr> else s);
          s = (if sh_FailoverQuorum s > sh_K s then s\<lparr>sh_FailoverQuorum := sh_K s\<rparr> else s);
          s = (if sh_LeaseTTL s = 0 then s\<lparr>sh_LeaseTTL := seconds 10\<rparr> else s);
          s = (if sh_HardDebounce s = 0 then s\<lparr>sh_HardDebounce := seconds 3\<rparr> else s);
          s = (if sh_VPPRestartGrace s = 0 then s\<lparr>sh_VPPRestartGrace := seconds 5\<rparr> else s)
      in s)"

definition ResolveReplicaID :: "string \<Rightarrow> string" where
  "ResolveReplicaID replicaID = (if replicaID \<noteq> [] then replicaID else ''server'')"

section \<open>Loading\<close>

text \<open>\<open>cf_FormatJSON\<close> is a constant of the contract's \<open>logx\<close> package.\<close>

record config_env =
  cf_FormatJSON :: string
  cf_LoadFile :: "string \<Rightarrow> server_config \<Rightarrow> string option \<times> server_config"
  cf_String :: "string \<Rightarrow> string \<Rightarrow> string"
  cf_Strings :: "string \<Rightarrow> string list \<Rightarrow> string list"
  cf_Int :: "string \<Rightarrow> int \<Rightarrow> string option \<times> int"
  cf_Uint32 :: "string \<Rightarrow> 32 word \<Rightarrow> string option \<times> 32 word"
  cf_Bool :: "string \<Rightarrow> bool \<Rightarrow> string option \<times> bool"
  cf_DurationEnv :: "string \<Rightarrow> duration \<Rightarrow> string option \<times> duration"

definition DefaultConfig :: "config_env \<Rightarrow> server_config" where
  "DefaultConfig env =
     \<lparr>sc_Log = \<lparr>lg_Level = ''info'', lg_Format = cf_FormatJSON env\<rparr>,
      sc_Etcd = \<lparr>et_Endpoints = [''127.0.0.1:2379''], et_Prefix = ''sbw/'', et_ReservationTTL = seconds 30\<rparr>,
      sc_Yugabyte = \<lparr>yc_DSN = [], yc_CapRefresh = seconds 5\<rparr>,
      sc_ServerCovererListenAddr = '':1792'', sc_MetricsListenAddr = '':9101'', sc_AdminListenAddr = '':8080'',
      sc_Replicas = 0, sc_EdgeAddrs = [], sc_EdgeAddrs6 = [],
      sc_HomeMarker = \<lparr>hm_Enabled = False, hm_GlobalAdmin = 0, hm_LocalData1 = 0\<rparr>,
      sc_DriftSweepInterval = seconds 30, sc_ReplicaID = [],
      sc_Sharding = \<lparr>sh_K = 0, sh_FailoverQuorum = 0, sh_LeaseTTL = 0, sh_HardDebounce = 0, sh_VPPRestartGrace = 0\<rparr>,
      sc_RedpandaBrokers = [], sc_APIResultsTopic = ''sbw.api.results''\<rparr>"

datatype config_error =
    FileError string
  | EnvError string
  | NoEndpoints
  | NoListenAddr
  | BadEdgeAddr edge_id string
  | BadEdgeAddr6 edge_id string
  | NegativeK int

type_synonym config_step = "server_config \<Rightarrow> string option \<times> server_config"

text \<open>A line without an error, a line with one, and the sequence that stops at the first error.\<close>

definition plain :: "(server_config \<Rightarrow> server_config) \<Rightarrow> config_step" where
  "plain f c = (None, f c)"

definition checked :: "(server_config \<Rightarrow> string option \<times> 'a) \<Rightarrow> ('a \<Rightarrow> server_config \<Rightarrow> server_config) \<Rightarrow> config_step" where
  "checked g upd c = (case g c of (err, x) \<Rightarrow> (err, upd x c))"

fun config_steps :: "config_step list \<Rightarrow> config_step" where
  "config_steps [] c = (None, c)"
| "config_steps (f # fs) c = (case f c of (Some err, c) \<Rightarrow> (Some err, c) | (None, c) \<Rightarrow> config_steps fs c)"

definition applyEnv :: "config_env \<Rightarrow> config_step" where
  "applyEnv env = config_steps [
     plain (\<lambda>c. c\<lparr>sc_Log := (sc_Log c)\<lparr>lg_Level := cf_String env ''LOG_LEVEL'' (lg_Level (sc_Log c))\<rparr>\<rparr>),
     plain (\<lambda>c. c\<lparr>sc_Log := (sc_Log c)\<lparr>lg_Format := cf_String env ''LOG_FORMAT'' (lg_Format (sc_Log c))\<rparr>\<rparr>),
     plain (\<lambda>c. c\<lparr>sc_Etcd := (sc_Etcd c)\<lparr>et_Endpoints := cf_Strings env ''ETCD_ENDPOINTS'' (et_Endpoints (sc_Etcd c))\<rparr>\<rparr>),
     plain (\<lambda>c. c\<lparr>sc_Etcd := (sc_Etcd c)\<lparr>et_Prefix := cf_String env ''ETCD_PREFIX'' (et_Prefix (sc_Etcd c))\<rparr>\<rparr>),
     checked (\<lambda>c. cf_DurationEnv env ''ETCD_RESERVATION_TTL'' (et_ReservationTTL (sc_Etcd c)))
       (\<lambda>x c. c\<lparr>sc_Etcd := (sc_Etcd c)\<lparr>et_ReservationTTL := x\<rparr>\<rparr>),
     plain (\<lambda>c. c\<lparr>sc_Yugabyte := (sc_Yugabyte c)\<lparr>yc_DSN := cf_String env ''YB_DSN'' (yc_DSN (sc_Yugabyte c))\<rparr>\<rparr>),
     checked (\<lambda>c. cf_DurationEnv env ''YB_CAP_REFRESH'' (yc_CapRefresh (sc_Yugabyte c)))
       (\<lambda>x c. c\<lparr>sc_Yugabyte := (sc_Yugabyte c)\<lparr>yc_CapRefresh := x\<rparr>\<rparr>),
     plain (\<lambda>c. if yc_CapRefresh (sc_Yugabyte c) = 0 then c\<lparr>sc_Yugabyte := (sc_Yugabyte c)\<lparr>yc_CapRefresh := seconds 5\<rparr>\<rparr> else c),
     plain (\<lambda>c. c\<lparr>sc_ServerCovererListenAddr := cf_String env ''SERVER_COVERER_LISTEN_ADDR'' (sc_ServerCovererListenAddr c)\<rparr>),
     plain (\<lambda>c. c\<lparr>sc_MetricsListenAddr := cf_String env ''METRICS_LISTEN_ADDR'' (sc_MetricsListenAddr c)\<rparr>),
     plain (\<lambda>c. c\<lparr>sc_AdminListenAddr := cf_String env ''ADMIN_LISTEN_ADDR'' (sc_AdminListenAddr c)\<rparr>),
     checked (\<lambda>c. cf_Int env ''REPLICAS'' (sc_Replicas c)) (\<lambda>x c. c\<lparr>sc_Replicas := x\<rparr>),
     plain (\<lambda>c. c\<lparr>sc_ReplicaID := cf_String env ''REPLICA_ID'' (sc_ReplicaID c)\<rparr>),
     checked (\<lambda>c. cf_Bool env ''HOME_MARKER_ENABLED'' (hm_Enabled (sc_HomeMarker c)))
       (\<lambda>x c. c\<lparr>sc_HomeMarker := (sc_HomeMarker c)\<lparr>hm_Enabled := x\<rparr>\<rparr>),
     checked (\<lambda>c. cf_Uint32 env ''HOME_MARKER_GLOBAL_ADMIN'' (hm_GlobalAdmin (sc_HomeMarker c)))
       (\<lambda>x c. c\<lparr>sc_HomeMarker := (sc_HomeMarker c)\<lparr>hm_GlobalAdmin := x\<rparr>\<rparr>),
     plain (\<lambda>c. if hm_GlobalAdmin (sc_HomeMarker c) = 0
       then c\<lparr>sc_HomeMarker := (sc_HomeMarker c)\<lparr>hm_GlobalAdmin := defaultHomeMarkerGlobalAdmin\<rparr>\<rparr> else c),
     checked (\<lambda>c. cf_Uint32 env ''HOME_MARKER_LOCAL_DATA1'' (hm_LocalData1 (sc_HomeMarker c)))
       (\<lambda>x c. c\<lparr>sc_HomeMarker := (sc_HomeMarker c)\<lparr>hm_LocalData1 := x\<rparr>\<rparr>),
     checked (\<lambda>c. cf_Int env ''SHARDING_K'' (sh_K (sc_Sharding c))) (\<lambda>x c. c\<lparr>sc_Sharding := (sc_Sharding c)\<lparr>sh_K := x\<rparr>\<rparr>),
     checked (\<lambda>c. cf_Int env ''SHARDING_FAILOVER_QUORUM'' (sh_FailoverQuorum (sc_Sharding c)))
       (\<lambda>x c. c\<lparr>sc_Sharding := (sc_Sharding c)\<lparr>sh_FailoverQuorum := x\<rparr>\<rparr>),
     checked (\<lambda>c. cf_DurationEnv env ''SHARDING_LEASE_TTL'' (sh_LeaseTTL (sc_Sharding c)))
       (\<lambda>x c. c\<lparr>sc_Sharding := (sc_Sharding c)\<lparr>sh_LeaseTTL := x\<rparr>\<rparr>),
     checked (\<lambda>c. cf_DurationEnv env ''SHARDING_HARD_DEBOUNCE'' (sh_HardDebounce (sc_Sharding c)))
       (\<lambda>x c. c\<lparr>sc_Sharding := (sc_Sharding c)\<lparr>sh_HardDebounce := x\<rparr>\<rparr>),
     checked (\<lambda>c. cf_DurationEnv env ''SHARDING_VPP_RESTART_GRACE'' (sh_VPPRestartGrace (sc_Sharding c)))
       (\<lambda>x c. c\<lparr>sc_Sharding := (sc_Sharding c)\<lparr>sh_VPPRestartGrace := x\<rparr>\<rparr>),
     plain (\<lambda>c. c\<lparr>sc_RedpandaBrokers := cf_Strings env ''REDPANDA_BROKERS'' (sc_RedpandaBrokers c)\<rparr>),
     plain (\<lambda>c. c\<lparr>sc_APIResultsTopic := cf_String env ''API_RESULTS_TOPIC'' (sc_APIResultsTopic c)\<rparr>),
     plain (\<lambda>c. if sc_APIResultsTopic c = [] then c\<lparr>sc_APIResultsTopic := ''sbw.api.results''\<rparr> else c),
     checked (\<lambda>c. cf_DurationEnv env ''DRIFT_SWEEP_INTERVAL'' (sc_DriftSweepInterval c)) (\<lambda>x c. c\<lparr>sc_DriftSweepInterval := x\<rparr>),
     plain (\<lambda>c. if sc_DriftSweepInterval c = 0 then c\<lparr>sc_DriftSweepInterval := seconds 30\<rparr> else c)]"

text \<open>\<open>netip.ParseAddr\<close> with the zone of a scoped address, which the model does not keep.\<close>

definition ParseScoped :: "string \<Rightarrow> addr option" where
  "ParseScoped s =
     (case find (\<lambda>c. c = CHR ''.'' \<or> c = CHR '':'' \<or> c = CHR ''%'') s of
        None \<Rightarrow> None
      | Some c \<Rightarrow>
          if c = CHR ''.'' then parseIPv4 s
          else if c = CHR '':'' then
            (let ip = takeWhile (\<lambda>c. c \<noteq> CHR ''%'') s; zone = drop (length ip + 1) s
             in if ip \<noteq> s \<and> zone = [] then None else parseIPv6 ip)
          else None)"

text \<open>The first next hop that does not parse or is of the other family.\<close>

definition bad_addr :: "(addr \<Rightarrow> bool) \<Rightarrow> (edge_id \<times> string) list \<Rightarrow> (edge_id \<times> string) option" where
  "bad_addr fam eas = find (\<lambda>(e, s). case ParseScoped s of None \<Rightarrow> True | Some a \<Rightarrow> \<not> fam a) eas"

definition Validate :: "server_config \<Rightarrow> config_error option" where
  "Validate c =
     (if et_Endpoints (sc_Etcd c) = [] then Some NoEndpoints
      else if sc_ServerCovererListenAddr c = [] then Some NoListenAddr
      else case bad_addr Is4 (sc_EdgeAddrs c) of
        Some (e, s) \<Rightarrow> Some (BadEdgeAddr e s)
      | None \<Rightarrow>
          (case bad_addr Is6 (sc_EdgeAddrs6 c) of
             Some (e, s) \<Rightarrow> Some (BadEdgeAddr6 e s)
           | None \<Rightarrow> if sh_K (sc_Sharding c) < 0 then Some (NegativeK (sh_K (sc_Sharding c))) else None))"

definition LoadConfig :: "config_env \<Rightarrow> string \<Rightarrow> server_config \<times> config_error option" where
  "LoadConfig env path =
     (case cf_LoadFile env path (DefaultConfig env) of
        (Some err, cfg) \<Rightarrow> (cfg, Some (FileError err))
      | (None, cfg) \<Rightarrow>
          (case applyEnv env cfg of
             (Some err, cfg) \<Rightarrow> (cfg, Some (EnvError err))
           | (None, cfg) \<Rightarrow> (cfg, Validate cfg)))"

section \<open>What the entry point computes\<close>

text \<open>The loop with \<open>netip.MustParseAddr\<close>; \<open>None\<close> is its panic.\<close>

fun next_hops :: "(edge_id \<times> string) list \<Rightarrow> (edge_id \<rightharpoonup> addr) option" where
  "next_hops [] = Some Map.empty"
| "next_hops ((e, s) # eas) = (case ParseScoped s of
     None \<Rightarrow> None | Some a \<Rightarrow> map_option (\<lambda>m. m(e \<mapsto> a)) (next_hops eas))"

text \<open>\<open>hash/fnv\<close>'s 32-bit FNV-1a\<close>

definition fnv32a :: "string \<Rightarrow> 32 word" where
  "fnv32a s = foldl (\<lambda>h c. (h XOR of_char c) * 16777619) 2166136261 s"

text \<open>\<open>strconv.ParseUint(s, 10, 32)\<close>\<close>

definition ParseUint32 :: "string \<Rightarrow> 32 word option" where
  "ParseUint32 s = (if s = [] then None else
     case parse_digits 0 s of
       None \<Rightarrow> None
     | Some n \<Rightarrow> if n < 2 ^ 32 then Some (word_of_int n) else None)"

definition edgeNum :: "edge_id \<Rightarrow> 32 word" where
  "edgeNum e =
     (let ds = rev (takeWhile (\<lambda>c. digit_val c \<noteq> None) (rev e))
      in if ds = [] then fnv32a e
         else case ParseUint32 ds of Some n \<Rightarrow> n | None \<Rightarrow> fnv32a e)"

definition homeMarkerFn :: "home_marker_config \<Rightarrow> (edge_id \<Rightarrow> large_community option) option" where
  "homeMarkerFn hm =
     (if \<not> hm_Enabled hm then None
      else
        let ga = (if hm_GlobalAdmin hm = 0 then 65010 else hm_GlobalAdmin hm);
            ld1 = (if hm_LocalData1 hm = 0 then 101 else hm_LocalData1 hm)
        in Some (\<lambda>e. Some (ga, ld1, edgeNum e)))"

section \<open>What a loaded configuration satisfies\<close>

lemma WithDefaults_range:
  assumes "0 \<le> sh_K s"
  shows "1 \<le> sh_K (WithDefaults s)" "1 \<le> sh_FailoverQuorum (WithDefaults s)"
    "sh_FailoverQuorum (WithDefaults s) \<le> sh_K (WithDefaults s)"
  using assms by (auto simp: WithDefaults_def Let_def)

lemma next_hops_ok:
  assumes "bad_addr fam eas = None"
  shows "\<exists>m. next_hops eas = Some m \<and> dom m = fst ` set eas \<and> (\<forall>e a. m e = Some a \<longrightarrow> fam a)"
proof -
  have "\<exists>m. next_hops eas = Some m \<and> dom m = fst ` set eas \<and> (\<forall>e a. m e = Some a \<longrightarrow> fam a)"
    if "\<forall>(e, s) \<in> set eas. \<exists>a. ParseScoped s = Some a \<and> fam a"
    using that
  proof (induction eas)
    case (Cons es eas)
    obtain e s where es: "es = (e, s)" by (cases es)
    from Cons.prems es obtain a where a: "ParseScoped s = Some a" "fam a" by auto
    from Cons obtain m where m: "next_hops eas = Some m" "dom m = fst ` set eas" "\<forall>e a. m e = Some a \<longrightarrow> fam a" by auto
    then have "next_hops (es # eas) = Some (m(e \<mapsto> a))" "dom (m(e \<mapsto> a)) = fst ` set (es # eas)"
      "\<forall>e' a'. (m(e \<mapsto> a)) e' = Some a' \<longrightarrow> fam a'" using a by (simp_all add: es)
    then show ?case by blast
  qed simp
  moreover have "\<forall>(e, s) \<in> set eas. \<exists>a. ParseScoped s = Some a \<and> fam a"
    using assms by (fastforce simp: bad_addr_def find_None_iff split: option.splits)
  ultimately show ?thesis by blast
qed

lemma config_steps_last:
  "config_steps fs c = (None, c') \<Longrightarrow> fs \<noteq> [] \<Longrightarrow> \<exists>c1. last fs c1 = (None, c')"
proof (induction fs arbitrary: c)
  case (Cons f fs)
  then obtain c1 where "f c = (None, c1)" "config_steps fs c1 = (None, c')" by (auto split: prod.splits option.splits)
  then show ?case using Cons.IH by (cases fs) auto
qed simp

lemma applyEnv_interval:
  assumes "applyEnv env c = (None, c')"
  shows "sc_DriftSweepInterval c' \<noteq> 0"
proof -
  from config_steps_last [OF assms [unfolded applyEnv_def]] obtain c1 where
    "plain (\<lambda>c. if sc_DriftSweepInterval c = 0 then c\<lparr>sc_DriftSweepInterval := seconds 30\<rparr> else c) c1 = (None, c')" by auto
  then show ?thesis by (auto simp: plain_def split: if_splits)
qed

lemma Validate_None:
  assumes "Validate c = None"
  shows "et_Endpoints (sc_Etcd c) \<noteq> []" "sc_ServerCovererListenAddr c \<noteq> []" "bad_addr Is4 (sc_EdgeAddrs c) = None"
    "bad_addr Is6 (sc_EdgeAddrs6 c) = None" "0 \<le> sh_K (sc_Sharding c)"
  using assms by (auto simp: Validate_def split: if_splits option.splits)

lemma LoadConfig_ok:
  assumes "LoadConfig env path = (cfg, None)"
  shows "sc_DriftSweepInterval cfg \<noteq> 0" "Validate cfg = None"
  using assms applyEnv_interval by (auto simp: LoadConfig_def split: prod.splits option.splits)

section \<open>Edge numbers\<close>

lemma parse_digits_digits: "parse_digits acc cs = Some n \<Longrightarrow> \<forall>c \<in> set cs. digit_val c \<noteq> None"
  by (induction cs arbitrary: acc) (auto split: option.splits)

text \<open>The number an edge id ends with is its number in the marker.\<close>

lemma edgeNum_trailing:
  assumes "name = [] \<or> digit_val (last name) = None" "0 \<le> n" "n < 2 ^ 32"
  shows "edgeNum (name @ show_dec n) = word_of_int n"
proof -
  have p: "parse_digits 0 (show_dec n) = Some n" using assms(2,3) by (intro parse_show_dec) simp_all
  have "takeWhile (\<lambda>c. digit_val c \<noteq> None) (rev name) = []"
    using assms(1) by (cases name rule: rev_cases) simp_all
  then have "takeWhile (\<lambda>c. digit_val c \<noteq> None) (rev (name @ show_dec n)) = rev (show_dec n)"
    using parse_digits_digits [OF p] by (simp only: rev_append) (subst takeWhile_append2, simp_all)
  then show ?thesis using p assms(3) show_dec_not_Nil by (simp add: edgeNum_def ParseUint32_def)
qed

end
