(* ===== verification/Admin.thy ===== *)
theory Admin
  imports ControlPlane Claims
begin

text \<open>
  The admin API (\<open>internal/server/admin.go\<close>). A handler takes the decoded request and returns the response: the
  status code and what the body says. A request that does not decode is \<open>None\<close>; the random request id of a call is an
  argument. The legacy branch for \<open>poolstore.ErrReplay\<close> has no counterpart, because no modelled operation returns it.
\<close>

section \<open>Requests and responses\<close>

record pool_request =
  rq_Pool :: pool
  rq_Tokens :: int
  rq_Replace :: bool
  rq_Timestamp :: int
  rq_Nonce :: string

record member_ref =
  mr_PoolID :: pool_id
  mr_CIDR :: string
  mr_Home :: edge_id

datatype ingest_error =
    NoMembers pool_id
  | InvalidMember pfx string
  | MembersOverlap pfx pfx
  | BlackholeNeedsTTL
  | ActionUnsupported actionKind

datatype admin_error =
    InvalidJSON
  | InvalidPool ingest_error
  | StaleTimestamp int int
  | NoTokenCost
  | OverlapCheckFailed orch_error
  | NoPlacementFor orch_error
  | OpFailed orch_error
  | EvictFailed pfx pool_id orch_error
  | IDMismatch pool_id pool_id
  | StoreFailed store_error
  | PoolNotFound pool_id
  | BadPoolID
  | MissingAgent
  | ListAgentsFailed reg_error
  | NoBackupFor pool_id

datatype resp_body =
    ErrorBody admin_error
  | ConflictBody "member_ref list"
  | PoolBody "pool_record option" "member_ref list" string u64
  | DestroyBody string pool_id edge_id u64
  | RecordBody pool_record
  | RecordsBody "pool_record list"
  | AgentsBody "agent list"
  | DecommissionBody edge_id string u64
  | MigrateBody pool_id edge_id edge_id bool string u64

record response =
  rs_status :: int
  rs_body :: resp_body

definition writeErr :: "int \<Rightarrow> admin_error \<Rightarrow> response" where
  "writeErr status err = \<lparr>rs_status = status, rs_body = ErrorBody err\<rparr>"

definition refsOf :: "srcmap_record list \<Rightarrow> member_ref list" where
  "refsOf recs = map (\<lambda>r. \<lparr>mr_PoolID = sm_PoolID r, mr_CIDR = pfx_String (sm_Src r), mr_Home = sm_Home r\<rparr>) recs"

section \<open>Ingestion\<close>

text \<open>The loop over the members, with the ones before it.\<close>

fun validate_members :: "contract \<Rightarrow> member list \<Rightarrow> member list \<Rightarrow> ingest_error option" where
  "validate_members cx before [] = None"
| "validate_members cx before (m # ms) =
     (case Member_Validate cx m of
        Some err \<Rightarrow> Some (InvalidMember (m_Prefix m) err)
      | None \<Rightarrow>
          (case find (\<lambda>q. Overlaps (m_Prefix q) (m_Prefix m)) before of
             Some q \<Rightarrow> Some (MembersOverlap (m_Prefix m) (m_Prefix q))
           | None \<Rightarrow> validate_members cx (before @ [m]) ms))"

definition ingestValidate :: "contract \<Rightarrow> pool \<Rightarrow> ingest_error option" where
  "ingestValidate cx p =
     (if p_Members p = [] then Some (NoMembers (p_ID p))
      else case validate_members cx [] (p_Members p) of
        Some err \<Rightarrow> Some err
      | None \<Rightarrow>
          (case a_Kind (p_Action p) of
             ActionRateLimit \<Rightarrow> None
           | ActionBlackhole \<Rightarrow> if a_ExpiryUnixMs (p_Action p) \<le> 0 then Some BlackholeNeedsTTL else None
           | k \<Rightarrow> Some (ActionUnsupported k)))"

definition normalizeUnlimited :: "pool_request \<Rightarrow> pool_request" where
  "normalizeUnlimited req =
     (if rq_Tokens req < 0
      then let p = rq_Pool req in
        req\<lparr>rq_Pool := p\<lparr>p_EgressRate := (p_EgressRate p)\<lparr>r_CIR := 0\<rparr>,
              p_IngressRate := (p_IngressRate p)\<lparr>r_CIR := 0\<rparr>\<rparr>, rq_Tokens := 0\<rparr>
      else req)"

definition tokensForPool :: "pool \<Rightarrow> int option" where
  "tokensForPool p =
     (if a_Kind (p_Action p) \<noteq> ActionRateLimit then Some 1
      else case r_Type (p_EgressRate p) of
        RateKbps \<Rightarrow> Some (wrap64 (sint (r_CIR (p_EgressRate p)) * 1000))
      | RateOther \<Rightarrow> None)"

text \<open>The cost of a request: its own, or the derived one.\<close>

definition tokens_of :: "pool_request \<Rightarrow> int option" where
  "tokens_of req = (if rq_Tokens req = 0 then tokensForPool (rq_Pool req) else Some (rq_Tokens req))"

definition defaultCreateWindow :: duration where
  "defaultCreateWindow = 5 * 60 * 1000000000"

text \<open>The anti-replay window: the drift and the skew of a refused timestamp.\<close>

definition timestamp_refused :: "duration \<Rightarrow> gtime \<Rightarrow> int \<Rightarrow> (int \<times> int) option" where
  "timestamp_refused window now ts =
     (if ts = 0 then None
      else let skew = (if window \<le> 0 then defaultCreateWindow else window);
               drift = wrap64 (wrap64 (unix_ms now - ts) * 1000000)
           in if drift < - skew \<or> drift > skew then Some (drift, skew) else None)"

definition parsePoolID :: "string \<Rightarrow> pool_id option" where
  "parsePoolID s = (case ParseUint s of None \<Rightarrow> None | Some n \<Rightarrow> if unat n < 2 ^ 32 then Some (unat n) else None)"

section \<open>Overlap policy\<close>

definition resolveOverlaps ::
  "'s srv \<Rightarrow> gtime \<Rightarrow> pool \<Rightarrow> bool \<Rightarrow> ('s, response + srcmap_record list) cpm"
where
  "resolveOverlaps sv now p replace = do {
     r \<leftarrow> orch_call now (orch_MemberConflicts (sv_orc sv) (p_Members p) (p_ID p));
     cret (case r of
         Inl err \<Rightarrow> Inl (writeErr 500 (OverlapCheckFailed err))
       | Inr conflicts \<Rightarrow>
           if conflicts \<noteq> [] \<and> \<not> replace
           then Inl \<lparr>rs_status = 409, rs_body = ConflictBody (refsOf conflicts)\<rparr>
           else Inr conflicts)
   }"

fun evict_loop :: "'s srv \<Rightarrow> gtime \<Rightarrow> pool_id \<Rightarrow> srcmap_record list \<Rightarrow> ('s, (pfx \<times> pool_id \<times> orch_error) option) cpm" where
  "evict_loop sv now byPool [] = cret None"
| "evict_loop sv now byPool (c # cs) = do {
     r \<leftarrow> orch_call now (orch_RemoveMember (sv_orc sv) (sm_PoolID c) (sm_Src c));
     (case r of
        Inl err \<Rightarrow> cret (Some (sm_Src c, sm_PoolID c, err))
      | Inr _ \<Rightarrow> do {
          on_cp (emitMemberEvicted now (sm_PoolID c) (sm_Src c) byPool);
          evict_loop sv now byPool cs
        })
   }"

definition evict ::
  "'s srv \<Rightarrow> gtime \<Rightarrow> srcmap_record list \<Rightarrow> pool_id \<Rightarrow> ('s, (pfx \<times> pool_id \<times> orch_error) + member_ref list) cpm"
where
  "evict sv now conflicts byPool = do {
     r \<leftarrow> evict_loop sv now byPool conflicts;
     cret (case r of Some e \<Rightarrow> Inl e | None \<Rightarrow> Inr (refsOf conflicts))
   }"

section \<open>Handlers\<close>

text \<open>What create and update share after their own checks.\<close>

definition create_status :: "orch_error \<Rightarrow> response" where
  "create_status err = (if is_NoPlacement err then writeErr 503 (NoPlacementFor err) else writeErr 409 (OpFailed err))"

definition evict_status :: "pfx \<times> pool_id \<times> orch_error \<Rightarrow> response" where
  "evict_status e = (case e of (pre, i, err) \<Rightarrow> writeErr 500 (EvictFailed pre i err))"

definition handleCreatePool ::
  "'s srv \<Rightarrow> gtime \<Rightarrow> string \<Rightarrow> pool_request option \<Rightarrow> ('s, response) cpm"
where
  "handleCreatePool sv now rid body = (case body of
     None \<Rightarrow> cret (writeErr 400 InvalidJSON)
   | Some req \<Rightarrow>
     (case ingestValidate (oc_cx (sv_orc sv)) (rq_Pool req) of
        Some err \<Rightarrow> cret (writeErr 400 (InvalidPool err))
      | None \<Rightarrow>
     (case timestamp_refused (sv_createWindow sv) now (rq_Timestamp req) of
        Some (drift, skew) \<Rightarrow> cret (writeErr 400 (StaleTimestamp drift skew))
      | None \<Rightarrow>
        let req = normalizeUnlimited req; p = rq_Pool req in
        (case tokens_of req of
           None \<Rightarrow> cret (writeErr 400 NoTokenCost)
         | Some tokens \<Rightarrow> do {
             ov \<leftarrow> resolveOverlaps sv now p (rq_Replace req);
             (case ov of
                Inl resp \<Rightarrow> cret resp
              | Inr conflicts \<Rightarrow> do {
                  r \<leftarrow> orch_call now (CreatePoolNonceGen (sv_orc sv) p tokens);
                  (case r of
                     Inl err \<Rightarrow> cret (create_status err)
                   | Inr (rec, primaryEdge, generation) \<Rightarrow> do {
                       ev \<leftarrow> evict sv now conflicts (p_ID p);
                       (case ev of
                          Inl e \<Rightarrow> cret (evict_status e)
                        | Inr displaced \<Rightarrow>
                            let requestID = (if rq_Nonce req = [] then rid else rq_Nonce req) in do {
                              on_cp (registerPendingEnriched now requestID ''create'' (p_ID p) primaryEdge [] generation
                                       (rateBasisForPool p tokens));
                              cret \<lparr>rs_status = 201, rs_body = PoolBody (Some rec) displaced requestID generation\<rparr>
                            })
                     })
                })
           }))))"

definition handleUpdatePool ::
  "'s srv \<Rightarrow> gtime \<Rightarrow> string \<Rightarrow> string \<Rightarrow> pool_request option \<Rightarrow> ('s, response) cpm"
where
  "handleUpdatePool sv now rid path body = (case parsePoolID path of
     None \<Rightarrow> cret (writeErr 400 BadPoolID)
   | Some i \<Rightarrow>
   (case body of
      None \<Rightarrow> cret (writeErr 400 InvalidJSON)
    | Some req \<Rightarrow>
      if p_ID (rq_Pool req) \<noteq> i then cret (writeErr 400 (IDMismatch i (p_ID (rq_Pool req))))
      else
     (case ingestValidate (oc_cx (sv_orc sv)) (rq_Pool req) of
        Some err \<Rightarrow> cret (writeErr 400 (InvalidPool err))
      | None \<Rightarrow>
        let req = normalizeUnlimited req; p = rq_Pool req in
        (case tokens_of req of
           None \<Rightarrow> cret (writeErr 400 NoTokenCost)
         | Some tokens \<Rightarrow> do {
             ov \<leftarrow> resolveOverlaps sv now p (rq_Replace req);
             (case ov of
                Inl resp \<Rightarrow> cret resp
              | Inr conflicts \<Rightarrow> do {
                  r \<leftarrow> orch_call now (UpdatePoolGen (sv_orc sv) p tokens);
                  (case r of
                     Inl err \<Rightarrow> cret (create_status err)
                   | Inr (rec, primaryEdge, generation) \<Rightarrow> do {
                       ev \<leftarrow> evict sv now conflicts (p_ID p);
                       (case ev of
                          Inl e \<Rightarrow> cret (evict_status e)
                        | Inr displaced \<Rightarrow> do {
                            on_cp (registerPendingEnriched now rid ''update'' (p_ID p) primaryEdge [] generation
                                     (rateBasisForPool p tokens));
                            cret \<lparr>rs_status = 200, rs_body = PoolBody rec displaced rid generation\<rparr>
                          })
                     })
                })
           }))))"

definition poolExists :: "'s srv \<Rightarrow> gtime \<Rightarrow> pool_id \<Rightarrow> ('s, store_error + bool) cpm" where
  "poolExists sv now i = do {
     r \<leftarrow> orch_call now (yb (sv_orc sv) (\<lambda>st. Get st i));
     cret (map_sum id (\<lambda>x. x \<noteq> None) r)
   }"

definition ybToRecord :: "yb_record \<Rightarrow> pool_record" where
  "ybToRecord yr = \<lparr>pr_Pool = (y_Pool yr)\<lparr>p_HomeEdge := y_Primary yr\<rparr>, pr_Primary = y_Primary yr, pr_Backup = y_Backup yr,
     pr_PrimaryResvID = [], pr_BackupResvID = [], pr_Tokens = y_Tokens yr, pr_CreatedAt = 0,
     pr_Retiring = y_RetiringEdge yr, pr_RetiringResvID = []\<rparr>"

definition handleGetPool :: "'s srv \<Rightarrow> gtime \<Rightarrow> string \<Rightarrow> ('s, response) cpm" where
  "handleGetPool sv now path = (case parsePoolID path of
     None \<Rightarrow> cret (writeErr 400 BadPoolID)
   | Some i \<Rightarrow> do {
       r \<leftarrow> orch_call now (yb (sv_orc sv) (\<lambda>st. Get st i));
       cret (case r of
           Inl err \<Rightarrow> writeErr 500 (StoreFailed err)
         | Inr None \<Rightarrow> writeErr 404 (PoolNotFound i)
         | Inr (Some yr) \<Rightarrow> \<lparr>rs_status = 200, rs_body = RecordBody (ybToRecord yr)\<rparr>)
     })"

definition handleListPools :: "'s srv \<Rightarrow> gtime \<Rightarrow> ('s, response) cpm" where
  "handleListPools sv now = do {
     r \<leftarrow> orch_call now (yb (sv_orc sv) ListPools);
     cret (case r of
         Inl err \<Rightarrow> writeErr 500 (StoreFailed err)
       | Inr yrs \<Rightarrow> \<lparr>rs_status = 200, rs_body = RecordsBody (map ybToRecord yrs)\<rparr>)
   }"

definition handleDestroyPool :: "'s srv \<Rightarrow> gtime \<Rightarrow> string \<Rightarrow> string \<Rightarrow> ('s, response) cpm" where
  "handleDestroyPool sv now rid path = (case parsePoolID path of
     None \<Rightarrow> cret (writeErr 400 BadPoolID)
   | Some i \<Rightarrow> do {
       r \<leftarrow> orch_call now (DestroyPoolGen (sv_orc sv) i);
       (case r of
          Inl err \<Rightarrow> cret (writeErr 500 (OpFailed err))
        | Inr (primaryEdge, generation) \<Rightarrow> do {
            on_cp (RegisterPending now rid ''destroy'' i primaryEdge generation);
            cret \<lparr>rs_status = 202, rs_body = DestroyBody rid i primaryEdge generation\<rparr>
          })
     })"

definition handleListAgents :: "'s srv \<Rightarrow> gtime \<Rightarrow> ('s, response) cpm" where
  "handleListAgents sv now = do {
     r \<leftarrow> orch_call now (etcd (reg_List (oc_reg (sv_orc sv))));
     cret (case r of
         Inl err \<Rightarrow> writeErr 500 (ListAgentsFailed err)
       | Inr agents \<Rightarrow> \<lparr>rs_status = 200, rs_body = AgentsBody agents\<rparr>)
   }"

definition handleDecommission :: "'s srv \<Rightarrow> gtime \<Rightarrow> string \<Rightarrow> edge_id \<Rightarrow> ('s, response) cpm" where
  "handleDecommission sv now rid e =
     (if e = [] then cret (writeErr 400 MissingAgent)
      else do {
        (generation, err) \<leftarrow> orch_call now (DecommissionGen (sv_orc sv) e);
        (case err of
           Some err \<Rightarrow> cret (writeErr 500 (OpFailed err))
         | None \<Rightarrow> do {
             on_cp (\<lambda>cp. cp\<lparr>cp_Liveness := Forget (cp_Liveness cp) e\<rparr>);
             orch_call now (CleanupEdge e);
             on_cp (emitEdgeDeregistered now e);
             on_cp (RegisterPending now rid ''decommission'' 0 e generation);
             cret \<lparr>rs_status = 200, rs_body = DecommissionBody e rid generation\<rparr>
           })
      })"

text \<open>The zero record of an error return has empty edges.\<close>

definition edges_of_rec :: "pool_record option \<Rightarrow> edge_id \<times> edge_id" where
  "edges_of_rec r = (case r of None \<Rightarrow> ([], []) | Some r \<Rightarrow> (pr_Primary r, pr_Backup r))"

definition handleMigratePool :: "'s srv \<Rightarrow> gtime \<Rightarrow> string \<Rightarrow> string \<Rightarrow> ('s, response) cpm" where
  "handleMigratePool sv now rid path = (case parsePoolID path of
     None \<Rightarrow> cret (writeErr 400 BadPoolID)
   | Some i \<Rightarrow> do {
       found \<leftarrow> poolExists sv now i;
       (case found of
          Inl err \<Rightarrow> cret (writeErr 500 (StoreFailed err))
        | Inr False \<Rightarrow> cret (writeErr 404 (PoolNotFound i))
        | Inr True \<Rightarrow> do {
            pm \<leftarrow> orch_call now (PromoteBackupGen (sv_orc sv) i);
            if pm_err pm = Some ErrNoBackup then cret (writeErr 409 (NoBackupFor i))
            else if pm_err pm \<noteq> None \<and> pm_err pm \<noteq> Some ErrWithdrawIncomplete
            then cret (writeErr 500 (OpFailed (the (pm_err pm))))
            else do {
              (rec2, perr) \<leftarrow> orch_call now (ProvisionBackup (sv_orc sv) i []);
              (let (pri, bak) = edges_of_rec (if perr = None then rec2 else pm_rec pm) in do {
                 on_cp (registerPendingEnriched now rid ''migrate'' i (pm_new pm) (pm_old pm) (pm_gen pm) None);
                 cret \<lparr>rs_status = 200, rs_body = MigrateBody i pri bak (perr = None) rid (pm_gen pm)\<rparr>
               })
            }
          })
     })"

section \<open>The API\<close>

text \<open>The routes of \<open>AdminHandler\<close>.\<close>

datatype admin_call =
    CreateCall "pool_request option"
  | UpdateCall string "pool_request option"
  | ListCall
  | GetCall string
  | DestroyCall string
  | MigrateCall string
  | AgentsCall
  | DecommissionCall edge_id

definition AdminHandler :: "'s srv \<Rightarrow> gtime \<Rightarrow> string \<Rightarrow> admin_call \<Rightarrow> ('s, response) cpm" where
  "AdminHandler sv now rid call = (case call of
     CreateCall body \<Rightarrow> handleCreatePool sv now rid body
   | UpdateCall path body \<Rightarrow> handleUpdatePool sv now rid path body
   | ListCall \<Rightarrow> handleListPools sv now
   | GetCall path \<Rightarrow> handleGetPool sv now path
   | DestroyCall path \<Rightarrow> handleDestroyPool sv now rid path
   | MigrateCall path \<Rightarrow> handleMigratePool sv now rid path
   | AgentsCall \<Rightarrow> handleListAgents sv now
   | DecommissionCall e \<Rightarrow> handleDecommission sv now rid e)"

text \<open>A sequence of requests, each with its time and its random id.\<close>

fun serve :: "'s srv \<Rightarrow> (gtime \<times> string \<times> admin_call) list \<Rightarrow> ('s, response list) cpm" where
  "serve sv [] = cret []"
| "serve sv ((now, rid, call) # calls) = do {
     r \<leftarrow> AdminHandler sv now rid call;
     rs \<leftarrow> serve sv calls;
     cret (r # rs)
   }"

section \<open>No address is claimed twice\<close>

text \<open>What the contract documents of \<open>Member.Validate\<close>: an IPv4 host or /24, or an IPv6 host.\<close>

definition granular_members :: "contract \<Rightarrow> bool" where
  "granular_members cx \<longleftrightarrow> (\<forall>m. Member_Validate cx m = None \<longrightarrow> granular (m_Prefix m))"

lemma validate_members_apart:
  assumes "granular_members cx" "validate_members cx before ms = None" "apart (m_Prefix ` set before)"
  shows "apart (m_Prefix ` set (before @ ms))"
  using assms(2,3)
proof (induction ms arbitrary: before)
  case (Cons m ms)
  have v: "Member_Validate cx m = None" "find (\<lambda>q. Overlaps (m_Prefix q) (m_Prefix m)) before = None"
    "validate_members cx (before @ [m]) ms = None"
    using Cons.prems(1) by (auto split: option.splits)
  have "granular (m_Prefix m)" using assms(1) v(1) by (simp add: granular_members_def)
  moreover have "\<not> Overlaps (m_Prefix q) (m_Prefix m) \<and> \<not> Overlaps (m_Prefix m) (m_Prefix q)" if "q \<in> set before" for q
    using v(2) that by (simp add: find_None_iff Overlaps_sym [of "m_Prefix m"])
  ultimately have "apart (m_Prefix ` set (before @ [m]))" using Cons.prems(2) by (auto simp: apart_def)
  from Cons.IH [OF v(3) this] show ?case by simp
qed simp

lemma ingestValidate_apart:
  assumes "granular_members cx" "ingestValidate cx p = None"
  shows "apart (m_Prefix ` set (p_Members p))"
  using validate_members_apart [OF assms(1), of "[]" "p_Members p"] assms(2)
  by (auto simp: ingestValidate_def apart_def split: option.splits if_splits)

lemma normalizeUnlimited_sel [simp]:
  "p_Members (rq_Pool (normalizeUnlimited req)) = p_Members (rq_Pool req)"
  "p_ID (rq_Pool (normalizeUnlimited req)) = p_ID (rq_Pool req)"
  "rq_Replace (normalizeUnlimited req) = rq_Replace req" "rq_Nonce (normalizeUnlimited req) = rq_Nonce req"
  by (simp_all add: normalizeUnlimited_def Let_def)

lemma no_conflict_admissible:
  assumes t: "claims_ok t" and p: "apart (m_Prefix ` set (p_Members p))"
    and q: "q_MemberConflicts t (map m_Prefix (p_Members p)) (p_ID p) = []"
  shows "admissible p t"
proof -
  let ?ps = "map m_Prefix (p_Members p)"
  have gr: "\<forall>r \<in> set (members t). granular (mt_prefix r)" "\<forall>x \<in> set ?ps. granular x"
    using t p by (auto simp: claims_ok_def apart_def claims_def)
  have none: "\<not> Overlaps (mt_prefix r) x" if "r \<in> set (members t)" "mt_pool r \<noteq> p_ID p" "x \<in> set ?ps" for r x
  proof
    assume "Overlaps (mt_prefix r) x"
    then have "is_conflict ?ps (p_ID p) r" "is_candidate ?ps (mt_prefix r)"
      using that gr overlap_is_candidate by (auto simp: is_conflict_def)
    then have "conflict_of r \<in> set (q_MemberConflicts t ?ps (p_ID p))"
      using MemberConflicts_rows [of t ?ps "p_ID p"] that(1) t by (simp add: claims_ok_def)
    then show False using q by simp
  qed
  have others: "x \<in> claims t" "\<exists>r \<in> set (members t). mt_prefix r = x \<and> mt_pool r \<noteq> p_ID p"
    if "x \<in> (\<Union>j \<in> - {p_ID p}. mem_keys t j)" for x
    using that by (auto simp: mem_keys_def claims_def)
  have cl: "apart (claims t)" using t by (simp add: claims_ok_def)
  show ?thesis
    unfolding admissible_def apart_def
  proof (intro conjI ballI impI)
    fix x y assume x: "x \<in> m_Prefix ` set (p_Members p) \<union> (\<Union>j \<in> - {p_ID p}. mem_keys t j)"
      and y: "y \<in> m_Prefix ` set (p_Members p) \<union> (\<Union>j \<in> - {p_ID p}. mem_keys t j)" and o: "Overlaps x y"
    have "\<not> Overlaps a b \<and> \<not> Overlaps b a"
      if "a \<in> m_Prefix ` set (p_Members p)" "b \<in> (\<Union>j \<in> - {p_ID p}. mem_keys t j)" for a b
      using others(2) [OF that(2)] none that(1) by (auto simp: Overlaps_sym [of a])
    then consider "x \<in> m_Prefix ` set (p_Members p)" "y \<in> m_Prefix ` set (p_Members p)" | "x \<in> claims t" "y \<in> claims t"
      using x y o others(1) by blast
    then show "x = y" using o p cl unfolding apart_def by cases blast+
  qed (use p cl others(1) in \<open>unfold apart_def, blast\<close>)
qed

text \<open>Triples on the tables of a computation of the control plane.\<close>

definition ctriple :: "(tables \<Rightarrow> bool) \<Rightarrow> ('s, 'a) cpm \<Rightarrow> ('a \<Rightarrow> tables \<Rightarrow> bool) \<Rightarrow> bool" where
  "ctriple P m Q \<longleftrightarrow> (\<forall>s. P (tabs (w_yb (snd s))) \<longrightarrow>
     Q (fst (run_state m s)) (tabs (w_yb (snd (snd (run_state m s))))))"

lemma ctriple_bind: "ctriple P m R \<Longrightarrow> (\<And>r. ctriple (R r) (f r) Q) \<Longrightarrow> ctriple P (State_Monad.bind m f) Q"
  unfolding ctriple_def by (simp add: split_beta del: split_paired_All)

lemma ctriple_call: "triple P m Q \<Longrightarrow> ctriple P (orch_call now m) Q"
  by (simp add: ctriple_def triple_def run_orch_call)

lemma ctriple_cret: "(\<And>t. P t \<Longrightarrow> Q x t) \<Longrightarrow> ctriple P (cret x) Q"
  by (simp add: ctriple_def)

lemma ctriple_on_cp: "ctriple P (on_cp f) (\<lambda>_. P)"
  by (simp add: ctriple_def)

lemma ctriple_weaken: "ctriple P m Q \<Longrightarrow> (\<And>t. P' t \<Longrightarrow> P t) \<Longrightarrow> (\<And>r t. Q r t \<Longrightarrow> Q' r t) \<Longrightarrow> ctriple P' m Q'"
  by (auto simp: ctriple_def)

abbreviation api_safe :: "('s, 'a) cpm \<Rightarrow> bool" where
  "api_safe m \<equiv> ctriple claims_ok m (\<lambda>_. claims_ok)"

lemma api_bind: "api_safe m \<Longrightarrow> (\<And>r. api_safe (f r)) \<Longrightarrow> api_safe (State_Monad.bind m f)"
  by (rule ctriple_bind)

lemmas api_prims = ctriple_on_cp ctriple_cret ctriple_call [OF triple_steady]

lemma resolveOverlaps_admits:
  assumes "solo (sv_orc sv)" "apart (m_Prefix ` set (p_Members p))"
  shows "ctriple claims_ok (resolveOverlaps sv now p False)
    (\<lambda>r t. claims_ok t \<and> (\<forall>cs. r = Inr cs \<longrightarrow> cs = [] \<and> admissible p t))"
proof -
  let ?Q = "\<lambda>r t. claims_ok t \<and> (r = Inr [] \<longrightarrow> admissible p t)"
  have empty: "map_sum EStore (map g) r = Inr [] \<longleftrightarrow> r = Inr []" for g :: "conflict \<Rightarrow> srcmap_record" and r by (cases r) simp_all
  have "triple claims_ok (orch_MemberConflicts (sv_orc sv) (p_Members p) (p_ID p)) ?Q"
    unfolding orch_MemberConflicts_def MemberConflicts_def
    by (rule triple_bind [OF read_fact [OF assms(1), where R = "\<lambda>r t. claims_ok t \<and> (r = Inr [] \<longrightarrow> admissible p t)"]])
       (auto simp: empty intro!: triple_ret no_conflict_admissible assms(2))
  then show ?thesis
    unfolding resolveOverlaps_def
    by (rule ctriple_bind [OF ctriple_call]) (auto intro!: ctriple_cret split: sum.splits)
qed

text \<open>The common part of create and update without \<open>replace\<close>.\<close>

lemma api_safe_write:
  assumes "solo (sv_orc sv)" "apart (m_Prefix ` set (p_Members p))"
    and "\<And>resp. api_safe (h (Inl resp))" "ctriple (\<lambda>t. claims_ok t \<and> admissible p t) (h (Inr [])) (\<lambda>_. claims_ok)"
  shows "api_safe (State_Monad.bind (resolveOverlaps sv now p False) h)"
proof (rule ctriple_bind [OF resolveOverlaps_admits [OF assms(1,2)]])
  fix r :: "response + srcmap_record list"
  consider resp where "r = Inl resp" | "r = Inr []" | cs where "r = Inr cs" "cs \<noteq> []" by (metis sum.exhaust)
  then show "ctriple (\<lambda>t. claims_ok t \<and> (\<forall>cs. r = Inr cs \<longrightarrow> cs = [] \<and> admissible p t)) (h r) (\<lambda>_. claims_ok)"
  proof cases
    case 3
    then show ?thesis by (simp add: ctriple_def)
  qed (use assms(3,4) in simp_all)
qed

definition no_replace :: "admin_call \<Rightarrow> bool" where
  "no_replace call = (case call of
     CreateCall (Some req) \<Rightarrow> \<not> rq_Replace req
   | UpdateCall _ (Some req) \<Rightarrow> \<not> rq_Replace req
   | _ \<Rightarrow> True)"

lemma cret_bind: "State_Monad.bind (cret x) f = f x"
  by (simp add: cret_def State_Monad.bind_def)

lemma evict_nothing: "evict sv now [] i = cret (Inr (refsOf []))"
  by (simp add: evict_def cret_def State_Monad.bind_def)

lemma handleCreatePool_safe:
  assumes "solo (sv_orc sv)" "granular_members (oc_cx (sv_orc sv))" "\<And>req. body = Some req \<Longrightarrow> \<not> rq_Replace req"
  shows "api_safe (handleCreatePool sv now rid body)"
proof (cases body)
  case None
  then show ?thesis by (simp add: handleCreatePool_def ctriple_cret)
next
  case (Some req)
  let ?p = "rq_Pool (normalizeUnlimited req)"
  show ?thesis
  proof (cases "ingestValidate (oc_cx (sv_orc sv)) (rq_Pool req)")
    case None
    have ap: "apart (m_Prefix ` set (p_Members ?p))" using ingestValidate_apart [OF assms(2) None] by simp
    note store = ctriple_bind [OF ctriple_call [OF triple_CreatePoolNonceGen [OF assms(1)]]]
    have "\<not> rq_Replace req" by (rule assms(3) [OF Some])
    then show ?thesis
      unfolding handleCreatePool_def Some None Let_def
      by (auto intro!: api_safe_write [OF assms(1) ap] store ctriple_cret ctriple_bind [OF ctriple_on_cp]
          simp: evict_nothing cret_bind split: option.splits sum.splits)
  qed (simp add: handleCreatePool_def Some ctriple_cret)
qed

lemma handleUpdatePool_safe:
  assumes "solo (sv_orc sv)" "granular_members (oc_cx (sv_orc sv))" "\<And>req. body = Some req \<Longrightarrow> \<not> rq_Replace req"
  shows "api_safe (handleUpdatePool sv now rid path body)"
proof (cases "\<exists>i req. parsePoolID path = Some i \<and> body = Some req \<and> p_ID (rq_Pool req) = i
    \<and> ingestValidate (oc_cx (sv_orc sv)) (rq_Pool req) = None")
  case True
  then obtain i req where req: "parsePoolID path = Some i" "body = Some req" "p_ID (rq_Pool req) = i"
    "ingestValidate (oc_cx (sv_orc sv)) (rq_Pool req) = None" by blast
  have ap: "apart (m_Prefix ` set (p_Members (rq_Pool (normalizeUnlimited req))))"
    using ingestValidate_apart [OF assms(2) req(4)] by simp
  note store = ctriple_bind [OF ctriple_call [OF triple_UpdatePoolGen [OF assms(1)]]]
  have "\<not> rq_Replace req" by (rule assms(3) [OF req(2)])
  then show ?thesis
    unfolding handleUpdatePool_def req Let_def
    by (auto intro!: api_safe_write [OF assms(1) ap] store ctriple_cret ctriple_bind [OF ctriple_on_cp]
        simp: req(3) evict_nothing cret_bind split: option.splits sum.splits)
qed (auto simp: handleUpdatePool_def intro!: ctriple_cret split: option.splits)

lemma safe_ListPools: "solo orc \<Longrightarrow> steady (yb orc ListPools)"
  unfolding ListPools_def by (rule steady_reads)

lemma AdminHandler_safe:
  assumes "solo (sv_orc sv)" "granular_members (oc_cx (sv_orc sv))" "no_replace call"
  shows "api_safe (AdminHandler sv now rid call)"
proof -
  note rules = api_bind ctriple_cret ctriple_on_cp ctriple_call steady_prims [THEN triple_steady]
    steady_store_reads [THEN triple_steady] safe_ListPools [THEN triple_steady]
    safe_DestroyPoolGen safe_DecommissionGen triple_PromoteBackupGen triple_ProvisionBackup assms(1)
  have cl: "claim_safe (CleanupEdge e)" for e by (simp add: triple_def CleanupEdge_def)
  show ?thesis
  proof (cases call)
    case (CreateCall body)
    then show ?thesis using assms by (auto simp: AdminHandler_def no_replace_def intro!: handleCreatePool_safe)
  next
    case (UpdateCall path body)
    then show ?thesis using assms by (auto simp: AdminHandler_def no_replace_def intro!: handleUpdatePool_safe)
  next
    case ListCall
    then show ?thesis by (auto simp: AdminHandler_def handleListPools_def intro!: rules)
  next
    case (GetCall path)
    then show ?thesis by (auto simp: AdminHandler_def handleGetPool_def intro!: rules split: option.splits)
  next
    case (DestroyCall path)
    then show ?thesis
      by (auto simp: AdminHandler_def handleDestroyPool_def intro!: rules split: option.splits sum.splits prod.splits)
  next
    case (MigrateCall path)
    then show ?thesis
      by (auto simp: AdminHandler_def handleMigratePool_def poolExists_def Let_def intro!: rules
          split: option.splits sum.splits bool.splits prod.splits)
  next
    case AgentsCall
    then show ?thesis by (auto simp: AdminHandler_def handleListAgents_def intro!: rules)
  next
    case (DecommissionCall e)
    then show ?thesis
      by (auto simp: AdminHandler_def handleDecommission_def intro!: rules cl split: option.splits prod.splits)
  qed
qed

text \<open>Requests interleaved with passes of the reconciler.\<close>

datatype activity = Request gtime string admin_call | Pass gtime pool_id

fun activities :: "'s srv \<Rightarrow> activity list \<Rightarrow> ('s, unit) cpm" where
  "activities sv [] = cret ()"
| "activities sv (Request now rid call # as) = do { _ \<leftarrow> AdminHandler sv now rid call; activities sv as }"
| "activities sv (Pass now i # as) = do { _ \<leftarrow> reconcileOne sv now i; activities sv as }"

lemma activities_safe:
  assumes "solo (sv_orc sv)" "granular_members (oc_cx (sv_orc sv))"
    and "\<And>now rid call. Request now rid call \<in> set as \<Longrightarrow> no_replace call"
  shows "api_safe (activities sv as)"
  using assms(3)
proof (induction as)
  case (Cons a as)
  have rec: "api_safe (reconcileOne sv now i)" for now i
    unfolding reconcileOne_def
    by (auto intro!: api_bind ctriple_cret ctriple_on_cp ctriple_call triple_ReconcilePool assms(1))
  show ?case
    using Cons by (cases a) (auto intro!: api_bind AdminHandler_safe [OF assms(1,2)] rec)
qed (simp add: ctriple_cret)


definition demo_api :: "cluster srv" where
  "demo_api = demo_srv\<lparr>sv_orc := demo_single\<lparr>oc_cx := demo_cx\<lparr>Member_Validate :=
     (\<lambda>m. if granular (m_Prefix m) then None else Some ''granularity'')\<rparr>\<rparr>\<rparr>"

definition demo_empty :: "cluster world" where
  "demo_empty = demo_world\<lparr>w_yb := \<lparr>tabs = \<lparr>pools = [], members = []\<rparr>, snap = \<lparr>pools = [], members = []\<rparr>, faults = []\<rparr>\<rparr>"

definition demo_request :: "pool_id \<Rightarrow> pfx list \<Rightarrow> pool_request" where
  "demo_request i ps = \<lparr>rq_Pool = demo_yb_pool i ps, rq_Tokens = 100, rq_Replace = False, rq_Timestamp = 0, rq_Nonce = ''n''\<rparr>"

definition net24 :: "32 word \<Rightarrow> pfx" where
  "net24 w = \<lparr>pAddr = V4 w, pBits = 24\<rparr>"

lemma demo_api_ok: "solo (sv_orc demo_api)" "granular_members (oc_cx (sv_orc demo_api))"
  by (simp_all add: demo_api_def demo_single_def demo_orch_def solo_def granular_members_def split: if_splits)

text \<open>The second pool overlaps the first and is refused, the third is accepted.\<close>

definition demo_activities :: "activity list" where
  "demo_activities = [Request 1 ''a'' (CreateCall (Some (demo_request 1 [host4 261]))),
     Request 2 ''b'' (CreateCall (Some (demo_request 2 [net24 256]))), Pass 3 1,
     Request 4 ''c'' (CreateCall (Some (demo_request 3 [net24 512])))]"


section \<open>The answer to a create\<close>

lemma callback_pending [simp]:
  "cp_pending (callback now ev cp) = cp_pending cp" "cp_pending (fold (callback now) evs cp) = cp_pending cp"
proof -
  show *: "cp_pending (callback now ev cp) = cp_pending cp" for ev cp
    by (simp add: callback_def notify_defs enqueuePool_def split: event.splits)
  show "cp_pending (fold (callback now) evs cp) = cp_pending cp"
    by (induction evs arbitrary: cp) (simp_all add: *)
qed

lemma run_resolveOverlaps:
  assumes "quiet_env (sv_orc sv) A" "faults (w_yb w) = []"
  shows "\<exists>w1 r. run_state (resolveOverlaps sv now p False) (cp, w) = (r, (cp, w1))
    \<and> w_yb w1 = w_yb w \<and> w_cap w1 = w_cap w \<and> w_jobs w1 = w_jobs w \<and> w_trace w1 = w_trace w
    \<and> (case r of Inl resp \<Rightarrow> rs_status resp \<noteq> 201 | Inr cs \<Rightarrow> cs = [])"
proof -
  let ?m = "orch_MemberConflicts (sv_orc sv) (p_Members p) (p_ID p)"
  let ?w1 = "w\<lparr>w_now := w_now w + 1\<rparr>"
  obtain cs where "run_state ?m w = (Inr cs, ?w1)"
    using assms by (simp add: orch_MemberConflicts_def yb_def ret_def MemberConflicts_def leader_read_def next_fault_def
        quiet_env_def)
  then have "run_state (resolveOverlaps sv now p False) (cp, w) =
      (if cs \<noteq> [] then Inl \<lparr>rs_status = 409, rs_body = ConflictBody (refsOf cs)\<rparr> else Inr cs, (cp, ?w1))"
    by (simp add: resolveOverlaps_def run_orch_call)
  then show ?thesis by auto
qed

definition request_id :: "string \<Rightarrow> pool_request \<Rightarrow> string" where
  "request_id rid req = (if rq_Nonce req = [] then rid else rq_Nonce req)"



section \<open>Where the API does less than it says\<close>

definition replacing :: "pool_request \<Rightarrow> pool_request" where
  "replacing req = req\<lparr>rq_Replace := True\<rparr>"

text \<open>
  With \<open>replace\<close> the eviction comes after the create, so a member that another pool holds as the very same prefix
  can not be displaced: the create hits the key of the members table and is answered 409.
\<close>

lemma replace_refuses_same_prefix:
  "(let (rs, cp, w) = run_state (serve demo_api [(1, ''a'', CreateCall (Some (demo_request 1 [host4 261]))),
       (2, ''b'', CreateCall (Some (replacing (demo_request 2 [host4 261]))))]) (demo_cp, demo_empty)
    in map rs_status rs = [201, 409] \<and> map (\<lambda>r. (mt_pool r, mt_prefix r)) (members (tabs (w_yb w))) = [(1, host4 261)])"
  by code_simp

text \<open>
  When the push after the first eviction fails, the request is answered 500 but the new pool stays, beside members it overlaps
  that were not evicted yet; no result is pending for it, and asking again is answered 409.
\<close>

lemma failed_eviction_leaves_overlap:
  "(let sv = demo_api\<lparr>sv_orc := (sv_orc demo_api)\<lparr>oc_pushErr := (\<lambda>n e. Some ''unavailable'')\<rparr>\<rparr>;
        again = replacing (demo_request 2 [net24 256]);
        (rs, cp, w) = run_state (serve sv [(1, ''a'', CreateCall (Some (demo_request 1 [host4 261, host4 262]))),
          (2, ''b'', CreateCall (Some (again\<lparr>rq_Nonce := ''m''\<rparr>))), (3, ''c'', CreateCall (Some again))]) (demo_cp, demo_empty)
    in map rs_status rs = [201, 500, 409] \<and> map fst (cp_pending cp) = [''n'']
     \<and> map (\<lambda>r. (mt_pool r, mt_prefix r)) (members (tabs (w_yb w))) = [(1, host4 262), (2, net24 256)])"
  by code_simp

text \<open>The drift is computed in nanoseconds at 64 bits: a timestamp \<open>2 ^ 58\<close> milliseconds off wraps to no drift at all.\<close>

lemma window_wraps: "timestamp_refused 0 0 (2 ^ 58) = None"
  by code_simp

section \<open>The anti-replay window\<close>

text \<open>
  The anti-replay window. For timestamps less than \<open>2 ^ 43\<close> milliseconds (about 278 years) from now, a create is refused with
  400, before any work and without any effect, exactly when its timestamp is set and further from now than the window; the window
  is five minutes unless configured.
\<close>

theorem create_window_exact:
  fixes sv :: "'s srv"
  defines "window \<equiv> (if sv_createWindow sv \<le> 0 then defaultCreateWindow else sv_createWindow sv)"
  assumes "\<bar>unix_ms now - rq_Timestamp req\<bar> < 2 ^ 43" "ingestValidate (oc_cx (sv_orc sv)) (rq_Pool req) = None"
  shows "if rq_Timestamp req \<noteq> 0 \<and> window < \<bar>unix_ms now - rq_Timestamp req\<bar> * 1000000
    then \<exists>drift. run_state (handleCreatePool sv now rid (Some req)) s = (writeErr 400 (StaleTimestamp drift window), s)
    else timestamp_refused (sv_createWindow sv) now (rq_Timestamp req) = None"
proof -
  let ?d = "unix_ms now - rq_Timestamp req"
  have "- (2 ^ 43) < ?d" "?d < 2 ^ 43" using assms(2) by (simp_all add: abs_less_iff)
  then have "wrap64 ?d = ?d" "wrap64 (?d * 1000000) = ?d * 1000000" by (auto intro!: wrap64_id)
  then have "timestamp_refused (sv_createWindow sv) now (rq_Timestamp req) =
      (if rq_Timestamp req \<noteq> 0 \<and> window < \<bar>?d\<bar> * 1000000 then Some (?d * 1000000, window) else None)"
    by (auto simp: timestamp_refused_def window_def Let_def abs_if)
  then show ?thesis using assms(3) by (auto simp: handleCreatePool_def)
qed

theorem create_window_exact_witness:
  "\<exists>drift. run_state (handleCreatePool demo_api (seconds 7200) ''a'' (Some ((demo_request 1 [host4 5])\<lparr>rq_Timestamp := 1\<rparr>))) (demo_cp, demo_empty)
     = (writeErr 400 (StaleTimestamp drift (seconds 30)), (demo_cp, demo_empty))"
proof -
  let ?req = "(demo_request 1 [host4 5])\<lparr>rq_Timestamp := 1\<rparr>"
  have "ingestValidate (oc_cx (sv_orc demo_api)) (rq_Pool ?req) = None" by code_simp
  moreover have "sv_createWindow demo_api = seconds 30" "unix_ms (seconds 7200) = 7200000"
    by (simp_all add: demo_api_def demo_srv_def unix_ms_def go_div_def)
  ultimately show ?thesis using create_window_exact [of "seconds 7200" ?req demo_api] by simp
qed

end
