(* ===== verification/Startup.thy ===== *)
theory Startup
  imports Uplink Config Admin
begin

text \<open>
  From the configuration to a running server: \<open>NewControlPlane\<close> (\<open>internal/server/controlplane.go\<close>), \<open>New\<close> and the options of
  \<open>orchestrator.go\<close>, and the wiring of \<open>cmd/sbw-server/main.go\<close>. What the operating system, the clients and the contract decide is the record
  \<open>environment\<close>; the answers other components give during the orchestrator's operations (liveness, subscriptions, the
  session budget) are functions of it, as everywhere in the orchestrator's model. Sockets, signals and metrics are not modelled.
\<close>

section \<open>The orchestrator\<close>

record 's environment =
  en_kv :: "'s etcd"
  en_lease :: "'s lease_etcd"
  en_cx :: contract
  en_tb :: tie_break
  en_fns :: member_fns
  en_PoolSetHash :: "pool_id list \<Rightarrow> u64"
  en_SoftDead :: "health \<Rightarrow> bool"
  en_sched :: "pivot_row list \<Rightarrow> pivot_row list"
  en_alive :: "nat \<Rightarrow> edge_id \<Rightarrow> bool"
  en_subscribed :: "nat \<Rightarrow> edge_id \<Rightarrow> bool"
  en_suppress :: "edge_id \<Rightarrow> pfx \<Rightarrow> bool"
  en_budget :: "edge_id \<Rightarrow> u64"
  en_genSeed :: "nat \<Rightarrow> u64"
  en_pushErr :: "nat \<Rightarrow> edge_id \<Rightarrow> string option"
  en_peers :: "nat \<Rightarrow> store \<Rightarrow> store"
  en_etcdConnect :: "string list \<Rightarrow> string option"
  en_ybConnect :: "string \<Rightarrow> string option"
  en_newClient :: "string list \<Rightarrow> string \<Rightarrow> string option"

type_synonym 's orch_option = "'s orch \<Rightarrow> 's orch"

definition WithReplicas :: "int \<Rightarrow> 's orch_option" where
  "WithReplicas n orc = orc\<lparr>oc_replicas := n\<rparr>"

definition WithEdgeAddrs :: "(edge_id \<rightharpoonup> addr) \<Rightarrow> 's orch_option" where
  "WithEdgeAddrs m orc = orc\<lparr>oc_EdgeAddrs := m\<rparr>"

definition WithEdgeAddrs6 :: "(edge_id \<rightharpoonup> addr) \<Rightarrow> 's orch_option" where
  "WithEdgeAddrs6 m orc = orc\<lparr>oc_EdgeAddrs6 := m\<rparr>"

definition WithHomeMarker :: "(edge_id \<Rightarrow> large_community option) option \<Rightarrow> 's orch_option" where
  "WithHomeMarker f orc = orc\<lparr>oc_HomeMarker := f\<rparr>"

definition WithAdvertiseGate :: "(edge_id \<Rightarrow> pfx \<Rightarrow> bool) \<Rightarrow> 's orch_option" where
  "WithAdvertiseGate f orc = orc\<lparr>oc_Suppress := Some f\<rparr>"

definition WithLiveness :: "(nat \<Rightarrow> edge_id \<Rightarrow> bool) \<Rightarrow> 's orch_option" where
  "WithLiveness f orc = orc\<lparr>oc_isAlive := Some f\<rparr>"

definition WithSessionBudget :: "(edge_id \<Rightarrow> u64) \<Rightarrow> 's orch_option" where
  "WithSessionBudget f orc = orc\<lparr>oc_sessBudget := Some f\<rparr>"

definition WithDoubleDeathAlarm :: "'s orch_option" where
  "WithDoubleDeathAlarm orc = orc\<lparr>oc_onDblDeath := True\<rparr>"

text \<open>The pusher is the fan, which takes deltas and answers whether an edge is subscribed.\<close>

definition orch_New :: "'s environment \<Rightarrow> 's registry \<Rightarrow> 's orch_option list \<Rightarrow> 's orch" where
  "orch_New env reg opts = fold (\<lambda>f. f) opts
     \<lparr>oc_cx = en_cx env, oc_tb = en_tb env, oc_replicas = 2, oc_EdgeAddrs = Map.empty, oc_EdgeAddrs6 = Map.empty,
      oc_HomeMarker = None, oc_Suppress = None, oc_isAlive = None, oc_sessBudget = None, oc_genSeed = en_genSeed env,
      oc_edgever = None, oc_reg = reg, oc_delta = True, oc_subscribed = Some (en_subscribed env), oc_pushErr = en_pushErr env,
      oc_peers = en_peers env, oc_withdrawTimeout = 0, oc_sync = False, oc_onFailover = False, oc_onRedundancy = False,
      oc_onRehome = False, oc_onDblDeath = False\<rparr>"

section \<open>The control plane\<close>

text \<open>The options the constructor reads, callbacks of an operator apart.\<close>

record cp_options =
  op_Prefix :: string
  op_ReservationTTL :: duration
  op_Replicas :: int
  op_EdgeAddrs :: "edge_id \<rightharpoonup> addr"
  op_EdgeAddrs6 :: "edge_id \<rightharpoonup> addr"
  op_HomeMarker :: "(edge_id \<Rightarrow> large_community option) option"
  op_LivenessGrace :: duration
  op_LivenessSoftDebounce :: duration
  op_LivenessHardDebounce :: duration
  op_LivenessVPPRestartGrace :: duration
  op_LivenessQuorum :: int
  op_SelfID :: string
  op_AccountToleranceBps :: u64
  op_ProgramDriftStreak :: int
  op_DriftStreakThreshold :: int
  op_MemberPresenceTTL :: duration
  op_CreateWindow :: duration
  op_CoverageK :: int

definition cp_defaults :: "cp_options \<Rightarrow> cp_options" where
  "cp_defaults opt =
     (let opt = (if op_Prefix opt = [] then opt\<lparr>op_Prefix := ''sbw/''\<rparr> else opt);
          opt = (if op_Replicas opt = 0 then opt\<lparr>op_Replicas := 2\<rparr> else opt);
          opt = (if op_ReservationTTL opt = 0 then opt\<lparr>op_ReservationTTL := seconds 30\<rparr> else opt);
          opt = (if op_LivenessGrace opt = 0 then opt\<lparr>op_LivenessGrace := seconds 30\<rparr> else opt);
          opt = (if op_AccountToleranceBps opt = 0 then opt\<lparr>op_AccountToleranceBps := 1000000\<rparr> else opt);
          opt = (if op_ProgramDriftStreak opt = 0 then opt\<lparr>op_ProgramDriftStreak := 2\<rparr> else opt);
          opt = (if op_DriftStreakThreshold opt = 0 then opt\<lparr>op_DriftStreakThreshold := 2\<rparr> else opt);
          opt = (if op_CreateWindow opt = 0 then opt\<lparr>op_CreateWindow := defaultCreateWindow\<rparr> else opt);
          opt = (if op_CoverageK opt = 0 then opt\<lparr>op_CoverageK := 1\<rparr> else opt)
      in opt)"

text \<open>The monitor: the reporting gate and the startup grace are wired under sharding only; the gate is read through \<open>wired\<close>.\<close>

definition cp_monitor :: "cp_options \<Rightarrow> gtime \<Rightarrow> monitor" where
  "cp_monitor opt now =
     (let sharded = op_LivenessQuorum opt > 1
      in New (op_LivenessGrace opt)
           \<lparr>grace = 0, softDebounce = op_LivenessSoftDebounce opt, hardDebounce = op_LivenessHardDebounce opt,
            restartGrace = op_LivenessVPPRestartGrace opt,
            startupGrace = (if sharded then op_LivenessGrace opt else 0), readyAt = 0,
            quorum = op_LivenessQuorum opt, selfID = op_SelfID opt, edges = Map.empty, onRevive_set = True,
            reporting = (if sharded then Some (\<lambda>e. False) else None), meteringStale_set = True, onDeath_set = True\<rparr> now)"

definition cp_new :: "cp_options \<Rightarrow> gtime \<Rightarrow> cp" where
  "cp_new opt now =
     \<lparr>cp_Liveness = cp_monitor opt now, cp_fan = newDesiredFan (op_CoverageK opt),
      cp_presence = newMemberPresence (op_MemberPresenceTTL opt), cp_reports = Map.empty, cp_progStreak = Map.empty,
      cp_driftReported = [], cp_driftStreak = Map.empty, cp_reconcileQ = [], cp_pending = [], cp_dpDownEdges = Map.empty,
      cp_meteringStaleEdge = Map.empty, cp_fibDriftEdges = Map.empty, cp_deathMethodByEdge = Map.empty, cp_emitter = Noop, cp_sent = []\<rparr>"

definition NewControlPlane :: "'s environment \<Rightarrow> cp_options \<Rightarrow> gtime \<Rightarrow> 's srv \<times> cp" where
  "NewControlPlane env opt0 now =
     (let opt = cp_defaults opt0;
          reg = \<lparr>rg_kv = en_kv env, rg_prefix = op_Prefix opt\<rparr>;
          orc = orch_New env reg [WithReplicas (op_Replicas opt), WithEdgeAddrs (op_EdgeAddrs opt), WithEdgeAddrs6 (op_EdgeAddrs6 opt),
            WithHomeMarker (op_HomeMarker opt), WithAdvertiseGate (en_suppress env), WithLiveness (en_alive env),
            WithSessionBudget (en_budget env), WithDoubleDeathAlarm]
      in (\<lparr>sv_orc = orc\<lparr>oc_onFailover := True, oc_onRedundancy := True, oc_onRehome := True\<rparr>,
           sv_led = \<lparr>ld_kv = en_kv env, ld_prefix = op_Prefix opt, ld_ttl = op_ReservationTTL opt\<rparr>,
           sv_fns = en_fns env, sv_PoolSetHash = en_PoolSetHash env, sv_SoftDead = en_SoftDead env,
           sv_driftStreakThreshold = op_DriftStreakThreshold opt, sv_progThreshold = op_ProgramDriftStreak opt,
           sv_acctTolerance = op_AccountToleranceBps opt, sv_createWindow = op_CreateWindow opt, sv_sched = en_sched env\<rparr>,
          cp_new opt now))"

definition SetEdgeVer :: "'s edgever option \<Rightarrow> 's srv \<Rightarrow> 's srv" where
  "SetEdgeVer ev sv = sv\<lparr>sv_orc := (sv_orc sv)\<lparr>oc_edgever := ev\<rparr>\<rparr>"

section \<open>The entry point\<close>

datatype exit_reason =
    BadConfig config_error
  | EtcdConnect string
  | YugabyteMissing
  | YugabyteConnect string

record 's server =
  sr_srv :: "'s srv"
  sr_cp :: cp
  sr_cap :: capacity_cache
  sr_voter :: "'s voter"
  sr_ticks :: "duration list"

datatype 's start = Exited exit_reason | Panicked | Running "'s server"

text \<open>The intervals of the loops started through \<open>runLoop\<close>; \<open>time.NewTicker\<close> panics on one that is not positive.\<close>

definition tick_intervals :: "server_config \<Rightarrow> duration list" where
  "tick_intervals cfg =
     (if sc_MetricsListenAddr cfg = [] then [] else [seconds 15])
     @ [seconds 10, seconds 5, sc_DriftSweepInterval cfg, seconds 30, seconds 30, seconds 30, seconds 30, seconds 5]"

definition start_emitter :: "'s environment \<Rightarrow> server_config \<Rightarrow> cp \<Rightarrow> cp" where
  "start_emitter env cfg cp =
     (if sc_RedpandaBrokers cfg = [] then cp
      else case NewProducer (en_newClient env) (sc_RedpandaBrokers cfg) (sc_APIResultsTopic cfg) of
        Inl _ \<Rightarrow> cp
      | Inr pr \<Rightarrow> SetAPIResultEmitter (Some pr) cp)"

definition start_options :: "server_config \<Rightarrow> (edge_id \<rightharpoonup> addr) \<Rightarrow> (edge_id \<rightharpoonup> addr) \<Rightarrow> cp_options" where
  "start_options cfg edgeAddrs edgeAddrs6 =
     (let sh = WithDefaults (sc_Sharding cfg)
      in \<lparr>op_Prefix = et_Prefix (sc_Etcd cfg), op_ReservationTTL = et_ReservationTTL (sc_Etcd cfg), op_Replicas = sc_Replicas cfg,
          op_EdgeAddrs = edgeAddrs, op_EdgeAddrs6 = edgeAddrs6, op_HomeMarker = homeMarkerFn (sc_HomeMarker cfg),
          op_LivenessGrace = 0, op_LivenessSoftDebounce = 0, op_LivenessHardDebounce = sh_HardDebounce sh,
          op_LivenessVPPRestartGrace = sh_VPPRestartGrace sh, op_LivenessQuorum = sh_FailoverQuorum sh,
          op_SelfID = ResolveReplicaID (sc_ReplicaID cfg), op_AccountToleranceBps = 0, op_ProgramDriftStreak = 0,
          op_DriftStreakThreshold = 0, op_MemberPresenceTTL = 0, op_CreateWindow = 0, op_CoverageK = sh_K sh\<rparr>)"

definition start_main :: "config_env \<Rightarrow> 's environment \<Rightarrow> string \<Rightarrow> gtime \<Rightarrow> 's start" where
  "start_main ce env path now =
     (case LoadConfig ce path of
        (cfg, Some err) \<Rightarrow> Exited (BadConfig err)
      | (cfg, None) \<Rightarrow>
          (case en_etcdConnect env (et_Endpoints (sc_Etcd cfg)) of
             Some err \<Rightarrow> Exited (EtcdConnect err)
           | None \<Rightarrow>
               (case (next_hops (sc_EdgeAddrs cfg), next_hops (sc_EdgeAddrs6 cfg)) of
                  (Some edgeAddrs, Some edgeAddrs6) \<Rightarrow>
                    (let sh = WithDefaults (sc_Sharding cfg);
                         (sv, cp) = NewControlPlane env (start_options cfg edgeAddrs edgeAddrs6) now
                     in if yc_DSN (sc_Yugabyte cfg) = [] then Exited YugabyteMissing
                        else case en_ybConnect env (yc_DSN (sc_Yugabyte cfg)) of
                          Some err \<Rightarrow> Exited (YugabyteConnect err)
                        | None \<Rightarrow>
                            if \<exists>i \<in> set (tick_intervals cfg). i \<le> 0 then Panicked
                            else Running
                              \<lparr>sr_srv = SetEdgeVer (Some \<lparr>ev_cli = en_kv env, ev_prefix = et_Prefix (sc_Etcd cfg)\<rparr>) sv,
                               sr_cp = start_emitter env cfg cp,
                               sr_cap = NewCapacityCache (yc_CapRefresh (sc_Yugabyte cfg)),
                               sr_voter = \<lparr>vt_cli = en_lease env, vt_prefix = et_Prefix (sc_Etcd cfg),
                                 vt_self = ResolveReplicaID (sc_ReplicaID cfg), vt_ttl = sh_LeaseTTL sh, vt_leaseID = 0\<rparr>,
                               sr_ticks = tick_intervals cfg\<rparr>)
                | _ \<Rightarrow> Panicked)))"

section \<open>What a start leads to\<close>

lemma tick_positive:
  assumes "sc_DriftSweepInterval cfg \<noteq> 0"
  shows "(\<exists>i \<in> set (tick_intervals cfg). i \<le> 0) \<longleftrightarrow> sc_DriftSweepInterval cfg < 0"
  using assms by (auto simp: tick_intervals_def)

text \<open>A validated configuration has next hops that parse, so the start is decided by the connections and the sweep interval.\<close>

lemma start_main_eq:
  assumes "LoadConfig ce path = (cfg, None)"
  obtains m4 m6 where "next_hops (sc_EdgeAddrs cfg) = Some m4" "next_hops (sc_EdgeAddrs6 cfg) = Some m6"
    "\<And>e a. m4 e = Some a \<Longrightarrow> Is4 a" "\<And>e a. m6 e = Some a \<Longrightarrow> Is6 a"
proof -
  note v = Validate_None [OF LoadConfig_ok(2) [OF assms]]
  from next_hops_ok [OF v(3)] obtain m4 where m4: "next_hops (sc_EdgeAddrs cfg) = Some m4" "\<forall>e a. m4 e = Some a \<longrightarrow> Is4 a"
    by (elim exE conjE)
  from next_hops_ok [OF v(4)] obtain m6 where m6: "next_hops (sc_EdgeAddrs6 cfg) = Some m6" "\<forall>e a. m6 e = Some a \<longrightarrow> Is6 a"
    by (elim exE conjE)
  show thesis by (rule that [OF m4(1) m6(1)]) (simp_all add: m4(2) m6(2))
qed

text \<open>
  C26: A start panics for one reason. Whatever the file and the environment hold, the entry point panics exactly when the configuration is accepted, both
  stores connect, and the drift sweep interval is negative, which the validation does not refuse; next hops never make it panic.
\<close>

theorem start_panics_exactly:
  "start_main ce env path now = Panicked \<longleftrightarrow>
     (\<exists>cfg. LoadConfig ce path = (cfg, None) \<and> en_etcdConnect env (et_Endpoints (sc_Etcd cfg)) = None
        \<and> yc_DSN (sc_Yugabyte cfg) \<noteq> [] \<and> en_ybConnect env (yc_DSN (sc_Yugabyte cfg)) = None \<and> sc_DriftSweepInterval cfg < 0)"
proof -
  obtain cfg err where l: "LoadConfig ce path = (cfg, err)" by (cases "LoadConfig ce path")
  show ?thesis
  proof (cases err)
    case None
    then have ok: "LoadConfig ce path = (cfg, None)" using l by simp
    obtain m4 m6 where "next_hops (sc_EdgeAddrs cfg) = Some m4" "next_hops (sc_EdgeAddrs6 cfg) = Some m6"
      by (rule start_main_eq [OF ok]) blast
    then show ?thesis
      by (simp add: start_main_def ok tick_positive [OF LoadConfig_ok(1) [OF ok]] Let_def split_beta split: option.split)
  qed (simp add: start_main_def l)
qed

lemma quorum_New: "quorum (New g m now) = max 1 (quorum m)"
  by (simp add: New_def Let_def)

lemma New_fields [simp]: "edges (New g m now) = Map.empty" "selfID (New g m now) = selfID m"
  by (simp_all add: New_def Let_def)

lemma cp_defaults_simps [simp]:
  "op_EdgeAddrs (cp_defaults opt) = op_EdgeAddrs opt" "op_EdgeAddrs6 (cp_defaults opt) = op_EdgeAddrs6 opt"
  "op_MemberPresenceTTL (cp_defaults opt) = op_MemberPresenceTTL opt"
  "op_LivenessQuorum (cp_defaults opt) = op_LivenessQuorum opt" "op_SelfID (cp_defaults opt) = op_SelfID opt"
  "op_CoverageK (cp_defaults opt) = (if op_CoverageK opt = 0 then 1 else op_CoverageK opt)"
  "op_Prefix (cp_defaults opt) = (if op_Prefix opt = [] then ''sbw/'' else op_Prefix opt)"
  by (simp_all add: cp_defaults_def Let_def)

lemma start_emitter_simps [simp]:
  "cp_Liveness (start_emitter env cfg cp) = cp_Liveness cp" "cp_fan (start_emitter env cfg cp) = cp_fan cp"
  "cp_presence (start_emitter env cfg cp) = cp_presence cp" "cp_pending (start_emitter env cfg cp) = cp_pending cp"
  by (simp_all add: start_emitter_def SetAPIResultEmitter_def split: sum.split)

lemma start_main_Running:
  assumes "start_main ce env path now = Running r"
  obtains cfg m4 m6 where "LoadConfig ce path = (cfg, None)"
    "\<And>e a. m4 e = Some a \<Longrightarrow> Is4 a" "\<And>e a. m6 e = Some a \<Longrightarrow> Is6 a"
    "0 < sc_DriftSweepInterval cfg"
    "r = \<lparr>sr_srv = SetEdgeVer (Some \<lparr>ev_cli = en_kv env, ev_prefix = et_Prefix (sc_Etcd cfg)\<rparr>)
            (fst (NewControlPlane env (start_options cfg m4 m6) now)),
         sr_cp = start_emitter env cfg (snd (NewControlPlane env (start_options cfg m4 m6) now)),
         sr_cap = NewCapacityCache (yc_CapRefresh (sc_Yugabyte cfg)),
         sr_voter = \<lparr>vt_cli = en_lease env, vt_prefix = et_Prefix (sc_Etcd cfg), vt_self = ResolveReplicaID (sc_ReplicaID cfg),
           vt_ttl = sh_LeaseTTL (WithDefaults (sc_Sharding cfg)), vt_leaseID = 0\<rparr>,
         sr_ticks = tick_intervals cfg\<rparr>"
proof -
  obtain cfg err where l: "LoadConfig ce path = (cfg, err)" by (cases "LoadConfig ce path")
  have err: "err = None" using assms l by (cases err) (simp_all add: start_main_def)
  then have ok: "LoadConfig ce path = (cfg, None)" using l by simp
  obtain m4 m6 where m: "next_hops (sc_EdgeAddrs cfg) = Some m4" "next_hops (sc_EdgeAddrs6 cfg) = Some m6"
    "\<And>e a. m4 e = Some a \<Longrightarrow> Is4 a" "\<And>e a. m6 e = Some a \<Longrightarrow> Is6 a" by (rule start_main_eq [OF ok]) blast
  have ne: "sc_DriftSweepInterval cfg \<noteq> 0" by (rule LoadConfig_ok [OF ok])
  show thesis
    using assms ne by (intro that [OF ok m(3,4)])
      (auto simp: start_main_def ok m(1,2) tick_positive [OF ne] Let_def split_beta split: option.splits if_splits)
qed

text \<open>
  C14: A server that starts is well-formed, whatever the file and the environment hold: the failover quorum is between one and the number of coverers of an
  edge, which is the same for routing and coverage; the version store is wired; every next hop is of its map's family;
  the monitor's own vote goes under the identity the voter publishes; no edge is dead; the stream, presence and pending maps
  satisfy their invariants; every ticker has a positive interval; and with a configured key prefix all etcd clients use it.
\<close>

theorem started_server_ok:
  assumes "start_main ce env path now = Running r"
  shows "1 \<le> quorum (cp_Liveness (sr_cp r)) \<and> quorum (cp_Liveness (sr_cp r)) \<le> fn_k (cp_fan (sr_cp r))
    \<and> oc_edgever (sv_orc (sr_srv r)) \<noteq> None
    \<and> ran (oc_EdgeAddrs (sv_orc (sr_srv r))) \<subseteq> {a. Is4 a} \<and> ran (oc_EdgeAddrs6 (sv_orc (sr_srv r))) \<subseteq> {a. Is6 a}
    \<and> localVoteKey (cp_Liveness (sr_cp r)) = vt_self (sr_voter r) \<and> {e. IsDead (cp_Liveness (sr_cp r)) t e} = {}
    \<and> fan_ok (cp_fan (sr_cp r)) \<and> presence_ok (cp_presence (sr_cp r)) \<and> 0 < mp_ttl (cp_presence (sr_cp r))
    \<and> pending_ok (sr_cp r) \<and> list_all (\<lambda>i. 0 < i) (sr_ticks r)
    \<and> (vt_prefix (sr_voter r) = [] \<or> {rg_prefix (oc_reg (sv_orc (sr_srv r))), ld_prefix (sv_led (sr_srv r)),
          ev_prefix (the (oc_edgever (sv_orc (sr_srv r))))} = {vt_prefix (sr_voter r)})"
proof -
  obtain cfg m4 m6 where ok: "LoadConfig ce path = (cfg, None)" and m: "\<And>e a. m4 e = Some a \<Longrightarrow> Is4 a" "\<And>e a. m6 e = Some a \<Longrightarrow> Is6 a"
    and i: "0 < sc_DriftSweepInterval cfg"
    and r: "r = \<lparr>sr_srv = SetEdgeVer (Some \<lparr>ev_cli = en_kv env, ev_prefix = et_Prefix (sc_Etcd cfg)\<rparr>)
            (fst (NewControlPlane env (start_options cfg m4 m6) now)),
         sr_cp = start_emitter env cfg (snd (NewControlPlane env (start_options cfg m4 m6) now)),
         sr_cap = NewCapacityCache (yc_CapRefresh (sc_Yugabyte cfg)),
         sr_voter = \<lparr>vt_cli = en_lease env, vt_prefix = et_Prefix (sc_Etcd cfg), vt_self = ResolveReplicaID (sc_ReplicaID cfg),
           vt_ttl = sh_LeaseTTL (WithDefaults (sc_Sharding cfg)), vt_leaseID = 0\<rparr>,
         sr_ticks = tick_intervals cfg\<rparr>"
    by (rule start_main_Running [OF assms]) blast
  note k = WithDefaults_range [OF Validate_None(5) [OF LoadConfig_ok(2) [OF ok]]]
  have q: "1 \<le> quorum (cp_Liveness (sr_cp r))" "quorum (cp_Liveness (sr_cp r)) \<le> fn_k (cp_fan (sr_cp r))"
    using k by (simp_all add: r NewControlPlane_def cp_new_def cp_monitor_def quorum_New newDesiredFan_def start_options_def Let_def)
  have orc: "oc_edgever (sv_orc (sr_srv r)) = Some \<lparr>ev_cli = en_kv env, ev_prefix = et_Prefix (sc_Etcd cfg)\<rparr>"
    "oc_EdgeAddrs (sv_orc (sr_srv r)) = m4" "oc_EdgeAddrs6 (sv_orc (sr_srv r)) = m6"
    "rg_prefix (oc_reg (sv_orc (sr_srv r))) = (if et_Prefix (sc_Etcd cfg) = [] then ''sbw/'' else et_Prefix (sc_Etcd cfg))"
    "ld_prefix (sv_led (sr_srv r)) = (if et_Prefix (sc_Etcd cfg) = [] then ''sbw/'' else et_Prefix (sc_Etcd cfg))"
    by (simp_all add: r SetEdgeVer_def NewControlPlane_def orch_New_def WithReplicas_def WithEdgeAddrs_def WithEdgeAddrs6_def
        WithHomeMarker_def WithAdvertiseGate_def WithLiveness_def WithSessionBudget_def WithDoubleDeathAlarm_def start_options_def Let_def)
  have cp: "edges (cp_Liveness (sr_cp r)) = Map.empty" "selfID (cp_Liveness (sr_cp r)) = ResolveReplicaID (sc_ReplicaID cfg)"
    "cp_fan (sr_cp r) = newDesiredFan (sh_K (WithDefaults (sc_Sharding cfg)))" "cp_presence (sr_cp r) = newMemberPresence 0" "cp_pending (sr_cp r) = []"
    using k by (simp_all add: r NewControlPlane_def cp_new_def cp_monitor_def start_options_def Let_def)
  have "fan_ok (cp_fan (sr_cp r))" by (simp add: cp(3) fan_ok_def newDesiredFan_def)
  moreover have "presence_ok (cp_presence (sr_cp r)) \<and> 0 < mp_ttl (cp_presence (sr_cp r))"
    by (simp add: cp(4) presence_ok_def newMemberPresence_def defaultMemberPresenceTTL_def)
  moreover have "pending_ok (sr_cp r)" by (simp add: pending_ok_def cp(5))
  moreover have "localVoteKey (cp_Liveness (sr_cp r)) = vt_self (sr_voter r)"
    by (simp add: localVoteKey_def cp(2)) (simp add: r ResolveReplicaID_def)
  moreover have "{e. IsDead (cp_Liveness (sr_cp r)) t e} = {}" by (simp add: IsDead_def cp(1))
  moreover have "list_all (\<lambda>i. 0 < i) (sr_ticks r)" using i by (simp add: r tick_intervals_def)
  moreover have "ran (oc_EdgeAddrs (sv_orc (sr_srv r))) \<subseteq> {a. Is4 a}" "ran (oc_EdgeAddrs6 (sv_orc (sr_srv r))) \<subseteq> {a. Is6 a}"
    using m unfolding orc by (auto simp: ran_def)
  moreover have "vt_prefix (sr_voter r) = et_Prefix (sc_Etcd cfg)" by (simp add: r)
  ultimately show ?thesis using q orc by simp
qed

section \<open>Two starts\<close>

text \<open>A file that sets the database and one next hop; the environment holds nothing but the drift interval given.\<close>

definition demo_getters :: "duration \<Rightarrow> config_env" where
  "demo_getters d = \<lparr>cf_FormatJSON = ''json'',
     cf_LoadFile = (\<lambda>path c. (None, c\<lparr>sc_Yugabyte := (sc_Yugabyte c)\<lparr>yc_DSN := ''dsn''\<rparr>, sc_EdgeAddrs := [(''e1'', ''10.0.0.1'')]\<rparr>)),
     cf_String = (\<lambda>k x. x), cf_Strings = (\<lambda>k x. x), cf_Int = (\<lambda>k x. (None, x)), cf_Uint32 = (\<lambda>k x. (None, x)),
     cf_Bool = (\<lambda>k x. (None, x)), cf_DurationEnv = (\<lambda>k x. (None, if k = ''DRIFT_SWEEP_INTERVAL'' then d else x))\<rparr>"

definition demo_environment :: "lease_cluster environment" where
  "demo_environment = \<lparr>en_kv = lx_kv, en_lease = lx_client, en_cx = demo_cx, en_tb = EdgeIdTieBreak, en_fns = demo_fns,
     en_PoolSetHash = (\<lambda>ids. of_nat (length ids)), en_SoftDead = (\<lambda>h. h_State h = HealthDataPlaneDown), en_sched = id,
     en_alive = (\<lambda>n e. True), en_subscribed = (\<lambda>n e. True), en_suppress = (\<lambda>e p. False), en_budget = (\<lambda>e. 0), en_genSeed = (\<lambda>n. 100),
     en_pushErr = (\<lambda>n e. None), en_peers = (\<lambda>n st. st), en_etcdConnect = (\<lambda>es. None), en_ybConnect = (\<lambda>d. None), en_newClient = (\<lambda>bs t. None)\<rparr>"

abbreviation demo_start_with :: "duration \<Rightarrow> lease_cluster start" where
  "demo_start_with d \<equiv> start_main (demo_getters d) demo_environment [] 0"

lemma demo_parse: "ParseScoped ''10.0.0.1'' = Some (V4 167772161)"
  by code_simp

lemma demo_load:
  assumes "d \<noteq> 0"
  obtains cfg where "LoadConfig (demo_getters d) [] = (cfg, None)" "sc_DriftSweepInterval cfg = d" "yc_DSN (sc_Yugabyte cfg) = ''dsn''"
    "sc_Sharding cfg = \<lparr>sh_K = 0, sh_FailoverQuorum = 0, sh_LeaseTTL = 0, sh_HardDebounce = 0, sh_VPPRestartGrace = 0\<rparr>"
    "sc_EdgeAddrs cfg = [(''e1'', ''10.0.0.1'')]" "sc_EdgeAddrs6 cfg = []"
proof -
  have "let (cfg, err) = LoadConfig (demo_getters d) [] in err = None \<and> sc_DriftSweepInterval cfg = d \<and> yc_DSN (sc_Yugabyte cfg) = ''dsn''
     \<and> sc_Sharding cfg = \<lparr>sh_K = 0, sh_FailoverQuorum = 0, sh_LeaseTTL = 0, sh_HardDebounce = 0, sh_VPPRestartGrace = 0\<rparr>
     \<and> sc_EdgeAddrs cfg = [(''e1'', ''10.0.0.1'')] \<and> sc_EdgeAddrs6 cfg = []"
    using assms by (simp add: LoadConfig_def applyEnv_def plain_def checked_def demo_getters_def DefaultConfig_def Validate_def
        bad_addr_def demo_parse)
  then show thesis by (auto simp: Let_def split: prod.splits intro: that)
qed

lemma demo_runs:
  assumes "0 < d"
  obtains r where "demo_start_with d = Running r" "quorum (cp_Liveness (sr_cp r)) = 2" "fn_k (cp_fan (sr_cp r)) = 2"
proof -
  obtain cfg where c: "LoadConfig (demo_getters d) [] = (cfg, None)" "sc_DriftSweepInterval cfg = d"
    "yc_DSN (sc_Yugabyte cfg) = ''dsn''"
    "sc_Sharding cfg = \<lparr>sh_K = 0, sh_FailoverQuorum = 0, sh_LeaseTTL = 0, sh_HardDebounce = 0, sh_VPPRestartGrace = 0\<rparr>"
    "sc_EdgeAddrs cfg = [(''e1'', ''10.0.0.1'')]" "sc_EdgeAddrs6 cfg = []" by (rule demo_load [of d]) (use assms in simp_all)
  have t: "(\<exists>i \<in> set (tick_intervals cfg). i \<le> 0) = False" by (subst tick_positive) (use assms in \<open>simp_all add: c(2)\<close>)
  have conn: "en_etcdConnect demo_environment = (\<lambda>es. None)" "en_ybConnect demo_environment = (\<lambda>d. None)" by (simp_all add: demo_environment_def)
  obtain sv cp where n: "NewControlPlane demo_environment (start_options cfg [''e1'' \<mapsto> V4 167772161] Map.empty) 0 = (sv, cp)" by (rule prod.exhaust)
  then have "quorum (cp_Liveness cp) = 2" "fn_k (cp_fan cp) = 2"
    by (auto simp: NewControlPlane_def cp_new_def cp_monitor_def quorum_New newDesiredFan_def start_options_def c(4) WithDefaults_def Let_def)
  moreover obtain r where "demo_start_with d = Running r" "sr_cp r = start_emitter demo_environment cfg cp"
    by (simp add: start_main_def c(1,3,5,6) demo_parse conn n t)
  ultimately show thesis by (intro that [of r]) simp_all
qed

theorem started_server_ok_witness:
  "\<exists>r. demo_start_with (seconds 30) = Running r \<and> quorum (cp_Liveness (sr_cp r)) = 2 \<and> fn_k (cp_fan (sr_cp r)) = 2
     \<and> localVoteKey (cp_Liveness (sr_cp r)) = vt_self (sr_voter r)"
proof -
  obtain r where r: "demo_start_with (seconds 30) = Running r" "quorum (cp_Liveness (sr_cp r)) = 2" "fn_k (cp_fan (sr_cp r)) = 2"
    by (rule demo_runs [of "seconds 30"]) simp
  then show ?thesis using started_server_ok [OF r(1)] by blast
qed

text \<open>The validation accepts a negative sweep interval, on which the ticker of the sweep panics.\<close>

lemma negative_sweep_interval_panics: "snd (LoadConfig (demo_getters (- 1)) []) = None \<and> demo_start_with (- 1) = Panicked"
proof -
  obtain cfg where c: "LoadConfig (demo_getters (- 1)) [] = (cfg, None)" "sc_DriftSweepInterval cfg = - 1"
    "yc_DSN (sc_Yugabyte cfg) = ''dsn''" "sc_EdgeAddrs cfg = [(''e1'', ''10.0.0.1'')]" "sc_EdgeAddrs6 cfg = []"
    by (rule demo_load [of "- 1"]) simp_all
  have "\<exists>i \<in> set (tick_intervals cfg). i \<le> 0" by (subst tick_positive) (simp_all add: c(2))
  moreover have "en_etcdConnect demo_environment = (\<lambda>es. None)" "en_ybConnect demo_environment = (\<lambda>d. None)" by (simp_all add: demo_environment_def)
  ultimately show ?thesis by (simp add: start_main_def c(1,3,4,5) demo_parse split: prod.split)
qed

end
