(* ===== verification/Ctrlreg.thy ===== *)
theory Ctrlreg
  imports Fan DeathVote Registry
begin

text \<open>
  The membership of the controllers (\<open>internal/ctrlreg/ctrlreg.go\<close>) and the coverage they derive from it (\<open>internal/coverage/coverage.go\<close>,
  \<open>assigner.go\<close>). A membership is a key under a lease, listed like the edges of the registry. The interfaces \<open>Members\<close>, \<open>Edges\<close> and
  \<open>TapSink\<close> are fields of the reconciler; the theorems are about the reconciler over the two registries.
\<close>

section \<open>Membership\<close>

record 's member_etcd =
  me_lease :: "'s lease_etcd"
  me_Revoke :: "lease_id \<Rightarrow> 's \<Rightarrow> (string + unit) \<times> 's"

record 's ctrlreg =
  cg_cli :: "'s member_etcd"
  cg_prefix :: string
  cg_ttl :: duration

record membership =
  ms_leaseID :: lease_id
  ms_key :: string
  ms_done :: bool

datatype ctrl_error = GrantLease string | PutController string | KeepAliveLease string | ListControllers string

definition ctrl_listPrefix :: "'s ctrlreg \<Rightarrow> string" where
  "ctrl_listPrefix r = cg_prefix r @ ''controllers/''"

definition ctrl_key :: "'s ctrlreg \<Rightarrow> string \<Rightarrow> string" where
  "ctrl_key r i = cg_prefix r @ ''controllers/'' @ i"

definition unmarshal_ctrl :: "etcd_val \<Rightarrow> controller option" where
  "unmarshal_ctrl v = (case v of JCtrl c \<Rightarrow> Some c | _ \<Rightarrow> None)"

definition Join :: "'s ctrlreg \<Rightarrow> int \<Rightarrow> controller \<Rightarrow> 's \<Rightarrow> (ctrl_error + membership) \<times> 's" where
  "Join r nowMs self s =
     (let ttlSec = (let t = go_div (cg_ttl r) 1000000000 in if t < 1 then 1 else t) in
      case L_Grant (me_lease (cg_cli r)) ttlSec s of
        (Inl err, s) \<Rightarrow> (Inl (GrantLease err), s)
      | (Inr i, s) \<Rightarrow>
          (let self = self\<lparr>ct_RegisteredAt := nowMs\<rparr>; k = ctrl_key r (ct_ID self) in
           case L_Put (me_lease (cg_cli r)) k (JCtrl self) i s of
             (Inl err, s) \<Rightarrow> (Inl (PutController err), snd (me_Revoke (cg_cli r) i s))
           | (Inr _, s) \<Rightarrow>
               (case L_KeepAlive (me_lease (cg_cli r)) i s of
                  (Inl err, s) \<Rightarrow> (Inl (KeepAliveLease err), snd (me_Revoke (cg_cli r) i s))
                | (Inr _, s) \<Rightarrow> (Inr \<lparr>ms_leaseID = i, ms_key = k, ms_done = False\<rparr>, s))))"

definition ctrl_List :: "'s ctrlreg \<Rightarrow> 's \<Rightarrow> (ctrl_error + controller list) \<times> 's" where
  "ctrl_List r s =
     (case E_List (le_kv (me_lease (cg_cli r))) (ctrl_listPrefix r) s of
        (Inl err, s) \<Rightarrow> (Inl (ListControllers err), s)
      | (Inr (kvs, rv), s) \<Rightarrow> (Inr (sort_by (less_key ct_ID) (decoded unmarshal_ctrl kvs)), s))"

definition ctrl_IDs :: "'s ctrlreg \<Rightarrow> 's \<Rightarrow> (ctrl_error + string list) \<times> 's" where
  "ctrl_IDs r s = (case ctrl_List r s of (Inl err, s) \<Rightarrow> (Inl err, s) | (Inr cs, s) \<Rightarrow> (Inr (map ct_ID cs), s))"

definition Endpoints :: "'s ctrlreg \<Rightarrow> 's \<Rightarrow> (ctrl_error + (string \<rightharpoonup> string)) \<times> 's" where
  "Endpoints r s = (case ctrl_List r s of
     (Inl err, s) \<Rightarrow> (Inl err, s)
   | (Inr cs, s) \<Rightarrow> (Inr (fold (\<lambda>c m. m(ct_ID c \<mapsto> ct_GRPCEndpoint c)) cs Map.empty), s))"

text \<open>\<open>Watch\<close>: the first snapshot, then one listing per response of the watch; a failed listing is skipped.\<close>

fun watch_responses :: "'s ctrlreg \<Rightarrow> nat \<Rightarrow> 's \<Rightarrow> controller list list \<times> 's" where
  "watch_responses r 0 s = ([], s)"
| "watch_responses r (Suc n) s = (case ctrl_List r s of
     (Inl _, s) \<Rightarrow> watch_responses r n s
   | (Inr cs, s) \<Rightarrow> (case watch_responses r n s of (out, s) \<Rightarrow> (cs # out, s)))"

definition ctrl_Watch :: "'s ctrlreg \<Rightarrow> nat \<Rightarrow> 's \<Rightarrow> (ctrl_error + controller list list) \<times> 's" where
  "ctrl_Watch r n s = (case ctrl_List r s of
     (Inl err, s) \<Rightarrow> (Inl err, s)
   | (Inr cs, s) \<Rightarrow> (case watch_responses r n s of (out, s) \<Rightarrow> (Inr (cs # out), s)))"

definition ctrl_Close :: "'s member_etcd \<Rightarrow> membership \<Rightarrow> 's \<Rightarrow> (string option \<times> membership) \<times> 's" where
  "ctrl_Close cli m s =
     (if ms_done m then ((None, m), s)
      else
        let m = m\<lparr>ms_done := True\<rparr>;
            (_, s) = E_Do (le_kv (me_lease cli)) (OpDelete (ms_key m)) s
        in case me_Revoke cli (ms_leaseID m) s of
             (Inl err, s) \<Rightarrow> ((Some err, m), s)
           | (Inr _, s) \<Rightarrow> ((None, m), s))"

section \<open>Coverage\<close>

datatype cover_error = CoMembers ctrl_error | CoEdges reg_error | CoTap string

record 's reconciler =
  rc_self :: string
  rc_k :: int
  rc_members :: "'s \<Rightarrow> (ctrl_error + string list) \<times> 's"
  rc_edges :: "'s \<Rightarrow> (reg_error + edge_id list) \<times> 's"
  rc_tap :: "edge_id list \<Rightarrow> 's \<Rightarrow> string option \<times> 's"

definition cov_New :: "string \<Rightarrow> int \<Rightarrow> ('s \<Rightarrow> (ctrl_error + string list) \<times> 's) \<Rightarrow> ('s \<Rightarrow> (reg_error + edge_id list) \<times> 's)
    \<Rightarrow> (edge_id list \<Rightarrow> 's \<Rightarrow> string option \<times> 's) \<Rightarrow> 's reconciler" where
  "cov_New self k ms es tap =
     \<lparr>rc_self = self, rc_k = (if k < 1 then 1 else k), rc_members = ms, rc_edges = es, rc_tap = tap\<rparr>"

definition covered :: "'s reconciler \<Rightarrow> edge_id list \<Rightarrow> string list \<Rightarrow> edge_id list" where
  "covered rc es ctrls = filter (\<lambda>e. Covers (rc_self rc) e ctrls (rc_k rc)) es"

text \<open>What \<open>Reconcile\<close> passes to the tap.\<close>

definition cover_target :: "'s reconciler \<Rightarrow> 's \<Rightarrow> (cover_error + edge_id list) \<times> 's" where
  "cover_target rc s =
     (case rc_members rc s of
        (Inl err, s) \<Rightarrow> (Inl (CoMembers err), s)
      | (Inr ctrls, s) \<Rightarrow>
          (case rc_edges rc s of
             (Inl err, s) \<Rightarrow> (Inl (CoEdges err), s)
           | (Inr es, s) \<Rightarrow> (Inr (covered rc es ctrls), s)))"

definition cov_Reconcile :: "'s reconciler \<Rightarrow> 's \<Rightarrow> cover_error option \<times> 's" where
  "cov_Reconcile rc s =
     (case cover_target rc s of
        (Inl err, s) \<Rightarrow> (Some err, s)
      | (Inr es, s) \<Rightarrow> (case rc_tap rc es s of (err, s) \<Rightarrow> (map_option CoTap err, s)))"

text \<open>\<open>Run\<close>: once at the start, then on every trigger and tick; a closed trigger is no longer selected. The errors are handed to \<open>onErr\<close>.\<close>

datatype signal = Trigger | TriggerClosed | Ticked

fun cov_signals :: "'s reconciler \<Rightarrow> bool \<Rightarrow> signal list \<Rightarrow> 's \<Rightarrow> cover_error list \<times> 's" where
  "cov_signals rc opened [] s = ([], s)"
| "cov_signals rc opened (g # gs) s =
     (if g = TriggerClosed then cov_signals rc False gs s
      else if g = Trigger \<and> \<not> opened then cov_signals rc opened gs s
      else case cov_Reconcile rc s of (err, s) \<Rightarrow>
        (case cov_signals rc opened gs s of (errs, s) \<Rightarrow> ((case err of None \<Rightarrow> errs | Some e \<Rightarrow> e # errs), s)))"

definition cov_Run :: "'s reconciler \<Rightarrow> signal list \<Rightarrow> 's \<Rightarrow> cover_error list \<times> 's" where
  "cov_Run rc gs s =
     (case cov_Reconcile rc s of (err, s) \<Rightarrow>
        (case cov_signals rc True gs s of (errs, s) \<Rightarrow> ((case err of None \<Rightarrow> errs | Some e \<Rightarrow> e # errs), s)))"

definition CoverersOf :: "'s reconciler \<Rightarrow> edge_id \<Rightarrow> 's \<Rightarrow> (ctrl_error + string list) \<times> 's" where
  "CoverersOf rc e s = (case rc_members rc s of
     (Inl err, s) \<Rightarrow> (Inl err, s) | (Inr ctrls, s) \<Rightarrow> (Inr (Coverers e ctrls (rc_k rc)), s))"

definition cov_Covers :: "'s reconciler \<Rightarrow> edge_id \<Rightarrow> 's \<Rightarrow> (ctrl_error + bool) \<times> 's" where
  "cov_Covers rc e s = (case rc_members rc s of
     (Inl err, s) \<Rightarrow> (Inl err, s) | (Inr ctrls, s) \<Rightarrow> (Inr (Covers (rc_self rc) e ctrls (rc_k rc)), s))"

text \<open>A missing endpoint is the empty string.\<close>

definition Assign :: "'s reconciler \<Rightarrow> ('s \<Rightarrow> (ctrl_error + (string \<rightharpoonup> string)) \<times> 's) \<Rightarrow> edge_id \<Rightarrow> 's
    \<Rightarrow> (ctrl_error + coverer_assignment) \<times> 's" where
  "Assign rc ep e s =
     (case CoverersOf rc e s of
        (Inl err, s) \<Rightarrow> (Inl err, s)
      | (Inr ids, s) \<Rightarrow>
          (case ep s of
             (Inl err, s) \<Rightarrow> (Inl err, s)
           | (Inr eps, s) \<Rightarrow>
               (Inr \<lparr>as_EdgeID = e, as_Coverers = map (\<lambda>(i, c). \<lparr>cv_ControllerID = c,
                  cv_GRPCEndpoint = (case eps c of None \<Rightarrow> [] | Some x \<Rightarrow> x), cv_Primary = (i = 0)\<rparr>) (enumerate 0 ids)\<rparr>, s)))"

section \<open>The live controllers\<close>

definition controllers :: "'s ctrlreg \<Rightarrow> etcd_log \<Rightarrow> string \<rightharpoonup> controller" where
  "controllers r = entry_at unmarshal_ctrl (ctrl_key r)"

definition ctrl_inv :: "'s ctrlreg \<Rightarrow> etcd_log \<Rightarrow> bool" where
  "ctrl_inv r = own_keys unmarshal_ctrl (ctrl_key r) ct_ID"

interpretation ctrls: directory unmarshal_ctrl "ctrl_key r" ct_ID "ctrl_listPrefix r" for r :: "'s ctrlreg"
  by unfold_locales (auto simp: ctrl_listPrefix_def ctrl_key_def prefix_def)

abbreviation ctrls_at :: "'s ctrlreg \<Rightarrow> etcd_log \<Rightarrow> controller list" where
  "ctrls_at r \<equiv> listing unmarshal_ctrl ct_ID (ctrl_listPrefix r)"

text \<open>A listing between two states with the same log reads that log.\<close>

lemma quiet_logs:
  assumes "prefix a l1" "prefix l1 b" "prefix b l2" "prefix l2 c" "a = l" "c = l"
  shows "l1 = l" "l2 = l"
proof -
  have b: "prefix l1 l" "prefix l l2" using assms prefix_order.trans by metis+
  show "l1 = l" using b(1) assms(1,5) by (simp add: prefix_order.antisym)
  show "l2 = l" using b(2) assms(4,6) by (simp add: prefix_order.antisym)
qed

lemma ctrl_List_at:
  assumes "etcd_client (le_kv (me_lease (cg_cli r))) log" "ctrl_List r s = (Inr cs, s')"
  shows "\<exists>l. prefix (log s) l \<and> prefix l (log s') \<and> cs = ctrls_at r l"
proof -
  obtain kvs rv where e: "E_List (le_kv (me_lease (cg_cli r))) (ctrl_listPrefix r) s = (Inr (kvs, rv), s')"
    and cs: "cs = sort_by (less_key ct_ID) (decoded unmarshal_ctrl kvs)"
    using assms(2) by (auto simp: ctrl_List_def split: prod.splits sum.splits)
  from etcd_client.list_ok [OF assms(1) e] show ?thesis by (auto simp: cs listing_def)
qed

lemma distinct_live: "ctrl_inv r l \<Longrightarrow> distinct (map ct_ID (ctrls_at r l))"
  unfolding ctrl_inv_def by (rule ctrls.distinct_listing)

lemma set_live: "ctrl_inv r l \<Longrightarrow> set (map ct_ID (ctrls_at r l)) = dom (controllers r l)"
  unfolding ctrl_inv_def controllers_def by (rule ctrls.dom_listing)

lemma endpoints_fold:
  "distinct (map ct_ID cs) \<Longrightarrow> fold (\<lambda>c m. m(ct_ID c \<mapsto> ct_GRPCEndpoint c)) cs m =
     m ++ map_of (map (\<lambda>c. (ct_ID c, ct_GRPCEndpoint c)) cs)"
proof (induction cs arbitrary: m)
  case (Cons c cs)
  let ?m = "map_of (map (\<lambda>c. (ct_ID c, ct_GRPCEndpoint c)) cs)"
  have "?m (ct_ID c) = None" using Cons.prems by (auto simp: map_of_eq_None_iff)
  then have "m(ct_ID c \<mapsto> ct_GRPCEndpoint c) ++ ?m = m ++ ?m(ct_ID c \<mapsto> ct_GRPCEndpoint c)"
    by (auto simp: fun_eq_iff map_add_def split: option.splits)
  then show ?case using Cons by (simp only: fold_simps map_of.simps list.map fst_conv snd_conv distinct.simps o_apply)
qed simp

lemma endpoint_of:
  assumes "ctrl_inv r l" "i \<in> dom (controllers r l)"
  shows "map_of (map (\<lambda>c. (ct_ID c, ct_GRPCEndpoint c)) (ctrls_at r l)) i = map_option ct_GRPCEndpoint (controllers r l i)"
proof -
  note inv = assms(1) [unfolded ctrl_inv_def]
  obtain c where c: "controllers r l i = Some c" using assms(2) by blast
  then have "ct_ID c = i" "c \<in> set (ctrls_at r l)"
    using inv by (auto simp: controllers_def own_keys_def ctrls.set_listing ranI)
  then have "(i, ct_GRPCEndpoint c) \<in> set (map (\<lambda>c. (ct_ID c, ct_GRPCEndpoint c)) (ctrls_at r l))" by auto
  moreover have "distinct (map fst (map (\<lambda>c. (ct_ID c, ct_GRPCEndpoint c)) (ctrls_at r l)))"
    using distinct_live [OF assms(1)] by (simp add: o_def)
  ultimately show ?thesis using c by (simp add: map_of_is_SomeI)
qed

section \<open>The fleet covers every edge\<close>

definition replica :: "'s ctrlreg \<Rightarrow> 's registry \<Rightarrow> int \<Rightarrow> (edge_id list \<Rightarrow> 's \<Rightarrow> string option \<times> 's) \<Rightarrow> string \<Rightarrow> 's reconciler" where
  "replica r reg k tap self = cov_New self k (ctrl_IDs r) (EdgeIDs reg) tap"

lemma replica_members:
  assumes "etcd_client (le_kv (me_lease (cg_cli r))) log" "rc_members (replica r reg k tap self) s = (Inr ids, s')"
  shows "\<exists>l. prefix (log s) l \<and> prefix l (log s') \<and> ids = map ct_ID (ctrls_at r l)"
proof -
  obtain cs where "ctrl_List r s = (Inr cs, s')" "ids = map ct_ID cs"
    using assms(2) by (auto simp: replica_def cov_New_def ctrl_IDs_def split: prod.splits sum.splits)
  then show ?thesis using ctrl_List_at [OF assms(1)] by blast
qed

lemma replica_target:
  assumes cl: "etcd_client (le_kv (me_lease (cg_cli r))) log" "etcd_client (rg_kv reg) log"
    and run: "cover_target (replica r reg k tap self) s = (Inr es, s')" and quiet: "log s = l" "log s' = l" and k: "1 \<le> k"
  shows "es = filter (\<lambda>e. self \<in> set (Coverers e (map ct_ID (ctrls_at r l)) k)) (map ag_EdgeID (agents_at reg l))"
proof -
  obtain ids s1 eids where m: "rc_members (replica r reg k tap self) s = (Inr ids, s1)" "EdgeIDs reg s1 = (Inr eids, s')"
    "es = covered (replica r reg k tap self) eids ids"
    using run by (auto simp: cover_target_def replica_def cov_New_def split: prod.splits sum.splits)
  from replica_members [OF cl(1) m(1)] obtain l1 where l1: "prefix (log s) l1" "prefix l1 (log s1)" "ids = map ct_ID (ctrls_at r l1)" by blast
  obtain as where as: "reg_List reg s1 = (Inr as, s')" "eids = map ag_EdgeID as"
    using m(2) by (auto simp: EdgeIDs_def split: prod.splits sum.splits)
  from reg_List_at [OF cl(2) as(1)] obtain l2 where l2: "prefix (log s1) l2" "prefix l2 (log s')" "as = agents_at reg l2" by blast
  note l12 = quiet_logs [OF l1(1,2) l2(1,2) quiet]
  show ?thesis using l12 l1(3) l2(3) as(2) m(3) k by (simp add: covered_def replica_def cov_New_def)
qed

text \<open>What \<open>Assign\<close> returns between two states with the same log.\<close>

lemma Assign_at:
  assumes cl: "etcd_client (le_kv (me_lease (cg_cli r))) log" and inv: "ctrl_inv r l" and k: "1 \<le> k"
    and asg: "Assign (replica r reg k tap self) (Endpoints r) e s = (Inr a, s')" "log s = l" "log s' = l"
  defines "cov \<equiv> Coverers e (map ct_ID (ctrls_at r l)) k"
  shows "as_Coverers a = map (\<lambda>(i, c). \<lparr>cv_ControllerID = c, cv_GRPCEndpoint =
    (case map_option ct_GRPCEndpoint (controllers r l c) of None \<Rightarrow> [] | Some x \<Rightarrow> x), cv_Primary = (i = 0)\<rparr>) (enumerate 0 cov)"
proof -
  obtain ids s1 cs where m: "rc_members (replica r reg k tap self) s = (Inr ids, s1)" and cs: "ctrl_List r s1 = (Inr cs, s')"
    and a: "as_Coverers a = map (\<lambda>(i, c). \<lparr>cv_ControllerID = c, cv_GRPCEndpoint =
        (case fold (\<lambda>c m. m(ct_ID c \<mapsto> ct_GRPCEndpoint c)) cs Map.empty c of None \<Rightarrow> [] | Some x \<Rightarrow> x),
        cv_Primary = (i = 0)\<rparr>) (enumerate 0 (Coverers e ids k))"
    using asg(1) k by (auto simp: Assign_def CoverersOf_def Endpoints_def replica_def cov_New_def split: prod.splits sum.splits)
  from replica_members [OF cl m] obtain l1 where l1: "prefix (log s) l1" "prefix l1 (log s1)" "ids = map ct_ID (ctrls_at r l1)" by blast
  from ctrl_List_at [OF cl cs] obtain l2 where l2: "prefix (log s1) l2" "prefix l2 (log s')" "cs = ctrls_at r l2" by blast
  note l12 = quiet_logs [OF l1(1,2) l2(1,2) asg(2,3)]
  have ep: "fold (\<lambda>c m. m(ct_ID c \<mapsto> ct_GRPCEndpoint c)) cs Map.empty c = map_option ct_GRPCEndpoint (controllers r l c)" if "c \<in> set cov" for c
  proof -
    have "c \<in> dom (controllers r l)" using that set_live [OF inv] hrw.sel_subset unfolding cov_def by blast
    from endpoint_of [OF inv this] show ?thesis using distinct_live [OF inv] by (simp add: l2(3) l12 endpoints_fold)
  qed
  show ?thesis
    unfolding a l1(3) l12 cov_def [symmetric] using ep by (intro map_cong) (auto simp: enumerate_eq_zip dest: set_zip_rightD)
qed


section \<open>A fleet of three\<close>

text \<open>Three controllers joined and two edges registered; the tap only counts.\<close>

definition demo_ctrl :: "string \<Rightarrow> controller" where
  "demo_ctrl i = \<lparr>ct_ID = i, ct_GRPCEndpoint = i @ '':1791'', ct_RegisteredAt = 1\<rparr>"

definition demo_fleet :: lease_cluster where
  "demo_fleet = \<lparr>lx_cl = \<lparr>cl_log = map (\<lambda>i. [OpPut (''sbw/controllers/'' @ i) (JCtrl (demo_ctrl i))]) [''a'', ''b'', ''c'']
      @ map (\<lambda>e. [OpPut (''sbw/agents/'' @ e) (JAgent \<lparr>ag_EdgeID = e, ag_CapacityBps = 10, ag_RegisteredAt = 1\<rparr>)]) [''e1'', ''e2''],
      cl_peers = [], cl_faults = []\<rparr>, lx_live = [], lx_next = 1, lx_losses = []\<rparr>"

definition demo_ctrlreg :: "lease_cluster ctrlreg" where
  "demo_ctrlreg = \<lparr>cg_cli = \<lparr>me_lease = lx_client, me_Revoke = (\<lambda>i s. (Inr (), s\<lparr>lx_live := filter (\<lambda>j. j \<noteq> i) (lx_live s)\<rparr>))\<rparr>,
     cg_prefix = ''sbw/'', cg_ttl = seconds 10\<rparr>"

definition demo_edges :: "lease_cluster registry" where
  "demo_edges = \<lparr>rg_kv = lx_kv, rg_prefix = ''sbw/''\<rparr>"

abbreviation demo_replica :: "string \<Rightarrow> lease_cluster reconciler" where
  "demo_replica c \<equiv> replica demo_ctrlreg demo_edges 2 (\<lambda>es s. (None, s)) c"

lemma demo_fleet_inv: "ctrl_inv demo_ctrlreg (cl_log (lx_cl demo_fleet))" "reg_inv demo_edges (cl_log (lx_cl demo_fleet))"
  by (auto simp: ctrl_inv_def reg_inv_def own_keys_def entry_at_def demo_fleet_def demo_ctrlreg_def demo_edges_def ctrl_key_def reg_key_def
      kv_at_def apply_ops_def apply_op_def unmarshal_ctrl_def unmarshal_agent_def demo_ctrl_def split: if_splits option.splits)

lemma demo_fleet_reads:
  "ctrl_IDs demo_ctrlreg demo_fleet = (Inr [''a'', ''b'', ''c''], demo_fleet)" "EdgeIDs demo_edges demo_fleet = (Inr [''e1'', ''e2''], demo_fleet)"
  "map ct_ID (ctrls_at demo_ctrlreg (cl_log (lx_cl demo_fleet))) = [''a'', ''b'', ''c'']"
  "map ag_EdgeID (agents_at demo_edges (cl_log (lx_cl demo_fleet))) = [''e1'', ''e2'']"
  by code_simp+

definition demo_covered :: "string \<Rightarrow> edge_id list" where
  "demo_covered c = filter (\<lambda>e. Covers c e [''a'', ''b'', ''c''] 2) [''e1'', ''e2'']"

lemma demo_fleet_targets: "cover_target (demo_replica c) demo_fleet = (Inr (demo_covered c), demo_fleet)"
  by (simp add: cover_target_def replica_def cov_New_def covered_def demo_covered_def demo_fleet_reads)


end
