(* ===== verification/Spec2Isabelle.thy ===== *)
theory Spec2Isabelle
  imports Audits Expiry Startup Ctrlreg
begin

text \<open>
  Verification of the control plane of sbw-server.

  The program. Customers' pools (member prefixes with rates and an action) are enforced on edges. A pool
  has a primary edge, which announces and polices it, and usually a backup, which stands by. Several
  controller replicas serve the admin API, keep the pools in YugabyteDB, keep registrations and per-edge
  versions in etcd, render the desired state of each edge, push it to the edge's agent, judge edges dead
  and move pools away from them.

  Correspondence, in the order of the imports (paths under \<open>src/internal/\<close>):

  \<^item> \<open>Prelude\<close>: collections of rules, results as sums with \<open>bindE\<close> and \<open>foldE\<close>, the stable sort of Go's
    \<open>sort.Slice\<close> users, 64-bit integers, decimal text. \<open>Netip\<close>: what the code uses of \<open>net/netip\<close>.
    \<open>Contract\<close>: the model types of the contract module the sources construct and read; its functions are
    arguments (\<open>cx\<close>) with their documented behaviour as named hypotheses.
  \<^item> \<open>Shard\<close> (\<open>shard/shard.go\<close>): rendezvous hashing of edges onto controllers, at 64-bit width.
  \<^item> \<open>Scheduler\<close> (\<open>scheduler/scheduler.go\<close>): placement of homes; the random tie-break is any permutation.
  \<^item> \<open>Render\<close> (\<open>render/desired.go\<close>): desired state of an edge from its pools.
  \<^item> \<open>Liveness\<close> (\<open>liveness/monitor.go\<close>): the monitor's state per edge, its signals and \<open>Tick\<close>; one
    reading of the clock per operation, the iteration order of Go maps is an argument.
  \<^item> \<open>YbStore\<close> (\<open>ybstore/ybstore.go\<close>): the two tables, every transaction and query on them, and around them a
    store with injected faults (roll back, lost acknowledgement, read restart) and a follower snapshot.
    \<open>MemStore\<close> (\<open>ybstore/mem.go\<close>, \<open>capcache.go\<close>): the in-memory store and the capacity cache.
  \<^item> \<open>Etcd\<close>: the client interface as a record of operations, with the documented behaviour as the locale
    \<open>etcd_client\<close> over a growing log of committed transactions, which other clients extend at every call;
    the locale is interpreted on a concrete cluster. \<open>EdgeVer\<close> (\<open>edgever/edgever.go\<close>) and \<open>Registry\<close>
    (\<open>registry/registry.go\<close>) are clients of it.
  \<^item> \<open>Orch\<close> (\<open>orchestrator/orchestrator.go\<close>, \<open>poolstore/poolstore.go\<close>): the orchestrator's wiring, its world
    (both stores, the generation counters, outstanding goroutines, a trace of observations and effects) and the
    state monad its operations are written in; placement inputs, generations, rendering, delivery. Before
    every database call the peers of the replica may change the store (\<open>oc_peers\<close>).
  \<^item> \<open>TraceGuard\<close>: a judgement that every event of a trace is justified by the events before it.
    \<open>Failover\<close> (\<open>orchestrator/reconcile.go\<close>, \<open>failover.go\<close>, \<open>pivot.go\<close>): the reconcile pass, bulk failover and
    the operator's promote, provision, drain and decommission. \<open>Progress\<close>: what the passes achieve when the
    environment is quiet.
  \<^item> \<open>Lifecycle\<close> (\<open>orchestrator/orchestrator.go\<close>, \<open>srcmap/srcmap.go\<close>): create, update, remove member, destroy.
  \<^item> \<open>Ledger\<close> (\<open>ledger/ledger.go\<close>): token balances split over counters in etcd and the reclaim of expired reservations.
    \<open>DeathVote\<close> (\<open>deathvote/deathvote.go\<close>): the votes of the replicas, under leases, and their feed into the monitor.
  \<^item> \<open>Presence\<close> (\<open>server/memberedge.go\<close>): which coverer asserts which member on which edge, and the advertise gate.
    \<open>Fan\<close> (\<open>server/desiredfan.go\<close>, \<open>servercoverer.go\<close>): the streams to the coverers with their bounded buffers,
    routing, coverage recompute and re-homing. \<open>ApiResult\<close> (\<open>apiresult/apiresult.go\<close>, the emit functions of
    \<open>server/controlplane.go\<close>): the control plane's state and the events it produces; the locale \<open>level_converter\<close> is the
    conversion of a level into its changes, interpreted on the three observations. \<open>Pending\<close>: requests waiting for their result.
  \<^item> \<open>ControlPlane\<close> (\<open>server/controlplane.go\<close>): the operations over the control plane's state and the orchestrator's
    world together: callbacks, the reconcile queue, liveness events, registration, reports, the drift sweep. \<open>CpFrame\<close>: locales for
    what these operations leave alone, ordered by how much of the state a view may depend on.
  \<^item> \<open>Claims\<close>: the member prefixes of the stored pools as claims on addresses, and a Hoare-style judgement (\<open>triple\<close>, \<open>steady\<close>) for the
    orchestrator's operations over the tables. \<open>Admin\<close> (\<open>server/admin.go\<close>): every handler from the decoded request to the answer, the
    overlap policy, eviction and the anti-replay window.
  \<^item> \<open>NetipParse\<close>: \<open>netip.ParsePrefix\<close> at the level of its loops, the inverse of the printer of \<open>Netip\<close>. \<open>Uplink\<close>
    (\<open>server/scvr_provider.go\<close>, the pipeline of \<open>memberedge.go\<close>, \<open>servercoverer.go\<close>): reports of every kind, the goroutines they start,
    registration and the sync of a connecting coverer; the advertise gate reads the presence map of the moment of a render.
  \<^item> \<open>Anchors\<close> (\<open>server/anchoraudit.go\<close>): the lease sweep and the anchor audit, composed with reports and rendering. \<open>Audits\<close>
    (\<open>server/accounts.go\<close>, \<open>reconaudit.go\<close>): accounts against the ledger at 64-bit width, program fidelity with its streak. \<open>Expiry\<close>
    (\<open>server/expiry.go\<close>): the sweep of expired actions, and the reclaim tick.
  \<^item> \<open>Ctrlreg\<close> (\<open>ctrlreg/ctrlreg.go\<close>, \<open>coverage/\<close>): membership of the controllers under leases and the coverage derived from it. It
    and \<open>Registry\<close> are interpretations of the locale \<open>directory\<close> of \<open>Etcd\<close>.
  \<^item> \<open>Config\<close> (\<open>server/config.go\<close>) and \<open>Startup\<close> (\<open>cmd/sbw-server/main.go\<close>, \<open>NewControlPlane\<close>, the orchestrator's options): from file and
    environment to the wired server, its refusals and its panics.

  What is shown. Safety under any interleaving: a version-gated pivot write excludes every other at the same
  version; every write of a reconcile or bulk pass is justified by what was observed just before it; a
  failover needs evidence; bumps of an edge version are atomic increments; without replace no address is ever claimed by two pools, whatever requests
  and passes run and whatever fails. Progress in a quiet environment:
  a migration settles within four acting passes, a create is all or nothing and its answer is true, a destroy withdraws or keeps
  the pool. Functional behaviour of placement, rendering, overlap search and the stores, with the store in memory
  refining the tables. Of the server: every stream buffer is bounded and no channel is closed twice, routing and
  assignment agree, a request is answered exactly once, drift and program mismatches are acted on at
  every threshold-th in a row, a death and its moves are reported with one reason. What an edge announces is determined by its pools and by the
  history of the coverers' reports, and the anchor audit alarms about exactly what the gate withholds; the expiry sweep removes only what it saw
  expired. A server that starts satisfies the invariants the other theorems start from, and a fleet with one
  view of its members covers every edge. Where the code does something else than its comments say, a lemma states what
  it does, and the manifest lists it as a finding.

  Bounds. Retry loops carry the source's own bound as fuel (64 attempts in \<open>edgever\<close>, 5 in follower reads, the
  poll count that the timeout and the interval of \<open>waitEdgeApplied\<close> give), so running out is an outcome of the
  code and not of the model. Generations and versions are 64-bit words; token sums are integers except where the
  source's overflow matters.

  Not modelled: the gRPC, HTTP and Kafka transports, metrics and logging, the ticker loops around the operations (each tick is a definition) and
  the debounce of the coverage recompute, sockets, signals and the shutdown of the process, connection
  set-up of the stores, JSON encoding and the contract module. During an operation of the orchestrator the answers of the monitor, of the fan and of
  the session budget are oracles that may change at every question, which covers any state these components go through meanwhile; the
  theorems about announcements fix the gate to the presence map of the moment. Callbacks an operator may install are left out.
\<close>

end
